(* ===== verification/OS_Prelude.thy ===== *)
theory OS_Prelude
  imports Main "HOL-Library.Word" "HOL-Library.Multiset"
begin

text \<open>
  Shared vocabulary of the development: what the C code can do besides returning a value
  (undefined behaviour, process exit, a loop that never ends) as an error type, the result
  type with its bind, the C integer conversions the sources rely on (LP64: \<open>int\<close> has 32
  bits, \<open>unsigned long\<close> has 64), C arrays with checked indices, and singly linked lists
  whose links may be indeterminate.
\<close>

section \<open>Undefined behaviour and exits as values\<close>

datatype c_error =
    NullDeref        \<comment> \<open>a null pointer is dereferenced\<close>
  | WildDeref        \<comment> \<open>a dangling or indeterminate pointer is read or dereferenced\<close>
  | OutOfBounds      \<comment> \<open>an array or buffer is accessed outside its bounds\<close>
  | UninitRead       \<comment> \<open>an object with indeterminate value is read\<close>
  | SignedOverflow   \<comment> \<open>a signed computation leaves the range of its type\<close>
  | DivByZero
  | Diverges         \<comment> \<open>a loop over a cyclic list\<close>
  | BadConversion    \<comment> \<open>\<open>fscanf\<close> reads a number its object cannot represent\<close>
  | Exit int         \<comment> \<open>the program calls \<open>exit\<close>\<close>

type_synonym 'a res = "c_error + 'a"

definition rbind :: "'a res \<Rightarrow> ('a \<Rightarrow> 'b res) \<Rightarrow> 'b res" where
  "rbind m f = (case m of Inl e \<Rightarrow> Inl e | Inr x \<Rightarrow> f x)"

named_theorems res_simps \<open>evaluation of the result monad\<close>
named_theorems c_simps \<open>C conversions and array accesses inside their range\<close>

lemma rbind_Inr [simp, res_simps]: "rbind (Inr x) f = f x"
  by (simp add: rbind_def)

lemma rbind_Inl [simp, res_simps]: "rbind (Inl e) f = Inl e"
  by (simp add: rbind_def)

lemma rbind_eq_Inr [res_simps]:
  "rbind m f = Inr y \<longleftrightarrow> (\<exists>x. m = Inr x \<and> f x = Inr y)"
  by (cases m) simp_all

lemma rbind_eq_Inl [res_simps]:
  "rbind m f = Inl e \<longleftrightarrow> m = Inl e \<or> (\<exists>x. m = Inr x \<and> f x = Inl e)"
  by (cases m) simp_all

lemma rbind_cong [fundef_cong]:
  assumes "m = m'" and "\<And>x. m' = Inr x \<Longrightarrow> f x = g x"
  shows "rbind m f = rbind m' g"
  using assms by (cases m') simp_all

section \<open>C integers\<close>

text \<open>
  \<open>u32\<close>, \<open>u64\<close> and \<open>s32\<close> are the conversions to \<open>uint32_t\<close>, \<open>unsigned long\<close> and
  \<open>int\<close> (gcc converts an out-of-range value to \<open>int\<close> modulo \<open>2 ^ 32\<close>). \<open>s32_arith\<close>
  is a signed computation, undefined where its result does not fit.
\<close>

definition u32 :: "int \<Rightarrow> int" where "u32 x = x mod 2 ^ 32"
definition u64 :: "int \<Rightarrow> int" where "u64 x = x mod 2 ^ 64"
definition s32 :: "int \<Rightarrow> int" where "s32 x = (x + 2 ^ 31) mod 2 ^ 32 - 2 ^ 31"

definition s32_arith :: "int \<Rightarrow> int res" where
  "s32_arith x = (if - (2 ^ 31) \<le> x \<and> x < 2 ^ 31 then Inr x else Inl SignedOverflow)"

text \<open>C division truncates towards zero.\<close>

definition c_div :: "int \<Rightarrow> int \<Rightarrow> int" where
  "c_div a b = sgn a * sgn b * (\<bar>a\<bar> div \<bar>b\<bar>)"

lemma u32_id [simp, c_simps]: "0 \<le> x \<Longrightarrow> x < 2 ^ 32 \<Longrightarrow> u32 x = x"
  by (simp add: u32_def)

lemma u64_id [simp, c_simps]: "0 \<le> x \<Longrightarrow> x < 2 ^ 64 \<Longrightarrow> u64 x = x"
  by (simp add: u64_def)

lemma s32_id [simp, c_simps]: "- (2 ^ 31) \<le> x \<Longrightarrow> x < 2 ^ 31 \<Longrightarrow> s32 x = x"
  by (simp add: s32_def)

lemma s32_arith_id [simp, c_simps]:
  "- (2 ^ 31) \<le> x \<Longrightarrow> x < 2 ^ 31 \<Longrightarrow> s32_arith x = Inr x"
  by (simp add: s32_arith_def)

lemma u32_bounds: "0 \<le> u32 x" "u32 x < 2 ^ 32"
  by (simp_all add: u32_def)

lemma c_div_nonneg [c_simps]: "0 \<le> a \<Longrightarrow> 0 < b \<Longrightarrow> c_div a b = a div b"
  by (cases "a = 0") (simp_all add: c_div_def)

section \<open>Arrays\<close>

text \<open>An access outside the array is undefined behaviour, not a default value.\<close>

definition arr_get :: "'a list \<Rightarrow> nat \<Rightarrow> 'a res" where
  "arr_get xs i = (if i < length xs then Inr (xs ! i) else Inl OutOfBounds)"

definition arr_set :: "'a list \<Rightarrow> nat \<Rightarrow> 'a \<Rightarrow> 'a list res" where
  "arr_set xs i v = (if i < length xs then Inr (xs[i := v]) else Inl OutOfBounds)"

lemma arr_get_ok [simp, c_simps]: "i < length xs \<Longrightarrow> arr_get xs i = Inr (xs ! i)"
  by (simp add: arr_get_def)

lemma arr_set_ok [simp, c_simps]: "i < length xs \<Longrightarrow> arr_set xs i v = Inr (xs[i := v])"
  by (simp add: arr_set_def)

lemma arr_get_eq_Inr: "arr_get xs i = Inr v \<longleftrightarrow> i < length xs \<and> xs ! i = v"
  by (auto simp: arr_get_def)

section \<open>The first index with a property\<close>

lemma filter_upt_Cons:
  assumes "filter P [a..<n] = k # r"
  shows "a \<le> k" "k < n" "P k" "\<And>j. a \<le> j \<Longrightarrow> j < k \<Longrightarrow> \<not> P j"
proof -
  obtain us vs where l: "[a..<n] = us @ k # vs" and us: "\<forall>u \<in> set us. \<not> P u" and "P k"
    using filter_eq_ConsD [OF assms] by blast
  then have k: "k = a + length us" and len: "length us < n - a"
    using nth_upt [of a "length us" n]
    by (metis add_diff_cancel_left' append_eq_conv_conj length_upt length_append length_Cons
        less_add_same_cancel1 less_diff_conv add.commute nth_append_length zero_less_Suc)+
  show "P k" by fact
  show "a \<le> k" "k < n" using k len by simp_all
  have "us = [a..<k]"
    using l k len by (metis append_eq_conv_conj less_imp_le take_upt add_le_imp_le_diff
        length_upt less_diff_conv add.commute)
  then show "\<not> P j" if "a \<le> j" "j < k" for j
    using us that by simp
qed

lemma filter_upt_Nil: "filter P [a..<n] = [] \<longleftrightarrow> (\<forall>j. a \<le> j \<and> j < n \<longrightarrow> \<not> P j)"
  by (auto simp: filter_empty_conv)

section \<open>Singly linked lists that own their nodes\<close>

text \<open>
  A list no other pointer reaches into is a value: \<open>CNull\<close> is the null pointer,
  \<open>CNode x r\<close> a live node, and \<open>CWild\<close> a pointer that is dangling or was never
  initialised. Using \<open>CWild\<close> is undefined behaviour.
\<close>

datatype 'a clist = CNull | CWild | CNode 'a "'a clist"

primrec clist_of :: "'a list \<Rightarrow> 'a clist" where
  "clist_of [] = CNull"
| "clist_of (x # xs) = CNode x (clist_of xs)"

primrec celems :: "'a clist \<Rightarrow> 'a list" where
  "celems CNull = []"
| "celems CWild = []"
| "celems (CNode x r) = x # celems r"

primrec proper :: "'a clist \<Rightarrow> bool" where
  "proper CNull = True"
| "proper CWild = False"
| "proper (CNode x r) = proper r"

lemma celems_clist_of [simp]: "celems (clist_of xs) = xs"
  by (induction xs) auto

lemma proper_clist_of [simp]: "proper (clist_of xs)"
  by (induction xs) auto

lemma clist_of_celems: "proper l \<Longrightarrow> clist_of (celems l) = l"
  by (induction l) auto

section \<open>Summing a quantity over the threads\<close>

lemma sum_list_upd:
  fixes g :: "'a \<Rightarrow> 'b :: comm_monoid_add"
  shows "k < length ts \<Longrightarrow> sum_list (map g (ts[k := x])) + g (ts ! k) = sum_list (map g ts) + g x"
proof (induction ts arbitrary: k)
  case (Cons t ts)
  show ?case
  proof (cases k)
    case (Suc n)
    then have "sum_list (map g (ts[n := x])) + g (ts ! n) = sum_list (map g ts) + g x" using Cons by simp
    then show ?thesis by (simp add: Suc add.assoc)
  qed (simp add: ac_simps)
qed simp

lemma sum_list_two:
  fixes g :: "'a \<Rightarrow> 'b multiset"
  assumes "i < length ts" "j < length ts" "i \<noteq> j"
  shows "g (ts ! i) + g (ts ! j) \<subseteq># sum_list (map g ts)"
proof -
  have "sum_list (map g ts) = (\<Sum>n = 0..<length ts. map g ts ! n)"
    using sum_list_sum_nth [of "map g ts"] by simp
  also have "... = (\<Sum>n \<in> {0..<length ts}. g (ts ! n))" by (rule sum.cong) simp_all
  also have "... = g (ts ! i) + (g (ts ! j) + (\<Sum>n \<in> {0..<length ts} - {i} - {j}. g (ts ! n)))"
    using assms by (simp add: sum.remove [of _ i] sum.remove [of "_ - {i}" j])
  finally show ?thesis by simp
qed

end
