(* ===== verification/OS_Bitops.thy ===== *)
theory OS_Bitops
  imports OS_Prelude
begin

text \<open>
  The bit macros of \<open>include/bitops.h\<close>, the address and page table entry layout of
  \<open>include/mm.h\<close>, and the three functions of \<open>src/mm.c\<close> that write page table
  entries. A page table entry and an unsigned 32-bit expression are values of \<open>32 word\<close>;
  an \<open>int\<close> operand of a bit operator is converted to \<open>unsigned\<close> first, as C does
  because the masks are unsigned.
\<close>

unbundle bit_operations_syntax

type_synonym pte = "32 word"

section \<open>bitops.h\<close>

definition BITS_PER_LONG :: nat where "BITS_PER_LONG = 32"

definition BIT :: "nat \<Rightarrow> 32 word" where "BIT nr = push_bit nr 1"

definition GENMASK :: "nat \<Rightarrow> nat \<Rightarrow> 32 word" where
  "GENMASK h l = push_bit l (NOT 0) AND drop_bit (BITS_PER_LONG - h - 1) (NOT 0)"

definition DIV_ROUND_UP :: "int \<Rightarrow> int \<Rightarrow> int" where
  "DIV_ROUND_UP n d = (n + d - 1) div d"

definition NBITS2 :: "32 word \<Rightarrow> nat" where
  "NBITS2 n = (if n AND 2 \<noteq> 0 then 1 else 0)"
definition NBITS4 :: "32 word \<Rightarrow> nat" where
  "NBITS4 n = (if n AND 0xC \<noteq> 0 then 2 + NBITS2 (drop_bit 2 n) else NBITS2 n)"
definition NBITS8 :: "32 word \<Rightarrow> nat" where
  "NBITS8 n = (if n AND 0xF0 \<noteq> 0 then 4 + NBITS4 (drop_bit 4 n) else NBITS4 n)"
definition NBITS16 :: "32 word \<Rightarrow> nat" where
  "NBITS16 n = (if n AND 0xFF00 \<noteq> 0 then 8 + NBITS8 (drop_bit 8 n) else NBITS8 n)"
definition NBITS32 :: "32 word \<Rightarrow> nat" where
  "NBITS32 n = (if n AND 0xFFFF0000 \<noteq> 0 then 16 + NBITS16 (drop_bit 16 n) else NBITS16 n)"
definition NBITS :: "32 word \<Rightarrow> nat" where
  "NBITS n = (if n = 0 then 0 else NBITS32 n)"

definition EXTRACT_NBITS :: "32 word \<Rightarrow> nat \<Rightarrow> nat \<Rightarrow> 32 word" where
  "EXTRACT_NBITS nr h l = drop_bit l (nr AND GENMASK h l)"

section \<open>mm.h: sizes, masks and field operators\<close>

definition PAGING_CPU_BUS_WIDTH :: nat where "PAGING_CPU_BUS_WIDTH = 22"
definition PAGING_PAGESZ :: int where "PAGING_PAGESZ = 256"
definition PAGING_MAX_PGN :: int where
  "PAGING_MAX_PGN = DIV_ROUND_UP (uint (BIT PAGING_CPU_BUS_WIDTH)) PAGING_PAGESZ"

text \<open>
  \<open>PAGING_PAGE_ALIGNSZ\<close> on an \<open>unsigned long\<close>: the addition and the product wrap.
\<close>

definition PAGING_PAGE_ALIGNSZ :: "int \<Rightarrow> int" where
  "PAGING_PAGE_ALIGNSZ sz = u64 (u64 (u64 (sz + PAGING_PAGESZ) - 1) div PAGING_PAGESZ * PAGING_PAGESZ)"

definition SETBIT :: "pte \<Rightarrow> 32 word \<Rightarrow> pte" where "SETBIT v m = v OR m"
definition CLRBIT :: "pte \<Rightarrow> 32 word \<Rightarrow> pte" where "CLRBIT v m = v AND NOT m"
definition SETVAL :: "pte \<Rightarrow> int \<Rightarrow> 32 word \<Rightarrow> nat \<Rightarrow> pte" where
  "SETVAL v value m offst = (v AND NOT m) OR (push_bit offst (word_of_int value) AND m)"
definition GETVAL :: "pte \<Rightarrow> 32 word \<Rightarrow> nat \<Rightarrow> 32 word" where
  "GETVAL v m offst = drop_bit offst (v AND m)"

definition PAGING_PTE_PRESENT_MASK :: "32 word" where "PAGING_PTE_PRESENT_MASK = BIT 31"
definition PAGING_PTE_SWAPPED_MASK :: "32 word" where "PAGING_PTE_SWAPPED_MASK = BIT 30"
definition PAGING_PTE_DIRTY_MASK :: "32 word" where "PAGING_PTE_DIRTY_MASK = BIT 28"

definition PAGING_PTE_FPN_MASK :: "32 word" where "PAGING_PTE_FPN_MASK = GENMASK 12 0"
definition PAGING_PTE_SWPTYP_MASK :: "32 word" where "PAGING_PTE_SWPTYP_MASK = GENMASK 4 0"
definition PAGING_PTE_SWPOFF_MASK :: "32 word" where "PAGING_PTE_SWPOFF_MASK = GENMASK 25 5"

definition PAGING_PAGE_PRESENT :: "pte \<Rightarrow> bool" where
  "PAGING_PAGE_PRESENT p \<longleftrightarrow> p AND PAGING_PTE_PRESENT_MASK \<noteq> 0"

definition PAGING_FPN :: "pte \<Rightarrow> int" where
  "PAGING_FPN p = uint (GETVAL p PAGING_PTE_FPN_MASK 0)"
definition PAGING_SWP :: "pte \<Rightarrow> int" where
  "PAGING_SWP p = uint (drop_bit 5 (p AND PAGING_PTE_SWPOFF_MASK))"

definition PAGING_ADDR_PGN_LOBIT :: nat where
  "PAGING_ADDR_PGN_LOBIT = NBITS (word_of_int PAGING_PAGESZ)"
definition PAGING_ADDR_PGN_HIBIT :: nat where
  "PAGING_ADDR_PGN_HIBIT = PAGING_CPU_BUS_WIDTH - 1"
definition PAGING_ADDR_FPN_LOBIT :: nat where
  "PAGING_ADDR_FPN_LOBIT = NBITS (word_of_int PAGING_PAGESZ)"
definition PAGING_ADDR_OFFST_HIBIT :: nat where
  "PAGING_ADDR_OFFST_HIBIT = NBITS (word_of_int PAGING_PAGESZ) - 1"

definition PAGING_OFFST_MASK :: "32 word" where
  "PAGING_OFFST_MASK = GENMASK PAGING_ADDR_OFFST_HIBIT 0"
definition PAGING_PGN_MASK :: "32 word" where
  "PAGING_PGN_MASK = GENMASK PAGING_ADDR_PGN_HIBIT PAGING_ADDR_PGN_LOBIT"

definition PAGING_OFFST :: "int \<Rightarrow> int" where
  "PAGING_OFFST x = uint (GETVAL (word_of_int x) PAGING_OFFST_MASK 0)"
definition PAGING_PGN :: "int \<Rightarrow> int" where
  "PAGING_PGN x = uint (GETVAL (word_of_int x) PAGING_PGN_MASK PAGING_ADDR_PGN_LOBIT)"

section \<open>mm.c: page table entries\<close>

definition init_pte :: "pte \<Rightarrow> int \<Rightarrow> int \<Rightarrow> int \<Rightarrow> int \<Rightarrow> int \<Rightarrow> int \<Rightarrow> int \<times> pte" where
  "init_pte p pre fpn drt swp swptyp swpoff =
     (if pre \<noteq> 0 then
        if swp = 0 then
          if fpn = 0 then (-1, p)
          else
            (let p = SETBIT p PAGING_PTE_PRESENT_MASK;
                 p = CLRBIT p PAGING_PTE_SWAPPED_MASK;
                 p = CLRBIT p PAGING_PTE_DIRTY_MASK
             in (0, SETVAL p fpn PAGING_PTE_FPN_MASK 0))
        else
          (let p = CLRBIT p PAGING_PTE_PRESENT_MASK;
               p = SETBIT p PAGING_PTE_SWAPPED_MASK;
               p = CLRBIT p PAGING_PTE_DIRTY_MASK;
               p = SETVAL p swptyp PAGING_PTE_SWPTYP_MASK 0
           in (0, SETVAL p swpoff PAGING_PTE_SWPOFF_MASK 5))
      else (0, p))"

definition pte_set_swap :: "pte \<Rightarrow> int \<Rightarrow> int \<Rightarrow> pte" where
  "pte_set_swap p swptyp swpoff =
     (let p = CLRBIT p PAGING_PTE_PRESENT_MASK;
          p = SETBIT p PAGING_PTE_SWAPPED_MASK;
          p = SETVAL p swptyp PAGING_PTE_SWPTYP_MASK 0
      in SETVAL p swpoff PAGING_PTE_SWPOFF_MASK 5)"

definition pte_set_fpn :: "pte \<Rightarrow> int \<Rightarrow> pte" where
  "pte_set_fpn p fpn =
     (let p = SETBIT p PAGING_PTE_PRESENT_MASK;
          p = CLRBIT p PAGING_PTE_SWAPPED_MASK
      in SETVAL p fpn PAGING_PTE_FPN_MASK 0)"

section \<open>The masks as bit sets\<close>

lemma bit_GENMASK [simp]:
  assumes "h < 32"
  shows "bit (GENMASK h l) n \<longleftrightarrow> l \<le> n \<and> n \<le> h"
  using assms by (auto simp: GENMASK_def BITS_PER_LONG_def bit_simps)

lemma bit_BIT [simp]: "nr < 32 \<Longrightarrow> bit (BIT nr) n \<longleftrightarrow> n = nr"
  by (auto simp: BIT_def bit_simps)

lemma NBITS_PAGESZ: "NBITS (word_of_int PAGING_PAGESZ) = 8"
  by (simp add: NBITS_def NBITS32_def NBITS16_def NBITS8_def NBITS4_def NBITS2_def PAGING_PAGESZ_def)

lemmas mask_defs =
  PAGING_PTE_PRESENT_MASK_def PAGING_PTE_SWAPPED_MASK_def PAGING_PTE_DIRTY_MASK_def
  PAGING_PTE_FPN_MASK_def PAGING_PTE_SWPTYP_MASK_def PAGING_PTE_SWPOFF_MASK_def

lemmas pte_op_defs = SETBIT_def CLRBIT_def SETVAL_def GETVAL_def

section \<open>Reading and writing page table entries\<close>

lemma bit_pte_set_fpn:
  "bit (pte_set_fpn p fpn) n \<longleftrightarrow>
     n < 32 \<and> (n = 31 \<or> n \<noteq> 30 \<and> (if n \<le> 12 then bit fpn n else bit p n))"
  by (auto simp: pte_set_fpn_def Let_def pte_op_defs mask_defs bit_simps
      dest: bit_imp_le_length)

lemma bit_pte_set_swap:
  "bit (pte_set_swap p t off) n \<longleftrightarrow>
     n < 32 \<and> n \<noteq> 31 \<and>
     (n = 30 \<or> (if n \<le> 4 then bit t n else if n \<le> 25 then bit off (n - 5) else bit p n))"
  by (auto simp: pte_set_swap_def Let_def pte_op_defs mask_defs bit_simps
      dest: bit_imp_le_length)

lemma present_iff_bit [simp]: "PAGING_PAGE_PRESENT p \<longleftrightarrow> bit p 31"
proof -
  have "bit (p AND BIT 31) n \<longleftrightarrow> n = 31 \<and> bit p 31" for n
    by (auto simp: bit_and_iff)
  then show ?thesis
    unfolding PAGING_PAGE_PRESENT_def PAGING_PTE_PRESENT_MASK_def
    by (metis bit_0_eq bit_eqI bot_apply bot_bool_def)
qed

lemma PAGING_FPN_take_bit: "PAGING_FPN p = take_bit 13 (uint p)"
  by (rule bit_eqI)
    (auto simp: PAGING_FPN_def GETVAL_def PAGING_PTE_FPN_MASK_def bit_simps
      dest: bit_imp_le_length)

lemma PAGING_SWP_take_bit: "PAGING_SWP p = take_bit 21 (drop_bit 5 (uint p))"
  by (rule bit_eqI)
    (auto simp: PAGING_SWP_def PAGING_PTE_SWPOFF_MASK_def bit_simps
      dest: bit_imp_le_length)

lemma PAGING_FPN_bounds: "0 \<le> PAGING_FPN p" "PAGING_FPN p < 8192"
  by (simp_all add: PAGING_FPN_take_bit take_bit_eq_mod)

lemma FPN_pte_set_fpn: "PAGING_FPN (pte_set_fpn p fpn) = fpn mod 8192"
proof -
  have "PAGING_FPN (pte_set_fpn p fpn) = take_bit 13 fpn"
    by (rule bit_eqI) (auto simp: PAGING_FPN_take_bit bit_simps bit_pte_set_fpn)
  then show ?thesis by (simp add: take_bit_eq_mod)
qed

lemma SWP_pte_set_swap: "PAGING_SWP (pte_set_swap p t off) = off mod 2097152"
proof -
  have "PAGING_SWP (pte_set_swap p t off) = take_bit 21 off"
    by (rule bit_eqI) (auto simp: PAGING_SWP_take_bit bit_simps bit_pte_set_swap)
  then show ?thesis by (simp add: take_bit_eq_mod)
qed

lemma FPN_pte_set_swap:
  "PAGING_FPN (pte_set_swap p t off) = t mod 32 + 32 * (off mod 256)"
proof -
  have "PAGING_FPN (pte_set_swap p t off) = take_bit 5 t OR push_bit 5 (take_bit 8 off)"
    by (rule bit_eqI) (auto simp: PAGING_FPN_take_bit bit_simps bit_pte_set_swap)
  also have "\<dots> = take_bit 5 t + push_bit 5 (take_bit 8 off)"
    by (rule disjunctive_add [symmetric]) (auto simp: bit_simps)
  finally show ?thesis by (simp add: take_bit_eq_mod push_bit_eq_mult)
qed

lemma present_pte_set_fpn [simp]: "bit (pte_set_fpn p fpn) 31"
  by (simp add: bit_pte_set_fpn)

lemma not_present_pte_set_swap [simp]: "\<not> bit (pte_set_swap p t off) 31"
  by (simp add: bit_pte_set_swap)

section \<open>Splitting an address\<close>

lemma PAGING_OFFST_mod [c_simps]: "PAGING_OFFST x = x mod 256"
proof -
  have "PAGING_OFFST x = take_bit 8 x"
    by (rule bit_eqI)
      (auto simp: PAGING_OFFST_def GETVAL_def PAGING_OFFST_MASK_def PAGING_ADDR_OFFST_HIBIT_def
        NBITS_PAGESZ bit_simps)
  then show ?thesis by (simp add: take_bit_eq_mod)
qed

lemma PAGING_PGN_div [c_simps]: "PAGING_PGN x = x div 256 mod 16384"
proof -
  have "PAGING_PGN x = take_bit 14 (drop_bit 8 x)"
    by (rule bit_eqI)
      (auto simp: PAGING_PGN_def GETVAL_def PAGING_PGN_MASK_def PAGING_ADDR_PGN_LOBIT_def
        PAGING_ADDR_PGN_HIBIT_def PAGING_CPU_BUS_WIDTH_def NBITS_PAGESZ bit_simps)
  then show ?thesis by (simp add: take_bit_eq_mod drop_bit_eq_div)
qed

lemma PAGING_PGN_bounds: "0 \<le> PAGING_PGN x" "PAGING_PGN x < 16384"
  by (simp_all add: PAGING_PGN_div)

lemma PAGING_OFFST_bounds: "0 \<le> PAGING_OFFST x" "PAGING_OFFST x < 256"
  by (simp_all add: PAGING_OFFST_mod)

lemma PAGING_MAX_PGN_val [simp]: "PAGING_MAX_PGN = 16384"
  by (simp add: PAGING_MAX_PGN_def DIV_ROUND_UP_def PAGING_PAGESZ_def PAGING_CPU_BUS_WIDTH_def
      BIT_def push_bit_eq_mult uint_word_ariths)

lemma FPN_LOBIT_val [simp]: "PAGING_ADDR_FPN_LOBIT = 8"
  by (simp add: PAGING_ADDR_FPN_LOBIT_def NBITS_PAGESZ)

lemma PAGE_ALIGNSZ_eq [c_simps]:
  assumes "0 \<le> sz" and "sz < 2 ^ 62"
  shows "PAGING_PAGE_ALIGNSZ sz = (sz + 255) div 256 * 256"
proof -
  have "(sz + 255) div 256 * 256 \<le> sz + 255" by simp
  then show ?thesis
    using assms by (simp add: PAGING_PAGE_ALIGNSZ_def PAGING_PAGESZ_def)
qed

section \<open>Properties\<close>

text \<open>
  C32: an entry written for a page in RAM is present and gives back the frame number; one
  written for a swapped page is not present and gives back the swap offset, as long as the
  numbers fit the 13-bit and 21-bit fields of the entry.
\<close>

theorem pte_roundtrip:
  assumes "0 \<le> fpn" "fpn < 2 ^ 13" "0 \<le> off" "off < 2 ^ 21"
  shows "PAGING_PAGE_PRESENT (pte_set_fpn p fpn) \<and> PAGING_FPN (pte_set_fpn p fpn) = fpn \<and>
    \<not> PAGING_PAGE_PRESENT (pte_set_swap p typ off) \<and> PAGING_SWP (pte_set_swap p typ off) = off"
  using assms by (simp add: FPN_pte_set_fpn SWP_pte_set_swap)

theorem pte_roundtrip_witness:
  "PAGING_FPN (pte_set_fpn 0 5) = 5 \<and> PAGING_SWP (pte_set_swap 0 0 7) = 7"
  using pte_roundtrip [of 5 7 0 0] by simp

text \<open>
  C33: a virtual address of the 22-bit address space is its page number times the page size
  plus its offset, so that no two addresses have the same page number and offset.
\<close>

theorem address_split:
  assumes "0 \<le> a" "a < 2 ^ 22"
  shows "PAGING_PGN a * PAGING_PAGESZ + PAGING_OFFST a = a \<and>
    0 \<le> PAGING_PGN a \<and> PAGING_PGN a < PAGING_MAX_PGN \<and> 0 \<le> PAGING_OFFST a \<and> PAGING_OFFST a < PAGING_PAGESZ"
proof -
  have "a div 256 mod 16384 = a div 256" using assms by (intro mod_pos_pos_trivial) auto
  then show ?thesis
    using PAGING_PGN_bounds [of a] PAGING_OFFST_bounds [of a]
    by (simp add: PAGING_PGN_div PAGING_OFFST_mod PAGING_PAGESZ_def)
qed

theorem address_split_witness:
  "PAGING_PGN 1000 * PAGING_PAGESZ + PAGING_OFFST 1000 = 1000"
  using address_split [of 1000] by simp

end
