(* ===== verification/OS_Types.thy ===== *)
theory OS_Types
  imports OS_Bitops
begin

text \<open>
  The data of \<open>include/common.h\<close> and \<open>include/os-mm.h\<close>. Integers are \<open>int\<close> values
  kept in the range of their C type by the operations; a byte is an \<open>8 word\<close>.
  \<^item> Lists whose nodes nothing else points to are \<open>clist\<close> values: the frame lists of a
    physical memory and the page list \<open>fifo_pgn\<close>.
  \<^item> The free region list is walked, spliced and merged through node pointers, so its nodes
    live in an explicit store (\<open>rg_heap\<close>); a pointer is a \<open>nat option\<close>, \<open>None\<close> for null.
  \<^item> An array indexed by page number or by physical address is a function; every access
    checks the bound the array was allocated with.
  The fields no function of the system reads are left out: \<open>owner\<close> of a frame node,
  \<open>vm_mm\<close> of an area.
\<close>

type_synonym byte = "8 word"

section \<open>os-mm.h\<close>

definition PAGING_MAX_MMSWP :: nat where "PAGING_MAX_MMSWP = 4"
definition PAGING_MAX_SYMTBL_SZ :: nat where "PAGING_MAX_SYMTBL_SZ = 30"

type_synonym rg_ptr = "nat option"

record vm_rg_struct =
  rg_start :: int
  rg_end :: int
  rg_next :: rg_ptr

text \<open>
  The region nodes of one process. \<open>rg_brk\<close> is the next address \<open>malloc\<close> returns and
  \<open>rg_fresh\<close> the indeterminate contents of the block it returns.
\<close>

record rg_heap =
  rg_cells :: "nat \<rightharpoonup> vm_rg_struct"
  rg_brk :: nat
  rg_fresh :: vm_rg_struct

record vm_area_struct =
  vm_id :: int
  vm_start :: int
  vm_end :: int
  sbrk :: int
  vm_freerg_list :: rg_ptr

text \<open>\<open>mmap\<close> is the list of areas linked by \<open>vm_next\<close>.\<close>

record mm_struct =
  pgd :: "int \<Rightarrow> pte"
  mmap :: "vm_area_struct list"
  symrgtbl :: "vm_rg_struct list"
  fifo_pgn :: "int clist"
  rgs :: rg_heap

record memphy_struct =
  storage :: "int \<Rightarrow> byte"
  maxsz :: int
  rdmflg :: bool
  cursor :: int
  free_fp_list :: "int clist"
  used_fp_list :: "int clist"

section \<open>common.h\<close>

definition ADDRESS_SIZE :: nat where "ADDRESS_SIZE = 20"
definition OFFSET_LEN :: nat where "OFFSET_LEN = 10"
definition FIRST_LV_LEN :: nat where "FIRST_LV_LEN = 5"
definition SECOND_LV_LEN :: nat where "SECOND_LV_LEN = 5"
definition NUM_PAGES :: nat where "NUM_PAGES = 2 ^ (ADDRESS_SIZE - OFFSET_LEN)"
definition PAGE_SIZE :: int where "PAGE_SIZE = 2 ^ OFFSET_LEN"

datatype ins_opcode_t = CALC | ALLOC | FREE | READ | WRITE

record inst_t =
  opcode :: ins_opcode_t
  arg_0 :: int
  arg_1 :: int
  arg_2 :: int

record code_seg_t =
  code_text :: "inst_t list"
  code_size :: int

text \<open>
  The tables of the first and second translation layer (used by \<open>mem.c\<close> only): the rows
  and the row count. A first-layer row points to a second-layer table.
\<close>

record trans_row =
  v_index :: int
  p_index :: int

record trans_table_t =
  tt_table :: "trans_row list"
  tt_size :: int

record page_table_t =
  pt_table :: "(int \<times> trans_table_t option) list"
  pt_size :: int

text \<open>
  \<open>p_mm\<close> (the field \<open>mm\<close>) is \<open>None\<close> until the loader thread has initialised it. \<open>mram\<close>, \<open>mswp\<close> and
  \<open>active_mswp\<close> point to the devices all processes share; they are part of the machine
  state, not of the control block.
\<close>

record pcb_t =
  pid :: int
  priority :: int
  code :: code_seg_t
  regs :: "int list"
  pc :: int
  prio :: int
  p_mm :: "mm_struct option"
  page_table :: page_table_t
  bp :: int

section \<open>What a memory operation reaches through its caller\<close>

text \<open>\<open>caller->mm\<close>, \<open>caller->mram\<close> and \<open>caller->active_mswp\<close>.\<close>

record vmctx =
  c_mm :: mm_struct
  c_mram :: memphy_struct
  c_mswp :: memphy_struct

end
