(* ===== verification/OS_Memphy.thy ===== *)
theory OS_Memphy
  imports OS_Types
begin

text \<open>
  \<open>src/mm-memphy.c\<close>: a physical memory device (RAM or swap) with its byte storage and its
  lists of free and used frames. A function that takes a device pointer it compares with
  null takes a \<open>memphy_struct option\<close>; the others dereference it at once. A result is the
  returned \<open>int\<close>, what the function stores through its out-parameter (\<open>None\<close> when it
  stores nothing), and the device.
\<close>

section \<open>Bytes\<close>

definition storage_get :: "memphy_struct \<Rightarrow> int \<Rightarrow> byte res" where
  "storage_get mp addr =
     (if 0 \<le> addr \<and> addr < maxsz mp then Inr (storage mp addr) else Inl OutOfBounds)"

definition storage_set :: "memphy_struct \<Rightarrow> int \<Rightarrow> byte \<Rightarrow> memphy_struct res" where
  "storage_set mp addr v =
     (if 0 \<le> addr \<and> addr < maxsz mp then Inr (mp\<lparr>storage := (storage mp)(addr := v)\<rparr>)
      else Inl OutOfBounds)"

text \<open>The loop of \<open>MEMPHY_mv_csr\<close>: arguments \<open>numstep\<close>, \<open>offset\<close>, \<open>maxsz\<close>, \<open>cursor\<close>.\<close>

function mv_csr_loop :: "int \<Rightarrow> int \<Rightarrow> int \<Rightarrow> int \<Rightarrow> int" where
  "mv_csr_loop numstep offset mx cur =
     (if numstep < offset \<and> numstep < mx
      then mv_csr_loop (numstep + 1) offset mx ((cur + 1) mod mx)
      else cur)"
  by pat_completeness auto
termination by (relation "measure (\<lambda>(n, offset, mx, cur). nat (mx - n))") auto

declare mv_csr_loop.simps [simp del]

definition MEMPHY_mv_csr :: "memphy_struct \<Rightarrow> int \<Rightarrow> int \<times> memphy_struct" where
  "MEMPHY_mv_csr mp offset = (0, mp\<lparr>cursor := mv_csr_loop 0 offset (maxsz mp) 0\<rparr>)"

definition MEMPHY_seq_read ::
  "memphy_struct option \<Rightarrow> int \<Rightarrow> (int \<times> byte option \<times> memphy_struct option) res" where
  "MEMPHY_seq_read mp addr =
     (case mp of
        None \<Rightarrow> Inr (-1, None, None)
      | Some mp \<Rightarrow>
          if \<not> rdmflg mp then Inr (-1, None, Some mp)
          else
            (let mp = snd (MEMPHY_mv_csr mp addr)
             in rbind (storage_get mp addr) (\<lambda>v. Inr (0, Some v, Some mp))))"

definition MEMPHY_read ::
  "memphy_struct option \<Rightarrow> int \<Rightarrow> (int \<times> byte option \<times> memphy_struct option) res" where
  "MEMPHY_read mp addr =
     (case mp of
        None \<Rightarrow> Inr (-1, None, None)
      | Some mp \<Rightarrow>
          if rdmflg mp then rbind (storage_get mp addr) (\<lambda>v. Inr (0, Some v, Some mp))
          else MEMPHY_seq_read (Some mp) addr)"

definition MEMPHY_seq_write ::
  "memphy_struct option \<Rightarrow> int \<Rightarrow> byte \<Rightarrow> (int \<times> memphy_struct option) res" where
  "MEMPHY_seq_write mp addr v =
     (case mp of
        None \<Rightarrow> Inr (-1, None)
      | Some mp \<Rightarrow>
          if \<not> rdmflg mp then Inr (-1, Some mp)
          else
            (let mp = snd (MEMPHY_mv_csr mp addr)
             in rbind (storage_set mp addr v) (\<lambda>mp'. Inr (0, Some mp'))))"

definition MEMPHY_write ::
  "memphy_struct option \<Rightarrow> int \<Rightarrow> byte \<Rightarrow> (int \<times> memphy_struct option) res" where
  "MEMPHY_write mp addr data =
     (case mp of
        None \<Rightarrow> Inr (-1, None)
      | Some mp \<Rightarrow>
          if rdmflg mp then rbind (storage_set mp addr data) (\<lambda>mp'. Inr (0, Some mp'))
          else MEMPHY_seq_write (Some mp) addr data)"

section \<open>Frames\<close>

text \<open>
  \<open>MEMPHY_format\<close> links the nodes \<open>iter, \<dots>, numfp - 1\<close>. The head is malloc'ed without
  writing its \<open>fp_next\<close>; the loop overwrites it when there is a second frame, otherwise
  the link keeps its indeterminate value \<open>junk\<close>.
\<close>

function format_nodes :: "int \<Rightarrow> int \<Rightarrow> int clist" where
  "format_nodes iter numfp =
     (if iter < numfp then CNode iter (format_nodes (iter + 1) numfp) else CNull)"
  by pat_completeness auto
termination by (relation "measure (\<lambda>(i, n). nat (n - i))") auto

declare format_nodes.simps [simp del]

definition MEMPHY_format :: "int clist \<Rightarrow> memphy_struct \<Rightarrow> int \<Rightarrow> (int \<times> memphy_struct) res" where
  "MEMPHY_format junk mp pagesz =
     (if pagesz = 0 then Inl DivByZero
      else
        (let numfp = c_div (maxsz mp) pagesz
         in if numfp \<le> 0 then Inr (-1, mp)
            else Inr (0, mp\<lparr>free_fp_list :=
                   CNode 0 (if 1 < numfp then format_nodes 1 numfp else junk)\<rparr>)))"

definition MEMPHY_get_freefp :: "memphy_struct \<Rightarrow> (int \<times> int option \<times> memphy_struct) res" where
  "MEMPHY_get_freefp mp =
     (case free_fp_list mp of
        CWild \<Rightarrow> Inl WildDeref
      | CNull \<Rightarrow> Inr (-1, None, mp)
      | CNode fpn nxt \<Rightarrow> Inr (0, Some fpn, mp\<lparr>free_fp_list := nxt\<rparr>))"

definition MEMPHY_put_freefp :: "memphy_struct \<Rightarrow> int \<Rightarrow> int \<times> memphy_struct" where
  "MEMPHY_put_freefp mp fpn = (0, mp\<lparr>free_fp_list := CNode fpn (free_fp_list mp)\<rparr>)"

definition MEMPHY_put_usedfp :: "memphy_struct \<Rightarrow> int \<Rightarrow> int \<times> memphy_struct" where
  "MEMPHY_put_usedfp mp fpn = (0, mp\<lparr>used_fp_list := CNode fpn (used_fp_list mp)\<rparr>)"

text \<open>
  \<open>MEMPHY_dump\<close> writes the bytes of every used frame to a file. Its output is the list of
  the printed frames, each with the bytes printed for it.
\<close>

fun dump_frame :: "memphy_struct \<Rightarrow> int \<Rightarrow> nat \<Rightarrow> byte list res" where
  "dump_frame mp fpn 0 = Inr []"
| "dump_frame mp fpn (Suc n) =
     rbind (storage_get mp (fpn * PAGING_PAGESZ + (PAGING_PAGESZ - 1 - int n))) (\<lambda>b.
     rbind (dump_frame mp fpn n) (\<lambda>bs. Inr (b # bs)))"

primrec dump_list :: "memphy_struct \<Rightarrow> int clist \<Rightarrow> (int \<times> byte list) list res" where
  "dump_list mp CNull = Inr []"
| "dump_list mp CWild = Inl WildDeref"
| "dump_list mp (CNode fpn r) =
     rbind (dump_frame mp fpn (nat PAGING_PAGESZ)) (\<lambda>bs.
     rbind (dump_list mp r) (\<lambda>out. Inr ((fpn, bs) # out)))"

text \<open>
  The result of \<open>fopen\<close> is not checked: when the file cannot be opened, \<open>fclose\<close> is called with
  \<open>NULL\<close> at the latest. The callers are modelled for a file that can be opened.
\<close>

definition MEMPHY_dump_file :: "bool \<Rightarrow> memphy_struct \<Rightarrow> (int \<times> (int \<times> byte list) list) res" where
  "MEMPHY_dump_file opened mp =
     (if \<not> opened then Inl NullDeref
      else rbind (dump_list mp (used_fp_list mp)) (\<lambda>out. Inr (0, out)))"

definition MEMPHY_dump :: "memphy_struct \<Rightarrow> (int \<times> (int \<times> byte list) list) res" where
  "MEMPHY_dump mp = MEMPHY_dump_file True mp"

text \<open>
  \<open>init_memphy\<close>: \<open>mp0\<close> is the uninitialised struct, \<open>st\<close> the malloc'ed storage and \<open>junk\<close>
  the indeterminate link.
\<close>

definition init_memphy ::
  "(int \<Rightarrow> byte) \<Rightarrow> int clist \<Rightarrow> memphy_struct \<Rightarrow> int \<Rightarrow> int \<Rightarrow> (int \<times> memphy_struct) res" where
  "init_memphy st junk mp0 max_size randomflg =
     (let mp = mp0\<lparr>storage := st, maxsz := max_size, used_fp_list := CNull\<rparr>
      in rbind (MEMPHY_format junk mp PAGING_PAGESZ) (\<lambda>(_, mp).
         (let mp = mp\<lparr>rdmflg := randomflg \<noteq> 0\<rparr>
          in Inr (0, if \<not> rdmflg mp then mp\<lparr>cursor := 0\<rparr> else mp))))"

section \<open>The cursor\<close>

lemma mv_csr_loop_eq:
  assumes "0 \<le> n" "n \<le> mx"
  shows "mv_csr_loop n off mx (n mod mx) = (if off < mx then max n off else mx) mod mx"
  using assms
proof (induction n off mx "n mod mx" rule: mv_csr_loop.induct)
  case (1 n off mx)
  show ?case
  proof (cases "n < off \<and> n < mx")
    case True
    have e: "(n mod mx + 1) mod mx = (n + 1) mod mx"
      by (simp add: mod_add_left_eq)
    have "mv_csr_loop n off mx (n mod mx) = mv_csr_loop (n + 1) off mx ((n + 1) mod mx)"
      using True by (subst mv_csr_loop.simps) (simp add: e)
    also have "\<dots> = (if off < mx then max (n + 1) off else mx) mod mx"
      using 1 True e by simp
    finally show ?thesis using True by (simp add: max_def)
  next
    case False
    then have "mv_csr_loop n off mx (n mod mx) = n mod mx"
      by (subst mv_csr_loop.simps) (rule if_not_P)
    moreover have "(if off < mx then max n off else mx) = n"
      using False "1.prems" by (auto simp: max_def)
    ultimately show ?thesis by simp
  qed
qed

lemma MEMPHY_mv_csr_cursor:
  assumes "0 < maxsz mp" "0 \<le> offset"
  shows "cursor (snd (MEMPHY_mv_csr mp offset)) = (if offset < maxsz mp then offset else 0)"
  using mv_csr_loop_eq [of 0 "maxsz mp" offset] assms
  by (simp add: MEMPHY_mv_csr_def max_def)

section \<open>The device as a byte store\<close>

text \<open>
  A byte store: reading a cell after writing it gives the byte written, other cells keep
  theirs, and a write changes no cell's existence. The devices satisfy it, and so does the
  memory of a process as seen through its page table. A bounded store refuses every access
  outside its cells.
\<close>

locale byte_store =
  fixes rd :: "'m \<Rightarrow> int \<Rightarrow> byte res"
    and wr :: "'m \<Rightarrow> int \<Rightarrow> byte \<Rightarrow> 'm res"
    and cells :: "'m \<Rightarrow> int set"
    and inv :: "'m \<Rightarrow> bool"
  assumes read_defined: "inv m \<Longrightarrow> a \<in> cells m \<Longrightarrow> \<exists>v. rd m a = Inr v"
    and write_defined: "inv m \<Longrightarrow> a \<in> cells m \<Longrightarrow>
      \<exists>m'. wr m a v = Inr m' \<and> inv m' \<and> cells m' = cells m"
    and read_write: "inv m \<Longrightarrow> a \<in> cells m \<Longrightarrow> b \<in> cells m \<Longrightarrow> wr m a v = Inr m' \<Longrightarrow>
      rd m' b = (if b = a then Inr v else rd m b)"

locale bounded_store = byte_store +
  assumes read_outside: "inv m \<Longrightarrow> a \<notin> cells m \<Longrightarrow> rd m a = Inl OutOfBounds"
    and write_outside: "inv m \<Longrightarrow> a \<notin> cells m \<Longrightarrow> wr m a v = Inl OutOfBounds"

text \<open>Writing a block of bytes, cell by cell in ascending order.\<close>

fun write_block :: "('m \<Rightarrow> int \<Rightarrow> byte \<Rightarrow> 'm res) \<Rightarrow> 'm \<Rightarrow> int \<Rightarrow> byte list \<Rightarrow> 'm res" where
  "write_block wr m a [] = Inr m"
| "write_block wr m a (v # vs) = rbind (wr m a v) (\<lambda>m'. write_block wr m' (a + 1) vs)"

context byte_store
begin

lemma write_block_defined:
  "inv m \<Longrightarrow> {a ..< a + int (length vs)} \<subseteq> cells m \<Longrightarrow>
     \<exists>m'. write_block wr m a vs = Inr m' \<and> inv m' \<and> cells m' = cells m"
proof (induction vs arbitrary: m a)
  case (Cons v vs)
  have "a \<in> cells m" using Cons.prems(2) by auto
  then obtain m1 where m1: "wr m a v = Inr m1" "inv m1" "cells m1 = cells m"
    using write_defined [OF Cons.prems(1)] by blast
  have "{a + 1 ..< a + 1 + int (length vs)} \<subseteq> cells m1"
    using Cons.prems(2) m1(3) by auto
  from Cons.IH [OF m1(2) this] m1 show ?case by auto
qed simp

lemma read_write_block:
  "inv m \<Longrightarrow> {a ..< a + int (length vs)} \<subseteq> cells m \<Longrightarrow> b \<in> cells m \<Longrightarrow> write_block wr m a vs = Inr m' \<Longrightarrow>
     rd m' b = (if a \<le> b \<and> b < a + int (length vs) then Inr (vs ! nat (b - a)) else rd m b)"
proof (induction vs arbitrary: m a)
  case (Cons v vs)
  then obtain m1 where m1: "wr m a v = Inr m1" "write_block wr m1 (a + 1) vs = Inr m'"
    by (auto simp: rbind_eq_Inr)
  have a: "a \<in> cells m" using Cons.prems(2) by auto
  then have inv1: "inv m1" "cells m1 = cells m"
    using write_defined [OF Cons.prems(1) a, of v] m1(1) by auto
  have sub: "{a + 1 ..< a + 1 + int (length vs)} \<subseteq> cells m1" using Cons.prems(2) inv1(2) by auto
  have b: "nat (b - a) = Suc (nat (b - (a + 1)))" if "a < b" using that by simp
  show ?case
    using Cons.IH [OF inv1(1) sub _ m1(2)] Cons.prems(3) inv1(2)
      read_write [OF Cons.prems(1) a Cons.prems(3) m1(1)] b
    by (auto simp: nth_Cons')
qed auto

end

context bounded_store
begin

lemma read_write_block_all:
  assumes "inv m" "{a ..< a + int (length vs)} \<subseteq> cells m" "write_block wr m a vs = Inr m'"
  shows "rd m' b = (if a \<le> b \<and> b < a + int (length vs) then Inr (vs ! nat (b - a)) else rd m b)"
proof (cases "b \<in> cells m")
  case True
  then show ?thesis using read_write_block assms by simp
next
  case False
  then show ?thesis
    using write_block_defined [OF assms(1,2)] assms read_outside [of m b] read_outside [of m' b] by auto
qed

end

definition mp_read :: "memphy_struct \<Rightarrow> int \<Rightarrow> byte res" where
  "mp_read mp a =
     rbind (MEMPHY_read (Some mp) a) (\<lambda>(_, v, _). case v of None \<Rightarrow> Inl UninitRead | Some v \<Rightarrow> Inr v)"

definition mp_write :: "memphy_struct \<Rightarrow> int \<Rightarrow> byte \<Rightarrow> memphy_struct res" where
  "mp_write mp a v =
     rbind (MEMPHY_write (Some mp) a v) (\<lambda>(_, mp'). case mp' of None \<Rightarrow> Inl NullDeref | Some m \<Rightarrow> Inr m)"

lemma mp_read_rdm: "rdmflg mp \<Longrightarrow> mp_read mp a = storage_get mp a"
  by (auto simp: mp_read_def MEMPHY_read_def storage_get_def)

lemma mp_write_rdm: "rdmflg mp \<Longrightarrow> mp_write mp a v = storage_set mp a v"
  by (auto simp: mp_write_def MEMPHY_write_def storage_set_def)

interpretation mem: bounded_store mp_read mp_write "\<lambda>mp. {0 ..< maxsz mp}" rdmflg
  by unfold_locales
    (auto simp: mp_read_rdm mp_write_rdm storage_get_def storage_set_def split: if_splits)

section \<open>Sequential devices\<close>

text \<open>
  A device that is not random-access is handed to the sequential routines, which refuse
  exactly such devices.
\<close>

lemma sequential_read_refused: "\<not> rdmflg mp \<Longrightarrow> MEMPHY_read (Some mp) a = Inr (-1, None, Some mp)"
  by (simp add: MEMPHY_read_def MEMPHY_seq_read_def)

lemma sequential_write_refused: "\<not> rdmflg mp \<Longrightarrow> MEMPHY_write (Some mp) a v = Inr (-1, Some mp)"
  by (simp add: MEMPHY_write_def MEMPHY_seq_write_def)

section \<open>The device as a pool of frames\<close>

text \<open>
  The frame lists of a device in use: both lists are terminated, no frame occurs twice, and
  every frame lies inside the storage.
\<close>

definition frame_in :: "memphy_struct \<Rightarrow> int \<Rightarrow> bool" where
  "frame_in mp f \<longleftrightarrow> 0 \<le> f \<and> (f + 1) * PAGING_PAGESZ \<le> maxsz mp"

definition frames_ok :: "memphy_struct \<Rightarrow> bool" where
  "frames_ok mp \<longleftrightarrow>
     proper (free_fp_list mp) \<and> proper (used_fp_list mp) \<and>
     distinct (celems (free_fp_list mp) @ celems (used_fp_list mp)) \<and>
     list_all (frame_in mp) (celems (free_fp_list mp) @ celems (used_fp_list mp))"

definition take_frame :: "memphy_struct \<Rightarrow> (int option \<times> memphy_struct) res" where
  "take_frame mp =
     rbind (MEMPHY_get_freefp mp) (\<lambda>(r, f, mp').
       case f of None \<Rightarrow> Inr (None, mp') | Some f \<Rightarrow> Inr (Some f, snd (MEMPHY_put_usedfp mp' f)))"

locale frame_pool =
  fixes tk :: "'m \<Rightarrow> (int option \<times> 'm) res"
    and free :: "'m \<Rightarrow> int list"
    and used :: "'m \<Rightarrow> int list"
    and inv :: "'m \<Rightarrow> bool"
  assumes tk_Nil: "inv m \<Longrightarrow> free m = [] \<Longrightarrow> tk m = Inr (None, m)"
    and tk_Cons: "inv m \<Longrightarrow> free m = f # fs \<Longrightarrow>
      \<exists>m'. tk m = Inr (Some f, m') \<and> inv m' \<and> free m' = fs \<and> used m' = f # used m"
    and inv_distinct: "inv m \<Longrightarrow> distinct (free m @ used m)"

primrec take_frames :: "('m \<Rightarrow> (int option \<times> 'm) res) \<Rightarrow> nat \<Rightarrow> 'm \<Rightarrow> (int option list \<times> 'm) res" where
  "take_frames tk 0 m = Inr ([], m)"
| "take_frames tk (Suc n) m =
     rbind (tk m) (\<lambda>(f, m1). rbind (take_frames tk n m1) (\<lambda>(fs, m2). Inr (f # fs, m2)))"

context frame_pool
begin

lemma tk_total: "inv m \<Longrightarrow> \<exists>f m'. tk m = Inr (f, m') \<and> inv m'"
  by (cases "free m") (auto dest: tk_Nil tk_Cons)

lemma take_frames_fresh:
  "inv m \<Longrightarrow> free m = fs @ gs \<Longrightarrow>
     \<exists>m'. take_frames tk (length fs) m = Inr (map Some fs, m') \<and> inv m' \<and>
       free m' = gs \<and> used m' = rev fs @ used m"
proof (induction fs arbitrary: m)
  case (Cons f fs)
  then obtain m1 where "tk m = Inr (Some f, m1)" "inv m1" "free m1 = fs @ gs" "used m1 = f # used m"
    using tk_Cons [of m f "fs @ gs"] by auto
  with Cons.IH [of m1] show ?case by auto
qed simp

lemma never_taken_twice:
  assumes "inv m" "tk m = Inr (Some f, m')"
  shows "f \<notin> set (used m)" "f \<notin> set (free m')" "f \<in> set (used m')"
proof -
  obtain g fs where fr: "free m = g # fs"
    using assms tk_Nil [of m] by (cases "free m") auto
  then obtain m1 where "tk m = Inr (Some g, m1)" "free m1 = fs" "used m1 = g # used m"
    using tk_Cons [OF assms(1) fr] by blast
  then show "f \<notin> set (used m)" "f \<notin> set (free m')" "f \<in> set (used m')"
    using assms inv_distinct [OF assms(1)] fr by auto
qed

end

lemma get_freefp_Nil:
  "frames_ok mp \<Longrightarrow> celems (free_fp_list mp) = [] \<Longrightarrow> MEMPHY_get_freefp mp = Inr (-1, None, mp)"
  by (cases "free_fp_list mp") (auto simp: frames_ok_def MEMPHY_get_freefp_def)

lemma get_freefp_Cons:
  assumes "celems (free_fp_list mp) = f # fs"
  shows "\<exists>r. free_fp_list mp = CNode f r \<and> celems r = fs \<and>
    MEMPHY_get_freefp mp = Inr (0, Some f, mp\<lparr>free_fp_list := r\<rparr>)"
  using assms by (cases "free_fp_list mp") (auto simp: MEMPHY_get_freefp_def)

lemma frame_in_upd [simp]:
  "frame_in (mp\<lparr>free_fp_list := l\<rparr>) = frame_in mp"
  "frame_in (mp\<lparr>used_fp_list := l\<rparr>) = frame_in mp"
  "frame_in (mp\<lparr>storage := st\<rparr>) = frame_in mp"
  by (auto simp: frame_in_def)

interpretation fr: frame_pool take_frame "\<lambda>mp. celems (free_fp_list mp)"
  "\<lambda>mp. celems (used_fp_list mp)" frames_ok
proof unfold_locales
  fix mp assume "frames_ok mp" "celems (free_fp_list mp) = []"
  then show "take_frame mp = Inr (None, mp)"
    by (simp add: take_frame_def get_freefp_Nil)
next
  fix mp f fs assume ok: "frames_ok mp" and fr: "celems (free_fp_list mp) = f # fs"
  then obtain r where "free_fp_list mp = CNode f r" "celems r = fs"
      "MEMPHY_get_freefp mp = Inr (0, Some f, mp\<lparr>free_fp_list := r\<rparr>)"
    using get_freefp_Cons by blast
  then show "\<exists>m'. take_frame mp = Inr (Some f, m') \<and> frames_ok m' \<and>
      celems (free_fp_list m') = fs \<and> celems (used_fp_list m') = f # celems (used_fp_list mp)"
    using ok by (auto simp: take_frame_def MEMPHY_put_usedfp_def frames_ok_def)
qed (auto simp: frames_ok_def)

section \<open>Formatting\<close>

lemma format_nodes_upto: "format_nodes i n = clist_of [i..n - 1]"
proof (induction i n rule: format_nodes.induct)
  case (1 i n)
  show ?case
  proof (cases "i < n")
    case True
    with 1 show ?thesis
      by (subst format_nodes.simps) (simp add: upto_rec1)
  qed (subst format_nodes.simps, simp)
qed

lemma init_memphy_frames:
  assumes "2 * PAGING_PAGESZ \<le> max_size"
  shows "\<exists>mp. init_memphy st junk mp0 max_size flg = Inr (0, mp) \<and> frames_ok mp \<and>
    celems (free_fp_list mp) = [0..max_size div PAGING_PAGESZ - 1] \<and> used_fp_list mp = CNull \<and>
    maxsz mp = max_size \<and> storage mp = st \<and> rdmflg mp = (flg \<noteq> 0)"
proof -
  let ?n = "max_size div 256"
  have n: "1 < ?n" using assms by (simp add: PAGING_PAGESZ_def)
  have l: "CNode 0 (format_nodes 1 ?n) = clist_of [0..?n - 1]"
    using n by (subst upto_rec1) (simp_all add: format_nodes_upto)
  have m: "?n * 256 \<le> max_size" by simp
  have "(f + 1) * 256 \<le> max_size" if "f \<in> {0..?n - 1}" for f
    using that m by auto
  then show ?thesis
    using n assms l
    by (auto simp: init_memphy_def MEMPHY_format_def PAGING_PAGESZ_def c_div_nonneg Let_def
        frames_ok_def list_all_iff frame_in_def simp del: clist_of.simps)
qed

section \<open>Dumping\<close>

definition frame_dump :: "memphy_struct \<Rightarrow> int \<Rightarrow> byte list" where
  "frame_dump mp f = map (\<lambda>k. storage mp (f * PAGING_PAGESZ + int k)) [0..<nat PAGING_PAGESZ]"

lemma dump_frame_eq:
  assumes f: "frame_in mp f"
  shows "n \<le> 256 \<Longrightarrow> dump_frame mp f n = Inr (map (\<lambda>k. storage mp (f * PAGING_PAGESZ + int k)) [256 - n..<256])"
proof (induction n)
  case (Suc n)
  have "0 \<le> f * 256 + (255 - int n)" "f * 256 + (255 - int n) < maxsz mp"
    using f Suc.prems by (auto simp: frame_in_def PAGING_PAGESZ_def)
  moreover have "[256 - Suc n..<256] = (256 - Suc n) # [256 - n..<256]"
    using Suc.prems upt_conv_Cons [of "256 - Suc n" 256] Suc_diff_le [of n 255] by simp
  ultimately show ?case
    using Suc by (simp add: storage_get_def PAGING_PAGESZ_def of_nat_diff)
qed simp

lemma dump_list_eq:
  "proper l \<Longrightarrow> list_all (frame_in mp) (celems l) \<Longrightarrow>
     dump_list mp l = Inr (map (\<lambda>f. (f, frame_dump mp f)) (celems l))"
  by (induction l) (auto simp: dump_frame_eq frame_dump_def PAGING_PAGESZ_def)

lemma MEMPHY_dump_ok:
  assumes "frames_ok mp"
  shows "MEMPHY_dump mp = Inr (0, map (\<lambda>f. (f, frame_dump mp f)) (celems (used_fp_list mp)))"
  using assms by (simp add: MEMPHY_dump_def MEMPHY_dump_file_def frames_ok_def dump_list_eq)

section \<open>Properties\<close>

text \<open>
  C31: a device of at least two pages starts with the frames 0, 1, ... of its storage free;
  taking frames one after the other yields each of them once, in order, and every frame
  taken lies inside the storage.
\<close>

theorem frames_handed_out_once:
  assumes "2 * PAGING_PAGESZ \<le> max_size" "int n \<le> max_size div PAGING_PAGESZ"
  shows "\<exists>mp mp'. init_memphy st junk mp0 max_size flg = Inr (0, mp) \<and>
    take_frames take_frame n mp = Inr (map Some [0..int n - 1], mp') \<and> frames_ok mp' \<and>
    celems (free_fp_list mp') = [int n..max_size div PAGING_PAGESZ - 1] \<and>
    list_all (frame_in mp') [0..int n - 1]"
proof -
  let ?N = "max_size div PAGING_PAGESZ"
  obtain mp where mp: "init_memphy st junk mp0 max_size flg = Inr (0, mp)" "frames_ok mp"
      "celems (free_fp_list mp) = [0..?N - 1]" "used_fp_list mp = CNull"
    using init_memphy_frames [OF assms(1)] by blast
  have "[0..?N - 1] = [0..int n - 1] @ [int n..?N - 1]"
    using assms(2) upto_split1 [of 0 "int n" "?N - 1"] by (cases "int n = ?N") simp_all
  then obtain mp' where mp': "take_frames take_frame n mp = Inr (map Some [0..int n - 1], mp')" "frames_ok mp'"
      "celems (free_fp_list mp') = [int n..?N - 1]" "celems (used_fp_list mp') = rev [0..int n - 1]"
    using fr.take_frames_fresh [OF mp(2), of "[0..int n - 1]" "[int n..?N - 1]"] mp(3,4) by auto
  then have "list_all (frame_in mp') [0..int n - 1]" by (simp add: frames_ok_def)
  then show ?thesis using mp(1) mp' by blast
qed

theorem frames_handed_out_once_witness:
  "\<exists>mp mp'. init_memphy (\<lambda>_. 0) CWild
      \<lparr>storage = \<lambda>_. 0, maxsz = 0, rdmflg = False, cursor = 0, free_fp_list = CWild, used_fp_list = CWild\<rparr> 1024 1 = Inr (0, mp) \<and>
    take_frames take_frame 3 mp = Inr (map Some [0..2], mp') \<and> frames_ok mp'"
  using frames_handed_out_once [of 1024 3 "\<lambda>_. 0" CWild
      "\<lparr>storage = \<lambda>_. 0, maxsz = 0, rdmflg = False, cursor = 0, free_fp_list = CWild, used_fp_list = CWild\<rparr>" 1]
  by (auto simp: PAGING_PAGESZ_def)

text \<open>
  A device that is not random-access is never accessed: reads and writes return -1 and
  leave it as it is, because the sequential routines refuse exactly the sequential devices.
\<close>

lemma sequential_device_refused:
  assumes "\<not> rdmflg mp"
  shows "MEMPHY_read (Some mp) a = Inr (-1, None, Some mp) \<and> MEMPHY_write (Some mp) a v = Inr (-1, Some mp)"
  using assms sequential_read_refused sequential_write_refused by blast

end
