(* ===== verification/OS_Regions.thy ===== *)
theory OS_Regions
  imports OS_Types
begin

text \<open>
  The free region list of a memory area: \<open>init_vm_rg\<close> and \<open>enlist_vm_rg_node\<close> of
  \<open>src/mm.c\<close>, and \<open>enlist_vm_freerg_list\<close>, \<open>delete_vm_rg_node\<close> and \<open>get_free_vmrg_area\<close>
  of \<open>src/mm-vm.c\<close>, on an explicit store of region nodes. Reading, writing or freeing a node
  that is not live is undefined behaviour. Here the functions take the head pointer; the
  functions of theory OS_VM take it from the memory area.

  A loop over a list takes fuel \<open>rg_brk\<close>, the number of nodes ever allocated: an acyclic
  list has no more nodes than that, so running out of it means that the list is cyclic and
  the loop of the code does not end.
\<close>

section \<open>Operations on region nodes\<close>

definition rg_deref :: "rg_heap \<Rightarrow> rg_ptr \<Rightarrow> vm_rg_struct res" where
  "rg_deref h p =
     (case p of None \<Rightarrow> Inl NullDeref
      | Some a \<Rightarrow> (case rg_cells h a of None \<Rightarrow> Inl WildDeref | Some n \<Rightarrow> Inr n))"

definition rg_store :: "rg_heap \<Rightarrow> rg_ptr \<Rightarrow> vm_rg_struct \<Rightarrow> rg_heap res" where
  "rg_store h p n =
     (case p of None \<Rightarrow> Inl NullDeref
      | Some a \<Rightarrow> (case rg_cells h a of None \<Rightarrow> Inl WildDeref
                 | Some _ \<Rightarrow> Inr (h\<lparr>rg_cells := (rg_cells h)(a \<mapsto> n)\<rparr>)))"

definition rg_malloc :: "rg_heap \<Rightarrow> rg_ptr \<times> rg_heap" where
  "rg_malloc h =
     (Some (rg_brk h),
      h\<lparr>rg_brk := rg_brk h + 1, rg_cells := (rg_cells h)(rg_brk h \<mapsto> rg_fresh h)\<rparr>)"

definition rg_free :: "rg_heap \<Rightarrow> rg_ptr \<Rightarrow> rg_heap res" where
  "rg_free h p =
     (case p of None \<Rightarrow> Inr h
      | Some a \<Rightarrow> (case rg_cells h a of None \<Rightarrow> Inl WildDeref
                 | Some _ \<Rightarrow> Inr (h\<lparr>rg_cells := (rg_cells h)(a := None)\<rparr>)))"

definition init_vm_rg :: "rg_heap \<Rightarrow> int \<Rightarrow> int \<Rightarrow> (rg_ptr \<times> rg_heap) res" where
  "init_vm_rg h st en =
     (let (p, h) = rg_malloc h
      in rbind (rg_store h p \<lparr>rg_start = u64 (s32 st), rg_end = u64 (s32 en), rg_next = None\<rparr>) (\<lambda>h.
         Inr (p, h)))"

definition enlist_vm_rg_node :: "rg_heap \<Rightarrow> rg_ptr \<Rightarrow> rg_ptr \<Rightarrow> (int \<times> rg_ptr \<times> rg_heap) res" where
  "enlist_vm_rg_node h rglist rgnode =
     rbind (rg_deref h rgnode) (\<lambda>n.
     rbind (rg_store h rgnode (n\<lparr>rg_next := rglist\<rparr>)) (\<lambda>h.
     Inr (0, rgnode, h)))"

definition delete_vm_rg_node :: "rg_heap \<Rightarrow> rg_ptr \<Rightarrow> (int \<times> rg_heap) res" where
  "delete_vm_rg_node h target =
     rbind (rg_deref h target) (\<lambda>t.
       case rg_next t of
         None \<Rightarrow>
           rbind (rg_store h target (t\<lparr>rg_start := rg_end t, rg_next := None\<rparr>)) (\<lambda>h. Inr (1, h))
       | Some b \<Rightarrow>
           rbind (rg_deref h (Some b)) (\<lambda>nx.
           rbind (rg_store h target
                    (t\<lparr>rg_start := rg_start nx, rg_end := rg_end nx, rg_next := rg_next nx\<rparr>)) (\<lambda>h.
           rbind (rg_free h (Some b)) (\<lambda>h.
           Inr (1, h)))))"

text \<open>
  The loop of \<open>enlist_vm_freerg_list\<close>. \<open>dec\<close> is \<open>node_need_dec_base\<close> with
  \<open>flag_merge_up\<close>, \<open>inc\<close> is \<open>node_need_inc_limit\<close> with \<open>flag_merge_down\<close>; \<open>None\<close> while the
  flag is 0.
\<close>

fun enlist_walk ::
  "nat \<Rightarrow> rg_heap \<Rightarrow> int \<Rightarrow> int \<Rightarrow> rg_ptr \<Rightarrow> nat option \<Rightarrow> nat option \<Rightarrow> (nat option \<times> nat option) res" where
  "enlist_walk fuel h st en None dec inc = Inr (dec, inc)"
| "enlist_walk 0 h st en (Some a) dec inc = Inl Diverges"
| "enlist_walk (Suc fuel) h st en (Some a) dec inc =
     rbind (rg_deref h (Some a)) (\<lambda>n.
       if rg_start n = 0 \<and> rg_end n = 0 then Inr (dec, inc)
       else enlist_walk fuel h st en (rg_next n)
              (if en = rg_start n then Some a else dec)
              (if st = rg_end n then Some a else inc))"

text \<open>The tail of the function: link the new node in front of the old head.\<close>

definition enlist_new :: "rg_heap \<Rightarrow> rg_ptr \<Rightarrow> rg_ptr \<Rightarrow> (int \<times> rg_ptr \<times> rg_heap) res" where
  "enlist_new h hd_ptr new =
     rbind (rg_deref h new) (\<lambda>n.
     rbind (rg_store h new (if hd_ptr \<noteq> None then n\<lparr>rg_next := hd_ptr\<rparr> else n)) (\<lambda>h.
     Inr (0, new, h)))"

definition enlist_freerg :: "rg_heap \<Rightarrow> rg_ptr \<Rightarrow> int \<Rightarrow> int \<Rightarrow> (int \<times> rg_ptr \<times> rg_heap) res" where
  "enlist_freerg h hd_ptr st en =
     (if st \<ge> en then Inr (-1, hd_ptr, h)
      else
        rbind (enlist_walk (rg_brk h) h st en hd_ptr None None) (\<lambda>m.
          case m of
            (Some d, None) \<Rightarrow>
              rbind (rg_deref h (Some d)) (\<lambda>n.
              rbind (rg_store h (Some d) (n\<lparr>rg_start := st\<rparr>)) (\<lambda>h. Inr (1, hd_ptr, h)))
          | (None, Some i) \<Rightarrow>
              rbind (rg_deref h (Some i)) (\<lambda>n.
              rbind (rg_store h (Some i) (n\<lparr>rg_end := en\<rparr>)) (\<lambda>h. Inr (1, hd_ptr, h)))
          | (Some d, Some i) \<Rightarrow>
              (let (new, h) = rg_malloc h
               in rbind (rg_deref h (Some d)) (\<lambda>nd.
                  rbind (rg_deref h (Some i)) (\<lambda>ni.
                  rbind (rg_deref h new) (\<lambda>n.
                  rbind (rg_store h new (n\<lparr>rg_end := rg_end nd, rg_start := rg_start ni\<rparr>)) (\<lambda>h.
                  rbind (delete_vm_rg_node h (Some d)) (\<lambda>(_, h).
                  rbind (delete_vm_rg_node h (Some i)) (\<lambda>(_, h).
                  enlist_new h hd_ptr new)))))))
          | (None, None) \<Rightarrow>
              (let (new, h) = rg_malloc h
               in rbind (rg_deref h new) (\<lambda>n.
                  rbind (rg_store h new (n\<lparr>rg_start := st, rg_end := en\<rparr>)) (\<lambda>h.
                  enlist_new h hd_ptr new)))))"

text \<open>
  The loop of \<open>get_free_vmrg_area\<close>: the region found and the store, \<open>None\<close> when the end of
  the list is reached. The additions are on \<open>unsigned long\<close>.
\<close>

fun get_free_loop :: "nat \<Rightarrow> rg_heap \<Rightarrow> rg_ptr \<Rightarrow> int \<Rightarrow> ((int \<times> int) option \<times> rg_heap) res" where
  "get_free_loop fuel h None sz = Inr (None, h)"
| "get_free_loop 0 h (Some a) sz = Inl Diverges"
| "get_free_loop (Suc fuel) h (Some a) sz =
     rbind (rg_deref h (Some a)) (\<lambda>n.
       if u64 (rg_start n + sz) \<le> rg_end n then
         (let newrg = (rg_start n, u64 (rg_start n + sz))
          in if u64 (rg_start n + sz) < rg_end n then
               rbind (rg_store h (Some a) (n\<lparr>rg_start := u64 (rg_start n + sz)\<rparr>)) (\<lambda>h.
               Inr (Some newrg, h))
             else
               (case rg_next n of
                  Some b \<Rightarrow>
                    rbind (rg_deref h (Some b)) (\<lambda>nx.
                    rbind (rg_store h (Some a)
                      (n\<lparr>rg_start := rg_start nx, rg_end := rg_end nx, rg_next := rg_next nx\<rparr>)) (\<lambda>h.
                    rbind (rg_free h (Some b)) (\<lambda>h.
                    Inr (Some newrg, h))))
                | None \<Rightarrow>
                    rbind (rg_store h (Some a) (n\<lparr>rg_start := rg_end n, rg_next := None\<rparr>)) (\<lambda>h.
                    Inr (Some newrg, h))))
       else get_free_loop fuel h (rg_next n) sz)"

definition get_free_rg ::
  "rg_heap \<Rightarrow> rg_ptr \<Rightarrow> int \<Rightarrow> (int \<times> (int \<times> int) option \<times> rg_heap) res" where
  "get_free_rg h hd_ptr sz =
     (if hd_ptr = None then Inr (-1, None, h)
      else
        rbind (get_free_loop (rg_brk h) h hd_ptr sz) (\<lambda>(found, h).
          (let newrg = (case found of None \<Rightarrow> (u64 (-1), u64 (-1)) | Some r \<Rightarrow> r)
           in Inr (if fst newrg = u64 (-1) then -1 else 0, Some newrg, h))))"

section \<open>Lists in the store\<close>

primrec rg_path :: "(nat \<rightharpoonup> vm_rg_struct) \<Rightarrow> rg_ptr \<Rightarrow> nat list \<Rightarrow> rg_ptr \<Rightarrow> bool" where
  "rg_path c p [] q \<longleftrightarrow> p = q"
| "rg_path c p (a # as) q \<longleftrightarrow> p = Some a \<and> (\<exists>n. c a = Some n \<and> rg_path c (rg_next n) as q)"

definition rg_val :: "(nat \<rightharpoonup> vm_rg_struct) \<Rightarrow> nat \<Rightarrow> int \<times> int" where
  "rg_val c a = (rg_start (the (c a)), rg_end (the (c a)))"

text \<open>\<open>freelist h p as xs\<close>: the nodes \<open>as\<close> form a list from \<open>p\<close> and hold the regions \<open>xs\<close>.\<close>

definition freelist :: "rg_heap \<Rightarrow> rg_ptr \<Rightarrow> nat list \<Rightarrow> (int \<times> int) list \<Rightarrow> bool" where
  "freelist h p as xs \<longleftrightarrow>
     rg_path (rg_cells h) p as None \<and> distinct as \<and> xs = map (rg_val (rg_cells h)) as \<and>
     (\<forall>a. rg_brk h \<le> a \<longrightarrow> rg_cells h a = None)"

lemma rg_path_append: "rg_path c p (as @ bs) q \<longleftrightarrow> (\<exists>r. rg_path c p as r \<and> rg_path c r bs q)"
  by (induction as arbitrary: p) auto

lemma rg_path_upd: "a \<notin> set as \<Longrightarrow> rg_path (c(a := v)) p as q = rg_path c p as q"
  by (induction as arbitrary: p) auto

lemma rg_path_live: "rg_path c p as q \<Longrightarrow> a \<in> set as \<Longrightarrow> \<exists>n. c a = Some n"
  by (induction as arbitrary: p) auto

lemma map_rg_val_upd: "a \<notin> set as \<Longrightarrow> map (rg_val (c(a := v))) as = map (rg_val c) as"
  by (auto simp: rg_val_def)

lemma rg_val_upd_same [simp]: "rg_val (c(a \<mapsto> n)) a = (rg_start n, rg_end n)"
  by (simp add: rg_val_def)

lemma freelist_fuel:
  assumes "freelist h p as xs"
  shows "length as \<le> rg_brk h"
proof -
  have "set as \<subseteq> {..<rg_brk h}"
    using assms rg_path_live unfolding freelist_def by (force simp: not_less [symmetric])
  then have "card (set as) \<le> rg_brk h" using card_mono [of "{..<rg_brk h}"] by simp
  then show ?thesis using assms by (simp add: freelist_def distinct_card)
qed

lemmas rg_op_defs = rg_deref_def rg_store_def rg_malloc_def rg_free_def

section \<open>First fit\<close>

text \<open>
  The specification of the search on the list of regions: cut the request off the front of
  the first region that can hold it. A region that is used up is removed; the last one is
  kept as an empty region.
\<close>

fun first_fit :: "int \<Rightarrow> (int \<times> int) list \<Rightarrow> ((int \<times> int) \<times> (int \<times> int) list) option" where
  "first_fit sz [] = None"
| "first_fit sz ((s, e) # xs) =
     (if u64 (s + sz) \<le> e then
        Some ((s, u64 (s + sz)),
          if u64 (s + sz) < e then (u64 (s + sz), e) # xs
          else if xs = [] then [(e, e)] else xs)
      else map_option (\<lambda>(r, ys). (r, (s, e) # ys)) (first_fit sz xs))"

lemma get_free_loop_None:
  "rg_path (rg_cells h) p as None \<Longrightarrow> length as \<le> fuel \<Longrightarrow>
     first_fit sz (map (rg_val (rg_cells h)) as) = None \<Longrightarrow> get_free_loop fuel h p sz = Inr (None, h)"
proof (induction as arbitrary: p fuel)
  case (Cons a as)
  then obtain n f where "rg_cells h a = Some n" "p = Some a" "fuel = Suc f"
    by (cases fuel) auto
  with Cons show ?case
    by (auto simp: rg_deref_def rg_val_def split: if_splits)
qed simp

text \<open>The node at the front can hold the request.\<close>

lemma get_free_loop_hit:
  assumes n: "rg_cells h a = Some n" "rg_path (rg_cells h) (rg_next n) as None" and dist: "distinct (a # as)"
    and fits: "u64 (rg_start n + sz) \<le> rg_end n"
    and spec: "first_fit sz (map (rg_val (rg_cells h)) (a # as)) = Some (r, ys)"
  shows "\<exists>as' c'. get_free_loop (Suc f) h (Some a) sz = Inr (Some r, h\<lparr>rg_cells := c'\<rparr>) \<and>
    rg_path c' (Some a) as' None \<and> distinct as' \<and> set as' \<subseteq> set (a # as) \<and>
    map (rg_val c') as' = ys \<and> (\<forall>b. b \<notin> set (a # as) \<longrightarrow> c' b = rg_cells h b)"
proof (cases "u64 (rg_start n + sz) < rg_end n")
  case True
  let ?c' = "(rg_cells h)(a \<mapsto> n\<lparr>rg_start := u64 (rg_start n + sz)\<rparr>)"
  have "rg_path ?c' (Some a) (a # as) None" "map (rg_val ?c') as = map (rg_val (rg_cells h)) as"
    using n dist by (auto simp: rg_path_upd map_rg_val_upd)
  then show ?thesis
    using True fits n dist spec
    by (intro exI [of _ "a # as"] exI [of _ ?c']) (auto simp: rg_op_defs rg_val_def fun_upd_def)
next
  case False
  show ?thesis
  proof (cases as)
    case Nil
    let ?c' = "(rg_cells h)(a \<mapsto> n\<lparr>rg_start := rg_end n, rg_next := None\<rparr>)"
    show ?thesis
      using Nil False fits n spec
      by (intro exI [of _ "[a]"] exI [of _ ?c']) (auto simp: rg_op_defs rg_val_def fun_upd_def)
  next
    case as: (Cons b bs)
    obtain nx where nx: "rg_cells h b = Some nx" "rg_next n = Some b" "rg_path (rg_cells h) (rg_next nx) bs None"
      using n as by auto
    let ?n' = "n\<lparr>rg_start := rg_start nx, rg_end := rg_end nx, rg_next := rg_next nx\<rparr>"
    let ?c' = "(rg_cells h)(a \<mapsto> ?n', b := None)"
    have "rg_path ?c' (Some a) (a # bs) None" "map (rg_val ?c') bs = map (rg_val (rg_cells h)) bs"
      using n nx as dist by (auto simp: rg_path_upd map_rg_val_upd)
    then show ?thesis
      using as False fits n nx dist spec
      by (intro exI [of _ "a # bs"] exI [of _ ?c']) (auto simp: rg_op_defs rg_val_def fun_upd_def)
  qed
qed

lemma get_free_loop_Some:
  "rg_path (rg_cells h) p as None \<Longrightarrow> distinct as \<Longrightarrow> length as \<le> fuel \<Longrightarrow>
     first_fit sz (map (rg_val (rg_cells h)) as) = Some (r, ys) \<Longrightarrow>
     \<exists>as' c'. get_free_loop fuel h p sz = Inr (Some r, h\<lparr>rg_cells := c'\<rparr>) \<and>
       rg_path c' p as' None \<and> distinct as' \<and> set as' \<subseteq> set as \<and>
       map (rg_val c') as' = ys \<and> (\<forall>b. b \<notin> set as \<longrightarrow> c' b = rg_cells h b)"
proof (induction as arbitrary: p fuel ys)
  case (Cons a as)
  let ?c = "rg_cells h"
  obtain n f where n: "?c a = Some n" "p = Some a" "fuel = Suc f" "rg_path ?c (rg_next n) as None"
    using Cons.prems by (cases fuel) auto
  show ?case
  proof (cases "u64 (rg_start n + sz) \<le> rg_end n")
    case True
    then show ?thesis using get_free_loop_hit [OF n(1,4) Cons.prems(2) True Cons.prems(4)] n(2,3) by simp
  next
    case False
    have v: "rg_val ?c a = (rg_start n, rg_end n)" using n by (simp add: rg_val_def)
    with False obtain zs where zs: "first_fit sz (map (rg_val ?c) as) = Some (r, zs)"
        "ys = (rg_start n, rg_end n) # zs"
      using Cons.prems n by auto
    obtain as' c' where IH: "get_free_loop f h (rg_next n) sz = Inr (Some r, h\<lparr>rg_cells := c'\<rparr>)"
        "rg_path c' (rg_next n) as' None" "distinct as'" "set as' \<subseteq> set as"
        "map (rg_val c') as' = zs" "\<forall>b. b \<notin> set as \<longrightarrow> c' b = ?c b"
      using Cons.IH [of "rg_next n" f zs] Cons.prems n zs by auto
    then have "c' a = Some n" using n Cons.prems by simp
    then show ?thesis
      using IH False n zs Cons.prems
      by (intro exI [of _ "a # as'"] exI [of _ c']) (auto simp: rg_deref_def rg_val_def)
  qed
qed simp

lemma get_free_rg_refines:
  assumes fl: "freelist h p as xs" and ne: "xs \<noteq> []"
  shows "case first_fit sz xs of
      None \<Rightarrow> get_free_rg h p sz = Inr (-1, Some (u64 (-1), u64 (-1)), h)
    | Some (r, ys) \<Rightarrow> \<exists>h' as'. get_free_rg h p sz = Inr (if fst r = u64 (-1) then -1 else 0, Some r, h') \<and>
        freelist h' p as' ys"
proof -
  note fuel = freelist_fuel [OF fl]
  have p: "p \<noteq> None" "xs = map (rg_val (rg_cells h)) as" "rg_path (rg_cells h) p as None" "distinct as"
    and brk: "\<forall>a. rg_brk h \<le> a \<longrightarrow> rg_cells h a = None"
    using fl ne by (cases as; auto simp: freelist_def)+
  show ?thesis
  proof (cases "first_fit sz xs")
    case None
    then have "get_free_loop (rg_brk h) h p sz = Inr (None, h)"
      using get_free_loop_None p fuel by blast
    then show ?thesis using None p by (simp add: get_free_rg_def)
  next
    case (Some ry)
    obtain r ys where ry: "ry = (r, ys)" by (cases ry)
    obtain as' c' where l: "get_free_loop (rg_brk h) h p sz = Inr (Some r, h\<lparr>rg_cells := c'\<rparr>)"
        "rg_path c' p as' None" "distinct as'" "set as' \<subseteq> set as" "map (rg_val c') as' = ys"
        "\<forall>b. b \<notin> set as \<longrightarrow> c' b = rg_cells h b"
      using get_free_loop_Some [OF p(3,4) fuel] Some p(2) ry by blast
    have "\<forall>a. rg_brk h \<le> a \<longrightarrow> c' a = None"
      using l(6) brk rg_path_live [OF p(3)] by (metis option.distinct(1))
    then have "freelist (h\<lparr>rg_cells := c'\<rparr>) p as' ys"
      using l by (auto simp: freelist_def)
    then show ?thesis using Some ry p l by (auto simp: get_free_rg_def)
  qed
qed

section \<open>Returning a region\<close>

text \<open>
  The specification of \<open>enlist_vm_freerg_list\<close> on the list of free regions (without the
  empty region that ends it): extend the neighbour above or below, join both neighbours
  into a new front region, or put the region in front. \<open>None\<close> is undefined behaviour:
  the node of the upper neighbour is directly followed by that of the lower one, deleting
  the first frees the node of the second, and the second deletion works on freed memory.
\<close>

primrec last_such :: "('a \<Rightarrow> bool) \<Rightarrow> 'a list \<Rightarrow> 'a option \<Rightarrow> 'a option" where
  "last_such P [] d = d"
| "last_such P (x # xs) d = last_such P xs (if P x then Some x else d)"

definition merge_free :: "int \<Rightarrow> int \<Rightarrow> (int \<times> int) list \<Rightarrow> (int \<times> (int \<times> int) list) option" where
  "merge_free s e ys =
     (case (last_such (\<lambda>r. fst r = e) ys None, last_such (\<lambda>r. snd r = s) ys None) of
        (None, None) \<Rightarrow> Some (0, (s, e) # ys)
      | (Some d, None) \<Rightarrow> Some (1, map (\<lambda>r. if r = d then (s, snd d) else r) ys)
      | (None, Some i) \<Rightarrow> Some (1, map (\<lambda>r. if r = i then (fst i, e) else r) ys)
      | (Some d, Some i) \<Rightarrow>
          if (d, i) \<in> set (zip ys (tl ys)) then None
          else Some (0, (fst i, snd d) # filter (\<lambda>r. r \<noteq> d \<and> r \<noteq> i) ys))"

lemma last_such_map: "last_such P (map f xs) (map_option f d) = map_option f (last_such (\<lambda>x. P (f x)) xs d)"
proof (induction xs arbitrary: d)
  case (Cons x xs)
  from Cons [of "Some x"] Cons [of d] show ?case by auto
qed simp

lemma last_such_Some: "last_such P xs d = Some a \<Longrightarrow> a \<in> set xs \<and> P a \<or> d = Some a"
  by (induction xs arbitrary: d) (force split: if_splits)+

lemma last_such_SomeD: "last_such P xs None = Some a \<Longrightarrow> a \<in> set xs \<and> P a"
  using last_such_Some by fastforce

lemma last_such_None: "last_such P xs None = None \<longleftrightarrow> (\<forall>x \<in> set xs. \<not> P x)"
proof -
  have "last_such P xs (Some d) \<noteq> None" for d
    by (induction xs arbitrary: d) auto
  then show ?thesis by (induction xs) auto
qed

lemma enlist_walk_eq:
  "rg_path (rg_cells h) p as None \<Longrightarrow> length as \<le> fuel \<Longrightarrow>
     enlist_walk fuel h s e p dec inc =
       (let pre = takeWhile (\<lambda>a. rg_val (rg_cells h) a \<noteq> (0, 0)) as
        in Inr (last_such (\<lambda>a. fst (rg_val (rg_cells h) a) = e) pre dec,
                last_such (\<lambda>a. snd (rg_val (rg_cells h) a) = s) pre inc))"
proof (induction as arbitrary: p fuel dec inc)
  case (Cons a as)
  then obtain n f where n: "rg_cells h a = Some n" "p = Some a" "fuel = Suc f"
    by (cases fuel) auto
  with Cons.IH [of "rg_next n" f] Cons.prems show ?case
    by (auto simp: rg_deref_def rg_val_def Let_def)
qed simp

lemma delete_mid:
  assumes p: "rg_path (rg_cells h) p (A @ a # b # B) None" and d: "distinct (A @ a # b # B)"
  shows "\<exists>h'. delete_vm_rg_node h (Some a) = Inr (1, h') \<and> rg_path (rg_cells h') p (A @ a # B) None \<and>
    map (rg_val (rg_cells h')) (A @ a # B) = map (rg_val (rg_cells h)) (A @ b # B) \<and>
    rg_cells h' b = None \<and> rg_brk h' = rg_brk h \<and>
    (\<forall>x. x \<noteq> a \<longrightarrow> x \<noteq> b \<longrightarrow> rg_cells h' x = rg_cells h x)"
proof -
  let ?c = "rg_cells h"
  obtain n nx where n: "?c a = Some n" "rg_next n = Some b" "?c b = Some nx"
      "rg_path ?c p A (Some a)" "rg_path ?c (rg_next nx) B None"
    using p by (auto simp: rg_path_append)
  let ?c' = "?c(a \<mapsto> n\<lparr>rg_start := rg_start nx, rg_end := rg_end nx, rg_next := rg_next nx\<rparr>, b := None)"
  have "delete_vm_rg_node h (Some a) = Inr (1, h\<lparr>rg_cells := ?c'\<rparr>)"
    using n d by (simp add: delete_vm_rg_node_def rg_op_defs)
  moreover have "rg_path ?c' p (A @ a # B) None"
    using n d by (auto simp: rg_path_append rg_path_upd)
  moreover have "map (rg_val ?c') (A @ a # B) = map (rg_val ?c) (A @ b # B)"
    using n d by (auto simp: rg_val_def)
  ultimately show ?thesis by (intro exI [of _ "h\<lparr>rg_cells := ?c'\<rparr>"]) (use d in auto)
qed

lemma delete_adjacent_fails:
  assumes "rg_path (rg_cells h) p (A @ a # b # B) None" "distinct (A @ a # b # B)"
  shows "\<exists>h'. delete_vm_rg_node h (Some a) = Inr (1, h') \<and> delete_vm_rg_node h' (Some b) = Inl WildDeref"
  using delete_mid [OF assms] by (auto simp: delete_vm_rg_node_def rg_deref_def)

text \<open>The regions of a free list as the paging code keeps it: nonempty, without repetition.\<close>

definition fl_ok :: "(int \<times> int) list \<Rightarrow> bool" where
  "fl_ok ys \<longleftrightarrow> distinct ys \<and> (\<forall>(a, b) \<in> set ys. 0 \<le> a \<and> a < b)"

text \<open>The list with its empty last node: nodes \<open>bs\<close> with regions \<open>ys\<close>, then node \<open>z\<close>.\<close>

definition freelist0 :: "rg_heap \<Rightarrow> rg_ptr \<Rightarrow> nat list \<Rightarrow> nat \<Rightarrow> (int \<times> int) list \<Rightarrow> bool" where
  "freelist0 h p bs z ys \<longleftrightarrow>
     freelist h p (bs @ [z]) (ys @ [(0, 0)]) \<and> length bs = length ys"

lemma freelist0_D:
  assumes "freelist0 h p bs z ys"
  shows "rg_path (rg_cells h) p (bs @ [z]) None" "distinct (bs @ [z])"
    "map (rg_val (rg_cells h)) bs = ys" "rg_val (rg_cells h) z = (0, 0)"
    "\<And>a. rg_brk h \<le> a \<Longrightarrow> rg_cells h a = None" "rg_brk h \<notin> set (bs @ [z])" "p \<noteq> None"
proof -
  show *: "rg_path (rg_cells h) p (bs @ [z]) None" "distinct (bs @ [z])"
      "map (rg_val (rg_cells h)) bs = ys" "rg_val (rg_cells h) z = (0, 0)"
      "\<And>a. rg_brk h \<le> a \<Longrightarrow> rg_cells h a = None"
    using assms by (auto simp: freelist0_def freelist_def)
  show "rg_brk h \<notin> set (bs @ [z])" using rg_path_live [OF *(1)] *(5) by (metis order_refl option.distinct(1))
  show "p \<noteq> None" using *(1) by (cases bs) auto
qed

lemma freelist0_I:
  assumes "rg_path (rg_cells h) p (bs @ [z]) None" "distinct (bs @ [z])"
    "map (rg_val (rg_cells h)) (bs @ [z]) = ys @ [(0, 0)]"
    "\<And>a. rg_brk h \<le> a \<Longrightarrow> rg_cells h a = None"
  shows "freelist0 h p bs z ys"
proof -
  have "length (map (rg_val (rg_cells h)) (bs @ [z])) = length (ys @ [(0, 0)])"
    using assms(3) by (rule arg_cong)
  then show ?thesis using assms by (simp add: freelist0_def freelist_def)
qed

lemma enlist_walk_free:
  assumes fl: "freelist0 h p bs z ys" and ok: "fl_ok ys"
  obtains dec inc where "enlist_walk (rg_brk h) h s e p None None = Inr (dec, inc)"
    "map_option (rg_val (rg_cells h)) dec = last_such (\<lambda>r. fst r = e) ys None"
    "map_option (rg_val (rg_cells h)) inc = last_such (\<lambda>r. snd r = s) ys None"
    "\<And>a. dec = Some a \<Longrightarrow> a \<in> set bs" "\<And>a. inc = Some a \<Longrightarrow> a \<in> set bs"
proof -
  let ?v = "rg_val (rg_cells h)"
  note D = freelist0_D [OF fl]
  have "length (bs @ [z]) \<le> rg_brk h"
    using fl freelist_fuel [of h p "bs @ [z]" "ys @ [(0, 0)]"] by (simp add: freelist0_def)
  moreover have "takeWhile (\<lambda>a. ?v a \<noteq> (0, 0)) (bs @ [z]) = bs"
  proof -
    have "\<forall>a \<in> set bs. ?v a \<noteq> (0, 0)"
      using ok D(3) by (force simp: fl_ok_def)
    then show ?thesis using D(4) by (simp add: takeWhile_append2)
  qed
  ultimately have "enlist_walk (rg_brk h) h s e p None None =
      Inr (last_such (\<lambda>a. fst (?v a) = e) bs None, last_such (\<lambda>a. snd (?v a) = s) bs None)"
    using enlist_walk_eq [OF D(1)] by simp
  then show ?thesis
  proof (rule that)
    show "map_option ?v (last_such (\<lambda>a. fst (?v a) = e) bs None) = last_such (\<lambda>r. fst r = e) ys None"
      "map_option ?v (last_such (\<lambda>a. snd (?v a) = s) bs None) = last_such (\<lambda>r. snd r = s) ys None"
      using last_such_map [of _ ?v bs None] D(3) by simp_all
  qed (auto dest: last_such_SomeD)
qed

text \<open>Writing one node of the list.\<close>

lemma freelist0_store:
  assumes fl: "freelist0 h p bs z ys" and ok: "distinct ys" and a: "a \<in> set bs"
    and n: "rg_cells h a = Some n" "rg_next n' = rg_next n"
  shows "freelist0 (h\<lparr>rg_cells := (rg_cells h)(a \<mapsto> n')\<rparr>) p bs z
    (map (\<lambda>r. if r = rg_val (rg_cells h) a then (rg_start n', rg_end n') else r) ys)"
proof -
  let ?c = "rg_cells h" and ?c' = "(rg_cells h)(a \<mapsto> n')"
  note D = freelist0_D [OF fl]
  obtain A B where bs: "bs = A @ a # B" using a by (auto simp: in_set_conv_decomp)
  have inj: "rg_val ?c x = rg_val ?c a \<longleftrightarrow> x = a" if "x \<in> set bs" for x
    using that a ok D(3) by (auto simp: distinct_map inj_on_def)
  have "rg_path ?c' p (bs @ [z]) None"
    using D(1,2) n bs by (auto simp: rg_path_append rg_path_upd)
  moreover have "map (rg_val ?c') bs =
      map (\<lambda>r. if r = rg_val ?c a then (rg_start n', rg_end n') else r) ys"
    using inj D(3) by (auto simp: rg_val_def)
  moreover have "rg_val ?c' z = (0, 0)" using D(2,4) a by (auto simp: rg_val_def)
  moreover have "a < rg_brk h" using D(5) [of a] n by (cases "a < rg_brk h") auto
  ultimately show ?thesis
    using D(2) by (intro freelist0_I) (simp_all add: D(5))
qed

text \<open>A fresh node, and putting it in front.\<close>

lemma freelist0_malloc:
  assumes fl: "freelist0 h p bs z ys"
  shows "freelist0 (h\<lparr>rg_brk := rg_brk h + 1, rg_cells := (rg_cells h)(rg_brk h \<mapsto> n)\<rparr>) p bs z ys"
proof -
  note D = freelist0_D [OF fl]
  show ?thesis
    using D map_rg_val_upd [OF D(6), of "rg_cells h" "Some n"]
    by (intro freelist0_I) (auto simp: rg_path_upd)
qed

lemma enlist_new_front:
  assumes fl: "freelist0 h p bs z ys" and a: "rg_cells h a = Some n" "a \<notin> set (bs @ [z])"
  shows "\<exists>h'. enlist_new h p (Some a) = Inr (0, Some a, h') \<and>
    freelist0 h' (Some a) (a # bs) z ((rg_start n, rg_end n) # ys)"
proof -
  note D = freelist0_D [OF fl]
  let ?n = "n\<lparr>rg_next := p\<rparr>"
  let ?h = "h\<lparr>rg_cells := (rg_cells h)(a \<mapsto> ?n)\<rparr>"
  have new: "enlist_new h p (Some a) = Inr (0, Some a, ?h)"
    using D(7) a by (simp add: enlist_new_def rg_op_defs)
  have "rg_brk h \<le> x \<Longrightarrow> x \<noteq> a" for x using D(5) [of x] a by auto
  then have "freelist0 ?h (Some a) (a # bs) z ((rg_start n, rg_end n) # ys)"
    using D a map_rg_val_upd [OF a(2), of "rg_cells h" "Some ?n"]
    by (intro freelist0_I) (auto simp: rg_path_upd)
  then show ?thesis using new by blast
qed

text \<open>Deleting a node of the list: its successor's node is the one that is freed.\<close>

lemma freelist0_delete:
  assumes fl: "freelist0 h p (A @ a # B) z ys"
  shows "\<exists>h' bs' z'. delete_vm_rg_node h (Some a) = Inr (1, h') \<and>
    freelist0 h' p bs' z' (map (rg_val (rg_cells h)) (A @ B)) \<and>
    (\<forall>x. x \<noteq> a \<longrightarrow> x \<noteq> hd (B @ [z]) \<longrightarrow> rg_cells h' x = rg_cells h x) \<and>
    set (bs' @ [z']) \<subseteq> set (A @ a # B @ [z]) \<and>
    (\<forall>x \<in> set (A @ B). x \<noteq> hd (B @ [z]) \<longrightarrow> x \<in> set bs')"
proof -
  note D = freelist0_D [OF fl]
  obtain b C where C: "B @ [z] = b # C" by (cases "B @ [z]") auto
  have dist: "distinct (A @ a # b # C)" and path: "rg_path (rg_cells h) p (A @ a # b # C) None"
    using D(1,2) C by simp_all
  obtain h' where h': "delete_vm_rg_node h (Some a) = Inr (1, h')"
      "rg_path (rg_cells h') p (A @ a # C) None"
      "map (rg_val (rg_cells h')) (A @ a # C) = map (rg_val (rg_cells h)) (A @ b # C)"
      "rg_cells h' b = None" "rg_brk h' = rg_brk h"
      "\<forall>x. x \<noteq> a \<longrightarrow> x \<noteq> b \<longrightarrow> rg_cells h' x = rg_cells h x"
    using delete_mid [OF path dist] by blast
  obtain bs' z' where z': "A @ a # C = bs' @ [z']" by (cases "A @ a # C" rule: rev_cases) auto
  have sets: "set (B @ [z]) = insert b (set C)" "set (bs' @ [z']) = insert a (set A \<union> set C)"
    by (simp only: C list.set) (simp flip: z')
  have vals: "map (rg_val (rg_cells h)) (A @ b # C) = map (rg_val (rg_cells h)) (A @ B) @ [(0, 0)]"
    using D(4) by (simp flip: C)
  have live: "a < rg_brk h"
    using D(5) [of a] rg_path_live [OF D(1), of a] by (cases "a < rg_brk h") auto
  have "freelist0 h' p bs' z' (map (rg_val (rg_cells h)) (A @ B))"
  proof (rule freelist0_I)
    show "rg_path (rg_cells h') p (bs' @ [z']) None" using h'(2) unfolding z' .
    have "distinct (A @ a # C)" using dist by simp
    then show "distinct (bs' @ [z'])" unfolding z' .
    show "map (rg_val (rg_cells h')) (bs' @ [z']) = map (rg_val (rg_cells h)) (A @ B) @ [(0, 0)]"
      using h'(3) unfolding z' vals .
    show "rg_cells h' x = None" if "rg_brk h' \<le> x" for x
      using that h'(4-6) D(5) [of x] live by (cases "x = b") auto
  qed
  moreover have "set (bs' @ [z']) \<subseteq> set (A @ a # B @ [z])"
    using sets by auto
  moreover have "x \<in> set bs'" if "x \<in> set (A @ B)" "x \<noteq> b" for x
  proof -
    have x: "x \<noteq> a" "x \<noteq> z" using that(1) D(2) by auto
    have "last (A @ a # C) = z'" unfolding z' by simp
    moreover have "last (A @ a # C) = z \<or> C = []" using C by (cases C rule: rev_cases) auto
    ultimately have "z' = z \<or> z' = a" by auto
    moreover have "x \<in> set (bs' @ [z'])" using that sets by auto
    ultimately show ?thesis using x by auto
  qed
  ultimately show ?thesis using h' C by (intro exI conjI) (assumption | simp)+
qed

lemma adjacent_iff: "(x, y) \<in> set (zip ys (tl ys)) \<longleftrightarrow> (\<exists>l r. ys = l @ x # y # r)"
proof
  assume "(x, y) \<in> set (zip ys (tl ys))"
  then obtain k where k: "Suc k < length ys" "ys ! k = x" "ys ! Suc k = y"
    by (auto simp: set_zip nth_tl less_diff_conv)
  then have "ys = take k ys @ x # y # drop (Suc (Suc k)) ys"
    by (metis Cons_nth_drop_Suc Suc_lessD id_take_nth_drop)
  then show "\<exists>l r. ys = l @ x # y # r" by blast
next
  assume "\<exists>l r. ys = l @ x # y # r"
  then obtain l r where ys: "ys = l @ x # y # r" by blast
  then have "zip ys (tl ys) ! length l = (x, y)" "length l < length (zip ys (tl ys))"
    by (simp_all add: nth_tl nth_append)
  then show "(x, y) \<in> set (zip ys (tl ys))" by (metis nth_mem)
qed

lemma filter_remove_mid: "distinct (l @ x # r) \<Longrightarrow> filter (\<lambda>y. y \<noteq> x) (l @ x # r) = l @ r"
  by (auto intro!: arg_cong2 [where f = append] filter_True)

text \<open>Two regions are neighbours in the list exactly when their nodes are.\<close>

lemma freelist0_adjacent:
  assumes fl: "freelist0 h p (A @ d # B) z ys" and ys: "distinct ys" and i: "i \<in> set (A @ d # B)"
  defines "v \<equiv> rg_val (rg_cells h)"
  shows "(v d, v i) \<in> set (zip ys (tl ys)) \<longleftrightarrow> i = hd (B @ [z])"
proof
  note D = freelist0_D [OF fl]
  have vys: "ys = map v A @ v d # map v B" using D(3) by (simp add: v_def)
  have "distinct (map v (A @ d # B))" using ys D(3) by (simp add: v_def)
  then have inj: "inj_on v (set (A @ d # B))" unfolding distinct_map by blast
  {
    assume "(v d, v i) \<in> set (zip ys (tl ys))"
    then obtain l r where lr: "ys = l @ v d # v i # r" unfolding adjacent_iff by blast
    have "v d \<notin> set (map v A)" "v d \<notin> set (map v B)" using vys ys by auto
    then have "map v B = v i # r"
      using append_Cons_eq_iff [of "v d" "map v A" "map v B" l "v i # r"] lr vys by metis
    then obtain b B' where "B = b # B'" "v b = v i" by (cases B) auto
    then show "i = hd (B @ [z])" using inj i by (auto simp: inj_on_def)
  next
    assume "i = hd (B @ [z])"
    moreover have "i \<noteq> z" using i D(2) by auto
    ultimately obtain B' where "B = i # B'" by (cases B) auto
    then show "(v d, v i) \<in> set (zip ys (tl ys))" unfolding adjacent_iff using vys by auto
  }
qed

lemma freelist0_delete_apart:
  assumes fl: "freelist0 h p (A @ d # B) z ys" and ys: "distinct ys"
    and i: "i \<in> set (A @ B)" "i \<noteq> d" "i \<noteq> hd (B @ [z])"
  defines "v \<equiv> rg_val (rg_cells h)"
  shows "\<exists>h1 h2 bs' z'. delete_vm_rg_node h (Some d) = Inr (1, h1) \<and>
      delete_vm_rg_node h1 (Some i) = Inr (1, h2) \<and> set (bs' @ [z']) \<subseteq> set ((A @ d # B) @ [z]) \<and>
      (\<forall>x. x \<notin> set ((A @ d # B) @ [z]) \<longrightarrow> rg_cells h2 x = rg_cells h x) \<and>
      freelist0 h2 p bs' z' (filter (\<lambda>r. r \<noteq> v d \<and> r \<noteq> v i) ys)"
proof -
  have vys: "ys = map v A @ v d # map v B" using freelist0_D(3) [OF fl] by (simp add: v_def)
  obtain h1 bs1 z1 where h1: "delete_vm_rg_node h (Some d) = Inr (1, h1)" "freelist0 h1 p bs1 z1 (map v (A @ B))"
      "\<forall>x. x \<noteq> d \<longrightarrow> x \<noteq> hd (B @ [z]) \<longrightarrow> rg_cells h1 x = rg_cells h x" "set (bs1 @ [z1]) \<subseteq> set (A @ d # B @ [z])"
      "\<forall>x \<in> set (A @ B). x \<noteq> hd (B @ [z]) \<longrightarrow> x \<in> set bs1"
    using freelist0_delete [OF fl] unfolding v_def by blast
  obtain A1 B1 where bs1: "bs1 = A1 @ i # B1" using h1(5) i by (auto simp: in_set_conv_decomp)
  let ?v1 = "rg_val (rg_cells h1)"
  have "?v1 i = v i" using h1(3) i by (simp add: rg_val_def v_def)
  then have ys1: "map v (A @ B) = map ?v1 A1 @ v i # map ?v1 B1" using freelist0_D(3) [OF h1(2)] bs1 by simp
  obtain h2 bs2 z2 where h2: "delete_vm_rg_node h1 (Some i) = Inr (1, h2)" "freelist0 h2 p bs2 z2 (map ?v1 (A1 @ B1))"
      "\<forall>x. x \<noteq> i \<longrightarrow> x \<noteq> hd (B1 @ [z1]) \<longrightarrow> rg_cells h2 x = rg_cells h1 x" "set (bs2 @ [z2]) \<subseteq> set (A1 @ i # B1 @ [z1])"
    using freelist0_delete [of h1 p A1 i B1 z1] h1(2) bs1 by blast
  have f1: "filter (\<lambda>r. r \<noteq> v d) ys = map v (A @ B)" using vys ys filter_remove_mid [of "map v A" "v d" "map v B"] by simp
  have "distinct (map v (A @ B))" using vys ys by simp
  then have "filter (\<lambda>r. r \<noteq> v i) (filter (\<lambda>r. r \<noteq> v d) ys) = map ?v1 A1 @ map ?v1 B1"
    unfolding f1 ys1 by (rule filter_remove_mid)
  then have f: "freelist0 h2 p bs2 z2 (filter (\<lambda>r. r \<noteq> v d \<and> r \<noteq> v i) ys)" using h2(2) by simp
  have hds: "hd (B @ [z]) \<in> set ((A @ d # B) @ [z])" "hd (B1 @ [z1]) \<in> set ((A @ d # B) @ [z])"
    using hd_in_set [of "B @ [z]"] hd_in_set [of "B1 @ [z1]"] bs1 h1(4) by auto
  have "rg_cells h2 x = rg_cells h x" if "x \<notin> set ((A @ d # B) @ [z])" for x
  proof -
    have "x \<noteq> d" "x \<noteq> i" "x \<noteq> hd (B @ [z])" "x \<noteq> hd (B1 @ [z1])" using that hds i by auto
    then show ?thesis using h1(3) h2(3) by simp
  qed
  moreover have "set (bs2 @ [z2]) \<subseteq> set ((A @ d # B) @ [z])" using h1(4) h2(4) bs1 by auto
  ultimately show ?thesis using h1(1) h2(1) f by blast
qed

lemma freelist0_delete_both:
  assumes fl: "freelist0 h p bs z ys" and ys: "distinct ys"
    and d: "d \<in> set bs" and i: "i \<in> set bs" "i \<noteq> d"
  defines "v \<equiv> rg_val (rg_cells h)"
  shows "if (v d, v i) \<in> set (zip ys (tl ys)) then
      \<exists>h1. delete_vm_rg_node h (Some d) = Inr (1, h1) \<and> delete_vm_rg_node h1 (Some i) = Inl WildDeref
    else \<exists>h1 h2 bs' z'. delete_vm_rg_node h (Some d) = Inr (1, h1) \<and>
      delete_vm_rg_node h1 (Some i) = Inr (1, h2) \<and> set (bs' @ [z']) \<subseteq> set (bs @ [z]) \<and>
      (\<forall>x. x \<notin> set (bs @ [z]) \<longrightarrow> rg_cells h2 x = rg_cells h x) \<and>
      freelist0 h2 p bs' z' (filter (\<lambda>r. r \<noteq> v d \<and> r \<noteq> v i) ys)"
proof -
  note D = freelist0_D [OF fl]
  obtain A B where bs: "bs = A @ d # B" using d by (auto simp: in_set_conv_decomp)
  have iAB: "i \<in> set (A @ B)" and inz: "i \<noteq> z" using i bs D(2) by auto
  note adj = freelist0_adjacent [OF fl [unfolded bs] ys i(1) [unfolded bs], folded v_def]
  show ?thesis
  proof (cases "i = hd (B @ [z])")
    case True
    then obtain B' where "bs @ [z] = A @ d # i # B' @ [z]" using inz bs by (cases B) auto
    then have "\<exists>h1. delete_vm_rg_node h (Some d) = Inr (1, h1) \<and> delete_vm_rg_node h1 (Some i) = Inl WildDeref"
      using delete_adjacent_fails [of h p A d i "B' @ [z]"] D(1,2) by simp
    then show ?thesis using True adj by simp
  next
    case False
    then show ?thesis
      using freelist0_delete_apart [OF fl [unfolded bs] ys iAB i(2) False, folded v_def bs] adj by simp
  qed
qed

text \<open>The four branches of the function, by the neighbours the walk finds.\<close>

lemma enlist_no_neighbour:
  assumes fl: "freelist0 h p bs z ys" and se: "s < e"
    and w: "enlist_walk (rg_brk h) h s e p None None = Inr (None, None)"
  shows "\<exists>p' h' bs' z'. enlist_freerg h p s e = Inr (0, p', h') \<and> freelist0 h' p' bs' z' ((s, e) # ys)"
proof -
  let ?n = "(rg_fresh h)\<lparr>rg_start := s, rg_end := e\<rparr>"
  let ?h = "h\<lparr>rg_brk := rg_brk h + 1, rg_cells := (rg_cells h)(rg_brk h \<mapsto> ?n)\<rparr>"
  have "enlist_freerg h p s e = enlist_new ?h p (Some (rg_brk h))"
    using se w by (simp add: enlist_freerg_def rg_op_defs)
  then show ?thesis
    using enlist_new_front [OF freelist0_malloc [OF fl, of ?n], where a = "rg_brk h" and n = ?n] freelist0_D(6) [OF fl]
    by simp blast
qed

lemma enlist_one_neighbour:
  assumes fl: "freelist0 h p bs z ys" and dys: "distinct ys" and se: "s < e"
    and a: "a \<in> set bs" "rg_cells h a = Some n"
  shows "enlist_walk (rg_brk h) h s e p None None = Inr (None, Some a) \<Longrightarrow>
      \<exists>h'. enlist_freerg h p s e = Inr (1, p, h') \<and>
        freelist0 h' p bs z (map (\<lambda>r. if r = rg_val (rg_cells h) a then (rg_start n, e) else r) ys)"
    and "enlist_walk (rg_brk h) h s e p None None = Inr (Some a, None) \<Longrightarrow>
      \<exists>h'. enlist_freerg h p s e = Inr (1, p, h') \<and>
        freelist0 h' p bs z (map (\<lambda>r. if r = rg_val (rg_cells h) a then (s, rg_end n) else r) ys)"
  using freelist0_store [OF fl dys a, of "n\<lparr>rg_end := e\<rparr>"] freelist0_store [OF fl dys a, of "n\<lparr>rg_start := s\<rparr>"] se a(2)
  by (simp_all add: enlist_freerg_def rg_op_defs cong: if_cong)

lemma enlist_two_neighbours:
  assumes fl: "freelist0 h p bs z ys" and dys: "distinct ys" and se: "s < e"
    and d: "d \<in> set bs" "rg_cells h d = Some nd" and i: "i \<in> set bs" "rg_cells h i = Some ni" "i \<noteq> d"
    and w: "enlist_walk (rg_brk h) h s e p None None = Inr (Some d, Some i)"
  defines "v \<equiv> rg_val (rg_cells h)"
  shows "if (v d, v i) \<in> set (zip ys (tl ys)) then enlist_freerg h p s e = Inl WildDeref
    else \<exists>p' h' bs' z'. enlist_freerg h p s e = Inr (0, p', h') \<and>
      freelist0 h' p' bs' z' ((rg_start ni, rg_end nd) # filter (\<lambda>r. r \<noteq> v d \<and> r \<noteq> v i) ys)"
proof -
  let ?n = "(rg_fresh h)\<lparr>rg_end := rg_end nd, rg_start := rg_start ni\<rparr>"
  let ?h' = "h\<lparr>rg_brk := rg_brk h + 1, rg_cells := (rg_cells h)(rg_brk h \<mapsto> ?n)\<rparr>"
  have brk: "rg_brk h \<notin> set (bs @ [z])" by (rule freelist0_D(6) [OF fl])
  then have nb: "d \<noteq> rg_brk h" "i \<noteq> rg_brk h" using d i by auto
  then have v': "rg_val (rg_cells ?h') d = v d" "rg_val (rg_cells ?h') i = v i" by (simp_all add: rg_val_def v_def)
  have run: "enlist_freerg h p s e =
      rbind (delete_vm_rg_node ?h' (Some d)) (\<lambda>(_, h1).
      rbind (delete_vm_rg_node h1 (Some i)) (\<lambda>(_, h2). enlist_new h2 p (Some (rg_brk h))))"
    using se w nb d(2) i(2) by (simp add: enlist_freerg_def rg_op_defs)
  note both = freelist0_delete_both [OF freelist0_malloc [OF fl, of ?n] dys d(1) i(1,3), unfolded v']
  show ?thesis
  proof (cases "(v d, v i) \<in> set (zip ys (tl ys))")
    case True
    then show ?thesis using both run by auto
  next
    case False
    then obtain h1 h2 bs' z' where r: "delete_vm_rg_node ?h' (Some d) = Inr (1, h1)"
        "delete_vm_rg_node h1 (Some i) = Inr (1, h2)" "set (bs' @ [z']) \<subseteq> set (bs @ [z])"
        "\<forall>x. x \<notin> set (bs @ [z]) \<longrightarrow> rg_cells h2 x = rg_cells ?h' x"
        "freelist0 h2 p bs' z' (filter (\<lambda>r. r \<noteq> v d \<and> r \<noteq> v i) ys)"
      using both by auto
    have "rg_cells h2 (rg_brk h) = Some ?n" "rg_brk h \<notin> set (bs' @ [z'])" using r(3,4) brk by auto
    then show ?thesis using enlist_new_front [OF r(5), of "rg_brk h" ?n] run r(1,2) False by auto
  qed
qed

text \<open>The function refines its specification.\<close>

lemma enlist_freerg_refines:
  assumes fl: "freelist0 h p bs z ys" and ok: "fl_ok ys" and se: "s < e"
  shows "case merge_free s e ys of
      None \<Rightarrow> enlist_freerg h p s e = Inl WildDeref
    | Some (r, ys') \<Rightarrow> \<exists>p' h' bs' z'. enlist_freerg h p s e = Inr (r, p', h') \<and> freelist0 h' p' bs' z' ys'"
proof -
  let ?c = "rg_cells h" and ?v = "rg_val (rg_cells h)"
  note D = freelist0_D [OF fl]
  have dys: "distinct ys" using ok by (simp add: fl_ok_def)
  obtain dec inc where w: "enlist_walk (rg_brk h) h s e p None None = Inr (dec, inc)"
      "map_option ?v dec = last_such (\<lambda>r. fst r = e) ys None"
      "map_option ?v inc = last_such (\<lambda>r. snd r = s) ys None"
      "\<And>a. dec = Some a \<Longrightarrow> a \<in> set bs" "\<And>a. inc = Some a \<Longrightarrow> a \<in> set bs"
    using enlist_walk_free [OF fl ok] by metis
  have cell: "\<exists>n. ?c a = Some n \<and> ?v a = (rg_start n, rg_end n)" if "a \<in> set bs" for a
    using rg_path_live [OF D(1), of a] that by (auto simp: rg_val_def)
  consider (none) "dec = None" "inc = None" | (inc) i where "dec = None" "inc = Some i"
    | (dec) d where "dec = Some d" "inc = None" | (both) d i where "dec = Some d" "inc = Some i"
    by (cases dec; cases inc) auto
  then show ?thesis
  proof cases
    case none
    have "merge_free s e ys = Some (0, (s, e) # ys)" by (simp add: merge_free_def none flip: w(2,3))
    then show ?thesis using enlist_no_neighbour [OF fl se] w(1) none by simp
  next
    case (inc i)
    then obtain n where n: "?c i = Some n" "?v i = (rg_start n, rg_end n)" using cell w(5) by blast
    have "merge_free s e ys = Some (1, map (\<lambda>r. if r = ?v i then (rg_start n, e) else r) ys)"
      using n by (simp add: merge_free_def inc flip: w(2,3) cong: if_cong)
    then show ?thesis using enlist_one_neighbour(1) [OF fl dys se w(5) [OF inc(2)] n(1)] w(1) inc by auto
  next
    case (dec d)
    then obtain n where n: "?c d = Some n" "?v d = (rg_start n, rg_end n)" using cell w(4) by blast
    have "merge_free s e ys = Some (1, map (\<lambda>r. if r = ?v d then (s, rg_end n) else r) ys)"
      using n by (simp add: merge_free_def dec flip: w(2,3) cong: if_cong)
    then show ?thesis using enlist_one_neighbour(2) [OF fl dys se w(4) [OF dec(1)] n(1)] w(1) dec by auto
  next
    case (both d i)
    obtain nd where nd: "?c d = Some nd" "?v d = (rg_start nd, rg_end nd)" using cell [OF w(4) [OF both(1)]] by blast
    obtain ni where ni: "?c i = Some ni" "?v i = (rg_start ni, rg_end ni)" using cell [OF w(5) [OF both(2)]] by blast
    have l: "last_such (\<lambda>r. fst r = e) ys None = Some (?v d)" "last_such (\<lambda>r. snd r = s) ys None = Some (?v i)"
      using w(2,3) both by simp_all
    have "i \<noteq> d" using last_such_SomeD [OF l(1)] last_such_SomeD [OF l(2)] ok se by (auto simp: fl_ok_def)
    note two = enlist_two_neighbours [OF fl dys se w(4) [OF both(1)] nd(1) w(5) [OF both(2)] ni(1) this]
    have "merge_free s e ys = (if (?v d, ?v i) \<in> set (zip ys (tl ys)) then None
        else Some (0, (rg_start ni, rg_end nd) # filter (\<lambda>r. r \<noteq> ?v d \<and> r \<noteq> ?v i) ys))"
      using nd(2) ni(2) by (simp add: merge_free_def l)
    then show ?thesis using two w(1) both by (cases "(?v d, ?v i) \<in> set (zip ys (tl ys))") simp_all
  qed
qed

section \<open>The bytes a free list stands for\<close>

definition iv :: "int \<times> int \<Rightarrow> int set" where
  "iv r = {fst r ..< snd r}"

definition bytes :: "(int \<times> int) list \<Rightarrow> int set" where
  "bytes ys = (\<Union>r \<in> set ys. iv r)"

definition fl_inv :: "(int \<times> int) list \<Rightarrow> bool" where
  "fl_inv ys \<longleftrightarrow> fl_ok ys \<and> pairwise (\<lambda>r r'. iv r \<inter> iv r' = {}) (set ys)"

text \<open>Addresses stay below the range in which \<open>unsigned long\<close> sums could wrap.\<close>

definition fl_small :: "(int \<times> int) list \<Rightarrow> bool" where
  "fl_small ys \<longleftrightarrow> (\<forall>r \<in> set ys. snd r \<le> 2 ^ 62)"

lemma bytes_simps [simp]:
  "bytes [] = {}" "bytes (r # ys) = iv r \<union> bytes ys" "bytes (xs @ ys) = bytes xs \<union> bytes ys"
  by (auto simp: bytes_def)

lemma iv_subset_bytes: "r \<in> set ys \<Longrightarrow> iv r \<subseteq> bytes ys"
  by (auto simp: bytes_def)

lemma fl_inv_Cons:
  "fl_inv (r # ys) \<longleftrightarrow> 0 \<le> fst r \<and> fst r < snd r \<and> iv r \<inter> bytes ys = {} \<and> fl_inv ys"
proof
  assume inv: "fl_inv (r # ys)"
  then have "iv r \<inter> iv r' = {}" if "r' \<in> set ys" for r'
    using that by (auto simp: fl_inv_def fl_ok_def pairwise_def)
  then show "0 \<le> fst r \<and> fst r < snd r \<and> iv r \<inter> bytes ys = {} \<and> fl_inv ys"
    using inv by (auto simp: fl_inv_def fl_ok_def bytes_def pairwise_insert)
next
  assume r: "0 \<le> fst r \<and> fst r < snd r \<and> iv r \<inter> bytes ys = {} \<and> fl_inv ys"
  then have "iv r \<noteq> {}" "iv r \<inter> bytes ys = {}" by (auto simp: iv_def)
  then have "r \<notin> set ys" using iv_subset_bytes [of r ys] by auto
  moreover have "iv r \<inter> iv r' = {}" "iv r' \<inter> iv r = {}" if "r' \<in> set ys" for r'
    using r iv_subset_bytes [OF that] by auto
  moreover have "distinct ys" "pairwise (\<lambda>r r'. iv r \<inter> iv r' = {}) (set ys)"
      "\<forall>(a, b) \<in> set ys. 0 \<le> a \<and> a < b"
    using r by (simp_all add: fl_inv_def fl_ok_def)
  ultimately show "fl_inv (r # ys)"
    using r by (simp add: fl_inv_def fl_ok_def pairwise_insert case_prod_unfold)
qed

lemma fl_inv_Nil [simp]: "fl_inv []"
  by (simp add: fl_inv_def fl_ok_def)

lemma fl_inv_append:
  "fl_inv (xs @ ys) \<longleftrightarrow> fl_inv xs \<and> fl_inv ys \<and> bytes xs \<inter> bytes ys = {}"
  by (induction xs) (auto simp: fl_inv_Cons)

lemma fl_inv_swap: "fl_inv (xs @ r # ys) \<longleftrightarrow> fl_inv (r # xs @ ys)"
  by (auto simp: fl_inv_append fl_inv_Cons)

lemma first_fit_split:
  "first_fit sz xs = Some (r, zs) \<Longrightarrow>
     \<exists>l a b t. xs = l @ (a, b) # t \<and> u64 (a + sz) \<le> b \<and> r = (a, u64 (a + sz)) \<and>
       zs = l @ (if u64 (a + sz) < b then (u64 (a + sz), b) # t else if t = [] then [(b, b)] else t)"
proof (induction sz xs arbitrary: zs rule: first_fit.induct)
  case (2 sz s e xs)
  show ?case
  proof (cases "u64 (s + sz) \<le> e")
    case True
    with 2 show ?thesis by (intro exI [of _ "[]"]) auto
  next
    case False
    with "2.prems" obtain ws where ws: "first_fit sz xs = Some (r, ws)" "zs = (s, e) # ws" by auto
    from "2.IH" [OF False ws(1)] obtain l a b t where "xs = l @ (a, b) # t" "u64 (a + sz) \<le> b"
        "r = (a, u64 (a + sz))"
        "ws = l @ (if u64 (a + sz) < b then (u64 (a + sz), b) # t else if t = [] then [(b, b)] else t)"
      by blast
    then show ?thesis using ws by (intro exI [of _ "(s, e) # l"]) auto
  qed
qed simp

text \<open>Cutting a piece off the front of one region.\<close>

lemma cut_region:
  assumes inv: "fl_inv ((a, b) # ws)" and m: "a < m" "m \<le> b"
  shows "m < b \<Longrightarrow> fl_inv ((m, b) # ws)" "fl_inv ws"
    "iv (m, b) \<union> bytes ws = (iv (a, b) \<union> bytes ws) - iv (a, m)"
proof -
  have pt: "x < a \<or> b \<le> x" if "x \<in> bytes ws" for x
  proof -
    have "x \<notin> iv (a, b)" using inv that unfolding fl_inv_Cons by blast
    then show ?thesis by (auto simp: iv_def)
  qed
  show "fl_inv ws" using inv by (simp add: fl_inv_Cons)
  moreover have "iv (m, b) \<inter> bytes ws = {}" using m pt by (fastforce simp: iv_def)
  ultimately show "m < b \<Longrightarrow> fl_inv ((m, b) # ws)"
    using inv m by (simp add: fl_inv_Cons)
  have "x \<in> iv (m, b) \<union> bytes ws \<longleftrightarrow> x \<in> (iv (a, b) \<union> bytes ws) - iv (a, m)" for x
    using m pt [of x] by (auto simp: iv_def)
  then show "iv (m, b) \<union> bytes ws = (iv (a, b) \<union> bytes ws) - iv (a, m)" by blast
qed

lemma first_fit_bytes:
  assumes ys: "fl_inv ys" "fl_small ys" and sz: "0 < sz" "sz < 2 ^ 31"
    and f: "first_fit sz (ys @ [(0, 0)]) = Some (r, zs)"
  shows "\<exists>ys'. zs = ys' @ [(0, 0)] \<and> fl_inv ys' \<and> fl_small ys' \<and> snd r = fst r + sz \<and> 0 \<le> fst r \<and>
    iv r \<subseteq> bytes ys \<and> bytes ys' = bytes ys - iv r"
proof -
  obtain l a b t where x: "ys @ [(0, 0)] = l @ (a, b) # t" "u64 (a + sz) \<le> b" "r = (a, u64 (a + sz))"
      "zs = l @ (if u64 (a + sz) < b then (u64 (a + sz), b) # t else if t = [] then [(b, b)] else t)"
    using first_fit_split [OF f] by blast
  have "u64 (0 + sz) = sz" using sz by simp
  then have "t \<noteq> []" using x(1,2) sz by auto
  then obtain t' y where ty: "t = t' @ [y]" by (cases t rule: rev_cases) auto
  then have "ys @ [(0, 0)] = (l @ (a, b) # t') @ [y]" using x(1) by simp
  then have t': "t = t' @ [(0, 0)]" "ys = l @ (a, b) # t'" using ty by simp_all
  have ab: "0 \<le> a" "a < b" "b \<le> 2 ^ 62" and inv: "fl_inv ((a, b) # l @ t')"
    using ys t' by (auto simp: fl_inv_append fl_inv_Cons fl_small_def)
  then have lim: "u64 (a + sz) = a + sz" using sz by simp
  let ?ys' = "l @ (if a + sz < b then (a + sz, b) # t' else t')"
  have "zs = ?ys' @ [(0, 0)]" using x(4) t' lim by simp
  moreover have "fl_inv ?ys'" "bytes ?ys' = bytes ys - iv r"
    using cut_region [OF inv, of "a + sz"] x(2,3) t' lim sz
    by (auto simp: fl_inv_swap bytes_def iv_def)
  moreover have "fl_small ?ys'" using ys t' by (auto simp: fl_small_def)
  moreover have "iv r \<subseteq> bytes ys" using t' x(2,3) lim ab by (auto simp: iv_def)
  ultimately show ?thesis using x(3) lim ab by (intro exI [of _ ?ys']) auto
qed

lemma fl_inv_set_cong: "set xs = set ys \<Longrightarrow> distinct xs = distinct ys \<Longrightarrow> fl_inv xs = fl_inv ys"
  by (simp add: fl_inv_def fl_ok_def)

lemma bytes_set_cong: "set xs = set ys \<Longrightarrow> bytes xs = bytes ys"
  by (simp add: bytes_def)

lemma fl_inv_distinct: "fl_inv ys \<Longrightarrow> distinct ys"
  by (simp add: fl_inv_def fl_ok_def)

lemma fl_inv_bounds: "fl_inv ys \<Longrightarrow> (a, b) \<in> set ys \<Longrightarrow> 0 \<le> a \<and> a < b"
  by (auto simp: fl_inv_def fl_ok_def)

text \<open>Replacing regions \<open>ds\<close> of a list by one region with the same bytes and \<open>new\<close> ones.\<close>

lemma replace_regions:
  assumes inv: "fl_inv ys" and ds: "set ds \<subseteq> set ys" "distinct ds"
    and x: "0 \<le> fst x" "fst x < snd x" "iv x = bytes ds \<union> new" and new: "new \<inter> bytes ys = {}"
    and ys': "set ys' = insert x (set ys - set ds)" "distinct ys'"
  shows "fl_inv ys'" "bytes ys' = bytes ys \<union> new"
proof -
  let ?w = "filter (\<lambda>r. r \<notin> set ds) ys"
  have all: "fl_inv (ds @ ?w)"
    using inv ds fl_inv_distinct [OF inv] by (subst fl_inv_set_cong [of _ ys]) auto
  have b: "bytes ys = bytes ds \<union> bytes ?w"
    using ds bytes_set_cong [of ys "ds @ ?w"] by auto
  have dis: "iv x \<inter> bytes ?w = {}" using all x(3) new b by (auto simp: fl_inv_append)
  then have xw: "fl_inv (x # ?w)" using all x(1,2) by (simp add: fl_inv_Cons fl_inv_append)
  have "set (x # ?w) = set ys'" using ys' by auto
  then show "fl_inv ys'" "bytes ys' = bytes ys \<union> new"
    using xw fl_inv_set_cong [of "x # ?w" ys'] bytes_set_cong [of "x # ?w" ys'] ys'(2)
      fl_inv_distinct [OF xw] b x(3) by auto
qed

lemma map_replace_set:
  assumes "distinct ys" "d \<in> set ys"
  shows "set (map (\<lambda>r. if r = d then x else r) ys) = insert x (set ys - {d})"
    "x \<notin> set ys - {d} \<Longrightarrow> distinct (map (\<lambda>r. if r = d then x else r) ys)"
  using assms by (auto simp: distinct_map inj_on_def)

lemma iv_join: "a \<le> b \<Longrightarrow> b \<le> c \<Longrightarrow> iv (a, c) = iv (a, b) \<union> iv (b, c)"
  by (auto simp: iv_def)

text \<open>The new region extends one free neighbour, or joins two.\<close>

lemma extend_region_bytes:
  assumes inv: "fl_inv ys" and d: "d \<in> set ys" and x: "0 \<le> fst x" "fst x < snd x" "iv x = iv d \<union> new"
    and new: "new \<inter> bytes ys = {}" "x \<notin> set ys"
  shows "fl_inv (map (\<lambda>r. if r = d then x else r) ys) \<and> bytes (map (\<lambda>r. if r = d then x else r) ys) = bytes ys \<union> new"
  using replace_regions [OF inv, of "[d]" x new "map (\<lambda>r. if r = d then x else r) ys"] d x new
    map_replace_set [OF fl_inv_distinct [OF inv] d, of x] by simp

lemma join_regions_bytes:
  assumes inv: "fl_inv ys" and d: "(e, v) \<in> set ys" "(u, s) \<in> set ys" and se: "0 \<le> u" "u < s" "s < e" "e < v"
    and new: "iv (s, e) \<inter> bytes ys = {}" "(u, v) \<notin> set ys"
  defines "ys' \<equiv> (u, v) # filter (\<lambda>r. r \<noteq> (e, v) \<and> r \<noteq> (u, s)) ys"
  shows "fl_inv ys' \<and> bytes ys' = bytes ys \<union> iv (s, e)"
proof -
  have "distinct ys'" "set ys' = insert (u, v) (set ys - {(e, v), (u, s)})"
    using fl_inv_distinct [OF inv] new(2) by (auto simp: ys'_def)
  moreover have "iv (u, v) = bytes [(e, v), (u, s)] \<union> iv (s, e)" using se by (auto simp: iv_def)
  ultimately show ?thesis
    using replace_regions [OF inv, of "[(e, v), (u, s)]" "(u, v)" "iv (s, e)" ys'] d se new by simp
qed

lemma merge_free_bytes:
  assumes inv: "fl_inv ys" and se: "0 \<le> s" "s < e" and new: "iv (s, e) \<inter> bytes ys = {}"
    and m: "merge_free s e ys = Some (r, ys')"
  shows "fl_inv ys' \<and> bytes ys' = bytes ys \<union> iv (s, e)"
proof -
  let ?d = "last_such (\<lambda>r. fst r = e) ys None" and ?i = "last_such (\<lambda>r. snd r = s) ys None"
  have notin: "x \<notin> set ys" if "iv (s, e) \<subseteq> iv x" for x
    using that new se iv_subset_bytes [of x ys] by (force simp: iv_def)
  have low: "(u, s) \<in> set ys \<and> 0 \<le> u \<and> u < s" if "?i = Some (u, s')" "s' = s" for u s'
    using that last_such_SomeD [of _ ys "(u, s')"] fl_inv_bounds [OF inv, of u s] by auto
  have high: "(e, v) \<in> set ys \<and> e < v" if "?d = Some (e', v)" "e' = e" for v e'
    using that last_such_SomeD [of _ ys "(e', v)"] fl_inv_bounds [OF inv, of e v] by auto
  have end_i: "snd x = s" if "?i = Some x" for x using last_such_SomeD [OF that] by simp
  have start_d: "fst x = e" if "?d = Some x" for x using last_such_SomeD [OF that] by simp
  consider "?d = None" "?i = None" | u where "?d = None" "?i = Some (u, s)" | v where "?d = Some (e, v)" "?i = None"
    | u v where "?d = Some (e, v)" "?i = Some (u, s)"
    using end_i start_d by (cases ?d; cases ?i) auto
  then show ?thesis
  proof cases
    case 1
    then show ?thesis using m inv se new by (auto simp: merge_free_def fl_inv_Cons)
  next
    case (2 u)
    have "(u, e) \<notin> set ys" using low [OF 2(2)] se by (intro notin) (auto simp: iv_def)
    then show ?thesis
      using extend_region_bytes [OF inv, of "(u, s)" "(u, e)" "iv (s, e)"] low [OF 2(2)] m 2 se new iv_join [of u s e]
      by (simp add: merge_free_def cong: if_cong)
  next
    case (3 v)
    have "(s, v) \<notin> set ys" using high [OF 3(1)] se by (intro notin) (auto simp: iv_def)
    then show ?thesis
      using extend_region_bytes [OF inv, of "(e, v)" "(s, v)" "iv (s, e)"] high [OF 3(1)] m 3 se new iv_join [of s e v]
      by (simp add: merge_free_def Un_commute cong: if_cong)
  next
    case (4 u v)
    have "(u, v) \<notin> set ys" using low [OF 4(2)] high [OF 4(1)] se by (intro notin) (auto simp: iv_def)
    moreover have "ys' = (u, v) # filter (\<lambda>r. r \<noteq> (e, v) \<and> r \<noteq> (u, s)) ys"
      using m 4 by (simp add: merge_free_def split: if_splits)
    ultimately show ?thesis using join_regions_bytes [OF inv, of e v u s] low [OF 4(2)] high [OF 4(1)] se new by simp
  qed
qed

section \<open>When a release uses a freed node\<close>

lemma fl_inv_same_start:
  assumes "fl_inv ys" "(a, b) \<in> set ys" "(a, b') \<in> set ys"
  shows "b = b'"
proof (rule ccontr)
  assume "b \<noteq> b'"
  then have "iv (a, b) \<inter> iv (a, b') = {}" using assms by (auto simp: fl_inv_def pairwise_def)
  moreover have "a \<in> iv (a, b)" "a \<in> iv (a, b')" using fl_inv_bounds [OF assms(1)] assms(2,3) by (auto simp: iv_def)
  ultimately show False by auto
qed

lemma fl_inv_same_end:
  assumes "fl_inv ys" "(a, b) \<in> set ys" "(a', b) \<in> set ys"
  shows "a = a'"
proof (rule ccontr)
  assume "a \<noteq> a'"
  then have "iv (a, b) \<inter> iv (a', b) = {}" using assms by (auto simp: fl_inv_def pairwise_def)
  moreover have "b - 1 \<in> iv (a, b)" "b - 1 \<in> iv (a', b)"
    using fl_inv_bounds [OF assms(1)] assms(2,3) by (auto simp: iv_def)
  ultimately show False by auto
qed

lemma last_such_unique:
  assumes "x \<in> set xs" "P x" "\<And>y. y \<in> set xs \<Longrightarrow> P y \<Longrightarrow> y = x"
  shows "last_such P xs None = Some x"
proof (cases "last_such P xs None")
  case None
  then show ?thesis using assms(1,2) by (auto simp: last_such_None)
next
  case (Some y)
  then show ?thesis using last_such_SomeD [OF Some] assms(3) [of y] by simp
qed

lemma merge_free_None_iff:
  assumes inv: "fl_inv ys"
  shows "merge_free s e ys = None \<longleftrightarrow> (\<exists>l b a r. ys = l @ (e, b) # (a, s) # r)"
proof
  assume "merge_free s e ys = None"
  then obtain d i where di: "last_such (\<lambda>r. fst r = e) ys None = Some d" "last_such (\<lambda>r. snd r = s) ys None = Some i"
      "(d, i) \<in> set (zip ys (tl ys))"
    by (auto simp: merge_free_def split: option.splits if_splits)
  then have "fst d = e" "snd i = s" using last_such_SomeD [OF di(1)] last_such_SomeD [OF di(2)] by simp_all
  then show "\<exists>l b a r. ys = l @ (e, b) # (a, s) # r"
    using di(3) by (metis adjacent_iff prod.collapse)
next
  assume "\<exists>l b a r. ys = l @ (e, b) # (a, s) # r"
  then obtain l b a r where ys: "ys = l @ (e, b) # (a, s) # r" by blast
  then have mem: "(e, b) \<in> set ys" "(a, s) \<in> set ys" by auto
  have ue: "y = (e, b)" if "y \<in> set ys" "fst y = e" for y
    using fl_inv_same_start [OF inv mem(1), of "snd y"] that by (cases y) auto
  have us: "y = (a, s)" if "y \<in> set ys" "snd y = s" for y
    using fl_inv_same_end [OF inv mem(2), of "fst y"] that by (cases y) auto
  have "last_such (\<lambda>r. fst r = e) ys None = Some (e, b)"
    by (rule last_such_unique [OF mem(1) _ ue]) simp_all
  moreover have "last_such (\<lambda>r. snd r = s) ys None = Some (a, s)"
    by (rule last_such_unique [OF mem(2) _ us]) simp_all
  moreover have "((e, b), (a, s)) \<in> set (zip ys (tl ys))" unfolding adjacent_iff by (intro exI) (rule ys)
  ultimately show "merge_free s e ys = None" by (simp add: merge_free_def)
qed

section \<open>Properties\<close>

text \<open>A free list with the regions \<open>[30, 40)\<close> and \<open>[10, 20)\<close>.\<close>

definition sample_heap :: rg_heap where
  "sample_heap =
     \<lparr>rg_cells = [0 \<mapsto> \<lparr>rg_start = 30, rg_end = 40, rg_next = Some 1\<rparr>,
                 1 \<mapsto> \<lparr>rg_start = 10, rg_end = 20, rg_next = Some 2\<rparr>,
                 2 \<mapsto> \<lparr>rg_start = 0, rg_end = 0, rg_next = None\<rparr>],
      rg_brk = 3, rg_fresh = \<lparr>rg_start = 0, rg_end = 0, rg_next = None\<rparr>\<rparr>"

lemma sample_heap_list: "freelist0 sample_heap (Some 0) [0, 1] 2 [(30, 40), (10, 20)]"
  by (simp add: sample_heap_def freelist0_def freelist_def rg_val_def)

lemma sample_heap_inv: "fl_inv [(30, 40), (10, 20)]" "fl_small [(30, 40), (10, 20)]"
  by (simp_all add: fl_inv_Cons iv_def fl_small_def)

text \<open>
  C26: \<open>get_free_vmrg_area\<close>'s search is first fit: it takes the first \<open>sz\<close> bytes of the first
  free region that holds them, so the region returned was free, the free bytes are those
  before without it, and the list stays one of disjoint regions; if no region is large
  enough it returns -1 and changes nothing.
\<close>

theorem get_free_rg_first_fit:
  assumes "freelist0 h p bs z ys" "fl_inv ys" "fl_small ys" "0 < sz" "sz < 2 ^ 31"
  shows "case first_fit sz (ys @ [(0, 0)]) of
      None \<Rightarrow> get_free_rg h p sz = Inr (-1, Some (u64 (-1), u64 (-1)), h)
    | Some (r, zs) \<Rightarrow> \<exists>h' bs' z' ys'. get_free_rg h p sz = Inr (if fst r = u64 (-1) then -1 else 0, Some r, h') \<and>
        freelist0 h' p bs' z' ys' \<and> fl_inv ys' \<and> snd r = fst r + sz \<and>
        iv r \<subseteq> bytes ys \<and> bytes ys' = bytes ys - iv r"
proof (cases "first_fit sz (ys @ [(0, 0)])")
  case None
  then show ?thesis
    using get_free_rg_refines [of h p "bs @ [z]" "ys @ [(0, 0)]" sz] assms(1) by (simp add: freelist0_def)
next
  case (Some x)
  then obtain r zs where f: "first_fit sz (ys @ [(0, 0)]) = Some (r, zs)" by (cases x) auto
  obtain ys' where ys': "zs = ys' @ [(0, 0)]" "fl_inv ys'" "snd r = fst r + sz" "iv r \<subseteq> bytes ys"
      "bytes ys' = bytes ys - iv r"
    using first_fit_bytes [OF assms(2-5) f] by blast
  obtain h' as' where "get_free_rg h p sz = Inr (if fst r = u64 (-1) then -1 else 0, Some r, h')" "freelist h' p as' zs"
    using get_free_rg_refines [of h p "bs @ [z]" "ys @ [(0, 0)]" sz] assms(1) f by (auto simp: freelist0_def)
  moreover have "length as' = Suc (length ys')" using calculation(2) ys'(1) by (metis freelist_def length_append_singleton length_map)
  moreover obtain bs' z' where "as' = bs' @ [z']" using calculation(3) by (cases as' rule: rev_cases) auto
  ultimately show ?thesis using f ys' by (auto simp: freelist0_def)
qed

theorem get_free_rg_first_fit_witness:
  "\<exists>h' bs' z' ys'. get_free_rg sample_heap (Some 0) 6 = Inr (0, Some (30, 36), h') \<and>
    freelist0 h' (Some 0) bs' z' ys' \<and> bytes ys' = bytes [(30, 40), (10, 20)] - iv (30, 36)"
  using get_free_rg_first_fit [OF sample_heap_list sample_heap_inv, of 6] by (auto simp: u64_def)

text \<open>
  C27: releasing a region puts exactly its bytes into the free list and merges it with the
  free regions next to it, keeping the list one of disjoint nonempty regions, unless a
  freed node is used on the way.
\<close>

theorem enlist_freerg_merges:
  assumes "freelist0 h p bs z ys" "fl_inv ys" "0 \<le> s" "s < e" "iv (s, e) \<inter> bytes ys = {}"
  shows "case merge_free s e ys of
      None \<Rightarrow> enlist_freerg h p s e = Inl WildDeref
    | Some (r, ys') \<Rightarrow> \<exists>p' h' bs' z'. enlist_freerg h p s e = Inr (r, p', h') \<and>
        freelist0 h' p' bs' z' ys' \<and> fl_inv ys' \<and> bytes ys' = bytes ys \<union> iv (s, e)"
proof -
  have ok: "fl_ok ys" using assms(2) by (simp add: fl_inv_def)
  show ?thesis
    using enlist_freerg_refines [OF assms(1) ok assms(4)] merge_free_bytes [OF assms(2-5)]
    by (auto split: option.splits)
qed

theorem enlist_freerg_merges_witness:
  "\<exists>p' h' bs' z'. enlist_freerg sample_heap (Some 0) 20 25 = Inr (1, p', h') \<and>
    freelist0 h' p' bs' z' [(30, 40), (10, 25)]"
proof -
  have "iv (20, 25) \<inter> bytes [(30, 40), (10, 20)] = {}" by (auto simp: iv_def)
  then show ?thesis
    using enlist_freerg_merges [OF sample_heap_list sample_heap_inv(1), of 20 25] by (auto simp: merge_free_def)
qed

text \<open>
  C28: releasing \<open>[s, e)\<close> dereferences a freed node exactly when the free region that starts
  at \<open>e\<close> stands directly before the one that ends at \<open>s\<close> in the list: deleting the first
  node moves the second one, and the code then deletes it at its old address.
\<close>

theorem release_use_after_free:
  assumes "freelist0 h p bs z ys" "fl_inv ys" "s < e"
  shows "enlist_freerg h p s e = Inl WildDeref \<longleftrightarrow> (\<exists>l b a r. ys = l @ (e, b) # (a, s) # r)"
proof -
  have ok: "fl_ok ys" using assms(2) by (simp add: fl_inv_def)
  show ?thesis
    using enlist_freerg_refines [OF assms(1) ok assms(3)] merge_free_None_iff [OF assms(2), of s e]
    by (auto split: option.splits)
qed

theorem release_use_after_free_witness:
  "enlist_freerg sample_heap (Some 0) 20 30 = Inl WildDeref"
  using release_use_after_free [OF sample_heap_list sample_heap_inv(1), of 20 30] by fastforce

end
