(* ===== verification/OS_MM.thy ===== *)
theory OS_MM
  imports OS_Memphy OS_Regions
begin

text \<open>
  \<open>src/mm.c\<close>: the page list, mapping frames into the page table, allocating frames from RAM
  and swap, copying a page between devices, and the initialisation of a process's memory
  description. \<open>get_vma_by_num\<close> of \<open>src/mm-vm.c\<close> is here because \<open>print_pgtbl\<close> calls it.
  A function that works on the caller takes and returns a \<open>vmctx\<close>.
\<close>

section \<open>The page table and the page list\<close>

definition pgd_get :: "mm_struct \<Rightarrow> int \<Rightarrow> pte res" where
  "pgd_get mm i = (if 0 \<le> i \<and> i < PAGING_MAX_PGN then Inr (pgd mm i) else Inl OutOfBounds)"

definition pgd_set :: "mm_struct \<Rightarrow> int \<Rightarrow> pte \<Rightarrow> mm_struct res" where
  "pgd_set mm i p =
     (if 0 \<le> i \<and> i < PAGING_MAX_PGN then Inr (mm\<lparr>pgd := (pgd mm)(i := p)\<rparr>) else Inl OutOfBounds)"

definition enlist_pgn_node :: "int clist \<Rightarrow> int \<Rightarrow> int clist" where
  "enlist_pgn_node plist pgn = CNode pgn plist"

text \<open>
  \<open>delist_pgn_node\<close> walks to the last node, frees it and returns its page number. The link
  that pointed to it is not cleared: it dangles afterwards.
\<close>

fun delist_walk :: "int \<Rightarrow> int clist \<Rightarrow> (int \<times> int clist) res" where
  "delist_walk pgn CNull = Inr (pgn, CWild)"
| "delist_walk pgn CWild = Inl WildDeref"
| "delist_walk pgn (CNode q r) = rbind (delist_walk q r) (\<lambda>(v, r'). Inr (v, CNode pgn r'))"

definition delist_pgn_node :: "int clist \<Rightarrow> (int \<times> int clist) res" where
  "delist_pgn_node l =
     (case l of CNull \<Rightarrow> Inr (-1, CNull) | CWild \<Rightarrow> Inl WildDeref | CNode p r \<Rightarrow> delist_walk p r)"

section \<open>Memory areas\<close>

text \<open>
  The loop of \<open>get_vma_by_num\<close>. Its counter \<open>vmait\<close> is never incremented. The result is
  the position of the area in \<open>mmap\<close>.
\<close>

fun vma_walk :: "int \<Rightarrow> int \<Rightarrow> nat \<Rightarrow> 'a list \<Rightarrow> nat option" where
  "vma_walk vmait vmaid k [] = None"
| "vma_walk vmait vmaid k (v # vs) =
     (if vmait < vmaid then vma_walk vmait vmaid (k + 1) vs else Some k)"

definition get_vma_by_num :: "mm_struct \<Rightarrow> int \<Rightarrow> nat option" where
  "get_vma_by_num mm vmaid = (if mmap mm = [] then None else vma_walk 0 vmaid 0 (mmap mm))"

text \<open>Reading and writing an area through the pointer \<open>get_vma_by_num\<close> returned.\<close>

definition vma_deref :: "mm_struct \<Rightarrow> nat option \<Rightarrow> vm_area_struct res" where
  "vma_deref mm p = (case p of None \<Rightarrow> Inl NullDeref | Some k \<Rightarrow> arr_get (mmap mm) k)"

definition vma_store :: "mm_struct \<Rightarrow> nat option \<Rightarrow> vm_area_struct \<Rightarrow> mm_struct res" where
  "vma_store mm p v =
     (case p of None \<Rightarrow> Inl NullDeref
      | Some k \<Rightarrow> rbind (arr_set (mmap mm) k v) (\<lambda>m. Inr (mm\<lparr>mmap := m\<rparr>)))"

section \<open>Mapping\<close>

text \<open>
  The two loops of \<open>vmap_page_range\<close>. \<open>pgit\<close> is incremented before the page is enlisted.
\<close>

primrec vmap_ram_loop :: "int clist \<Rightarrow> mm_struct \<Rightarrow> int \<Rightarrow> int \<Rightarrow> (mm_struct \<times> int) res" where
  "vmap_ram_loop CNull mm pgn pgit = Inr (mm, pgit)"
| "vmap_ram_loop CWild mm pgn pgit = Inl WildDeref"
| "vmap_ram_loop (CNode fpn r) mm pgn pgit =
     rbind (pgd_get mm (pgn + pgit)) (\<lambda>p.
     rbind (pgd_set mm (pgn + pgit) (pte_set_fpn p fpn)) (\<lambda>mm.
     (let pgit = pgit + 1
      in vmap_ram_loop r (mm\<lparr>fifo_pgn := enlist_pgn_node (fifo_pgn mm) (pgn + pgit)\<rparr>) pgn pgit)))"

primrec vmap_swp_loop :: "int clist \<Rightarrow> mm_struct \<Rightarrow> int \<Rightarrow> int \<Rightarrow> (mm_struct \<times> int) res" where
  "vmap_swp_loop CNull mm pgn pgit = Inr (mm, pgit)"
| "vmap_swp_loop CWild mm pgn pgit = Inl WildDeref"
| "vmap_swp_loop (CNode fpn r) mm pgn pgit =
     rbind (pgd_get mm (pgn + pgit)) (\<lambda>p.
     rbind (pgd_set mm (pgn + pgit) (pte_set_swap p 0 fpn)) (\<lambda>mm.
     (let pgit = pgit + 1
      in vmap_swp_loop r (mm\<lparr>fifo_pgn := enlist_pgn_node (fifo_pgn mm) (pgn + pgit)\<rparr>) pgn pgit)))"

definition vmap_page_range ::
  "vmctx \<Rightarrow> int \<Rightarrow> int clist \<Rightarrow> int clist \<Rightarrow> (int \<times> vmctx) res" where
  "vmap_page_range c addr frames frm_lst_swap =
     (let pgn = PAGING_PGN addr
      in rbind (vmap_ram_loop frames (c_mm c) pgn 0) (\<lambda>(mm, pgit).
         rbind (vmap_swp_loop frm_lst_swap mm pgn pgit) (\<lambda>(mm, _).
         Inr (0, c\<lparr>c_mm := mm\<rparr>))))"

section \<open>Allocating frames\<close>

function alloc_pages_loop ::
  "int \<Rightarrow> int \<Rightarrow> vmctx \<Rightarrow> int clist \<Rightarrow> int clist \<Rightarrow> (int \<times> int clist \<times> int clist \<times> vmctx) res" where
  "alloc_pages_loop pgit req c frm swp =
     (if pgit < req then
        rbind (MEMPHY_get_freefp (c_mram c)) (\<lambda>(r, f, m).
          if r = 0 then
            (case f of None \<Rightarrow> Inl UninitRead
             | Some fpn \<Rightarrow>
                 alloc_pages_loop (pgit + 1) req (c\<lparr>c_mram := snd (MEMPHY_put_usedfp m fpn)\<rparr>)
                   (CNode fpn frm) swp)
          else
            rbind (MEMPHY_get_freefp (c_mswp c)) (\<lambda>(r, f, m).
              if r = 0 then
                (case f of None \<Rightarrow> Inl UninitRead
                 | Some fpn \<Rightarrow>
                     alloc_pages_loop (pgit + 1) req (c\<lparr>c_mswp := snd (MEMPHY_put_usedfp m fpn)\<rparr>)
                       frm (CNode fpn swp))
              else Inr (-3000, frm, swp, c)))
      else Inr (0, frm, swp, c))"
  by pat_completeness auto
termination by (relation "measure (\<lambda>(i, n, c, f, s). nat (n - i))") auto

declare alloc_pages_loop.simps [simp del]

definition alloc_pages_range ::
  "vmctx \<Rightarrow> int \<Rightarrow> int clist \<Rightarrow> int clist \<Rightarrow> (int \<times> int clist \<times> int clist \<times> vmctx) res" where
  "alloc_pages_range c req_pgnum frm_lst frm_lst_swap =
     alloc_pages_loop 0 req_pgnum c frm_lst frm_lst_swap"

definition vm_map_ram :: "vmctx \<Rightarrow> int \<Rightarrow> int \<Rightarrow> (int \<times> vmctx) res" where
  "vm_map_ram c mapstart incpgnum =
     rbind (alloc_pages_range c incpgnum CNull CNull) (\<lambda>(ret_alloc, frm_lst, frm_lst_swap, c).
       if ret_alloc < 0 \<and> ret_alloc \<noteq> -3000 then Inr (-1, c)
       else if ret_alloc = -3000 then Inr (-1, c)
       else rbind (vmap_page_range c mapstart frm_lst frm_lst_swap) (\<lambda>(_, c). Inr (0, c)))"

section \<open>Copying a page\<close>

text \<open>
  The loop body of \<open>swap_cp_page\<close> (\<open>__swap_cp_page\<close>) for the remaining cell indices. An
  address that does not fit an \<open>int\<close> lies outside the device, so the bounds check of the
  storage covers the overflow of the product as well.
\<close>

primrec swap_cp_cells ::
  "int list \<Rightarrow> memphy_struct \<Rightarrow> int \<Rightarrow> memphy_struct \<Rightarrow> int \<Rightarrow> (memphy_struct \<times> memphy_struct) res" where
  "swap_cp_cells [] src srcfpn dst dstfpn = Inr (src, dst)"
| "swap_cp_cells (cellidx # ks) src srcfpn dst dstfpn =
     rbind (MEMPHY_read (Some src) (srcfpn * PAGING_PAGESZ + cellidx)) (\<lambda>(_, data, src').
       case (data, src') of
         (Some data, Some src') \<Rightarrow>
           rbind (MEMPHY_write (Some dst) (dstfpn * PAGING_PAGESZ + cellidx) data) (\<lambda>(_, dst').
             case dst' of None \<Rightarrow> Inl NullDeref
             | Some dst' \<Rightarrow> swap_cp_cells ks src' srcfpn dst' dstfpn)
       | _ \<Rightarrow> Inl UninitRead)"

definition swap_cp_page ::
  "memphy_struct \<Rightarrow> int \<Rightarrow> memphy_struct \<Rightarrow> int \<Rightarrow> (int \<times> memphy_struct \<times> memphy_struct) res" where
  "swap_cp_page mpsrc srcfpn mpdst dstfpn =
     rbind (swap_cp_cells [0..PAGING_PAGESZ - 1] mpsrc srcfpn mpdst dstfpn) (\<lambda>(src, dst).
     Inr (0, src, dst))"

section \<open>Initialisation\<close>

text \<open>
  \<open>mm0\<close> is the malloc'ed struct with indeterminate contents (its \<open>pgd\<close> stands for the contents
  of the malloc'ed page table), \<open>junk\<close> the indeterminate list head of the malloc'ed area.
\<close>

definition init_mm :: "mm_struct \<Rightarrow> rg_ptr \<Rightarrow> (int \<times> mm_struct) res" where
  "init_mm mm0 junk =
     (let vma = \<lparr>vm_id = 1, vm_start = 0, vm_end = 0, sbrk = 0, vm_freerg_list = junk\<rparr>
      in rbind (init_vm_rg (rgs mm0) (vm_start vma) (vm_end vma)) (\<lambda>(first_rg, h).
         rbind (enlist_vm_rg_node h (vm_freerg_list vma) first_rg) (\<lambda>(_, l, h).
         Inr (0, mm0\<lparr>rgs := h, mmap := [vma\<lparr>vm_freerg_list := l\<rparr>]\<rparr>))))"

section \<open>Printing\<close>

text \<open>Each function returns its result and the values it prints, one per line.\<close>

primrec print_clist :: "int clist \<Rightarrow> int list res" where
  "print_clist CNull = Inr []"
| "print_clist CWild = Inl WildDeref"
| "print_clist (CNode x r) = rbind (print_clist r) (\<lambda>out. Inr (x # out))"

definition print_list_fp :: "int clist \<Rightarrow> (int \<times> int list) res" where
  "print_list_fp fp =
     (if fp = CNull then Inr (-1, []) else rbind (print_clist fp) (\<lambda>out. Inr (0, out)))"

definition print_list_pgn :: "int clist \<Rightarrow> (int \<times> int list) res" where
  "print_list_pgn ip =
     (if ip = CNull then Inr (-1, []) else rbind (print_clist ip) (\<lambda>out. Inr (0, out)))"

fun print_rg_loop :: "nat \<Rightarrow> rg_heap \<Rightarrow> rg_ptr \<Rightarrow> (int \<times> int) list res" where
  "print_rg_loop fuel h None = Inr []"
| "print_rg_loop 0 h (Some a) = Inl Diverges"
| "print_rg_loop (Suc fuel) h (Some a) =
     rbind (rg_deref h (Some a)) (\<lambda>n.
     rbind (print_rg_loop fuel h (rg_next n)) (\<lambda>out. Inr ((rg_start n, rg_end n) # out)))"

definition print_list_rg :: "rg_heap \<Rightarrow> rg_ptr \<Rightarrow> (int \<times> (int \<times> int) list) res" where
  "print_list_rg h rg =
     (if rg = None then Inr (-1, []) else rbind (print_rg_loop (rg_brk h) h rg) (\<lambda>out. Inr (0, out)))"

definition print_list_vma :: "vm_area_struct list \<Rightarrow> int \<times> (int \<times> int) list" where
  "print_list_vma vs = (if vs = [] then (-1, []) else (0, map (\<lambda>v. (vm_start v, vm_end v)) vs))"

fun print_pgtbl_loop :: "mm_struct \<Rightarrow> int list \<Rightarrow> (int \<times> pte) list res" where
  "print_pgtbl_loop mm [] = Inr []"
| "print_pgtbl_loop mm (pgit # ks) =
     rbind (pgd_get mm pgit) (\<lambda>p.
     rbind (print_pgtbl_loop mm ks) (\<lambda>out. Inr ((pgit * 4, p) # out)))"

definition print_pgtbl :: "mm_struct \<Rightarrow> int \<Rightarrow> int \<Rightarrow> (int \<times> int \<times> (int \<times> pte) list) res" where
  "print_pgtbl mm st en =
     rbind (if u32 en = u32 (-1)
            then rbind (vma_deref mm (get_vma_by_num mm 0)) (\<lambda>v. Inr (u32 (vm_end v)))
            else Inr (u32 en)) (\<lambda>en.
     rbind (print_pgtbl_loop mm [PAGING_PGN st..PAGING_PGN en - 1]) (\<lambda>out.
     Inr (0, en, out)))"

section \<open>Copying a page moves its bytes and nothing else\<close>

lemma write_block_storage_only:
  "rdmflg m \<Longrightarrow> write_block mp_write m a vs = Inr m' \<Longrightarrow> \<exists>st. m' = m\<lparr>storage := st\<rparr>"
proof (induction vs arbitrary: m a)
  case Nil
  then show ?case by (auto intro!: exI [of _ "storage m"])
next
  case (Cons v vs)
  then obtain m1 where m1: "mp_write m a v = Inr m1" "write_block mp_write m1 (a + 1) vs = Inr m'"
    by (auto simp: rbind_eq_Inr)
  then obtain st where "m1 = m\<lparr>storage := st\<rparr>"
    using Cons.prems(1) by (auto simp: mp_write_rdm storage_set_def split: if_splits)
  with Cons.IH [OF _ m1(2)] Cons.prems(1) show ?case by auto
qed

lemma swap_cp_cells_block:
  assumes "rdmflg src" "frame_in src sf"
  shows "rdmflg dst \<Longrightarrow> 0 \<le> i \<Longrightarrow> i \<le> PAGING_PAGESZ \<Longrightarrow> frame_in dst df \<Longrightarrow>
    swap_cp_cells [i..PAGING_PAGESZ - 1] src sf dst df =
    rbind (write_block mp_write dst (df * PAGING_PAGESZ + i)
            (map (\<lambda>k. storage src (sf * PAGING_PAGESZ + k)) [i..PAGING_PAGESZ - 1]))
          (\<lambda>dst'. Inr (src, dst'))"
proof (induction "nat (PAGING_PAGESZ - i)" arbitrary: i dst)
  case 0
  then show ?case by simp
next
  case (Suc n)
  let ?z = PAGING_PAGESZ
  have lt: "i < ?z" using Suc.hyps(2) by simp
  have up: "[i..?z - 1] = i # [i + 1..?z - 1]" using lt by (simp add: upto_rec1)
  have in_src: "0 \<le> sf * ?z + i" "sf * ?z + i < maxsz src"
    and in_dst: "0 \<le> df * ?z + i" "df * ?z + i < maxsz dst"
    using assms(2) Suc.prems lt by (auto simp: frame_in_def PAGING_PAGESZ_def)
  let ?d = "dst\<lparr>storage := (storage dst)(df * ?z + i := storage src (sf * ?z + i))\<rparr>"
  have "swap_cp_cells [i..?z - 1] src sf dst df = swap_cp_cells [i + 1..?z - 1] src sf ?d df"
    unfolding up using assms in_src in_dst Suc.prems
    by (simp add: MEMPHY_read_def MEMPHY_write_def storage_get_def storage_set_def)
  moreover have "mp_write dst (df * ?z + i) (storage src (sf * ?z + i)) = Inr ?d"
    using Suc.prems in_dst by (simp add: mp_write_rdm storage_set_def)
  ultimately show ?case
    using Suc.hyps(1) [of "i + 1" ?d] Suc.hyps(2) Suc.prems lt by (simp add: up add.assoc)
qed

theorem swap_cp_page_copies:
  assumes "rdmflg src" "rdmflg dst" "frame_in src sf" "frame_in dst df"
  shows "\<exists>dst' st. swap_cp_page src sf dst df = Inr (0, src, dst') \<and> dst' = dst\<lparr>storage := st\<rparr> \<and>
    (\<forall>a. mp_read dst' a =
      (if df * PAGING_PAGESZ \<le> a \<and> a < (df + 1) * PAGING_PAGESZ
       then mp_read src (sf * PAGING_PAGESZ + (a - df * PAGING_PAGESZ)) else mp_read dst a))"
proof -
  let ?z = PAGING_PAGESZ
  let ?vs = "map (\<lambda>k. storage src (sf * ?z + k)) [0..?z - 1]"
  have z: "?z = 256" by (simp add: PAGING_PAGESZ_def)
  have len: "int (length ?vs) = ?z" by (simp add: z)
  have "{df * ?z ..< df * ?z + int (length ?vs)} \<subseteq> {0 ..< maxsz dst}"
    using assms(4) unfolding len by (auto simp: frame_in_def z)
  note sub = this
  then obtain dst' where w: "write_block mp_write dst (df * ?z) ?vs = Inr dst'"
    using mem.write_block_defined [of dst "df * ?z" ?vs] assms(2) by auto
  have cp: "swap_cp_page src sf dst df = Inr (0, src, dst')"
    using swap_cp_cells_block [OF assms(1,3,2), of 0 df] assms(4) w
    by (simp add: swap_cp_page_def z)
  have nth: "?vs ! nat (a - df * ?z) = storage src (sf * ?z + (a - df * ?z))"
    if "df * ?z \<le> a" "a < (df + 1) * ?z" for a
  proof -
    have "nat (a - df * ?z) < length [0..?z - 1]" using that by (simp add: z)
    then show ?thesis using that by (simp add: z)
  qed
  have "mp_read dst' a = (if df * ?z \<le> a \<and> a < (df + 1) * ?z
      then mp_read src (sf * ?z + (a - df * ?z)) else mp_read dst a)" for a
  proof -
    have lim: "(df + 1) * ?z = df * ?z + int (length ?vs)" unfolding len by (simp add: z)
    have "mp_read src (sf * ?z + (a - df * ?z)) = Inr (storage src (sf * ?z + (a - df * ?z)))"
      if "df * ?z \<le> a" "a < (df + 1) * ?z"
      using that assms(1,3) by (auto simp: mp_read_rdm storage_get_def frame_in_def z)
    then show ?thesis
      using mem.read_write_block_all [OF assms(2) sub w, of a] nth [of a] unfolding lim by auto
  qed
  then show ?thesis using cp write_block_storage_only [OF assms(2) w] by blast
qed

section \<open>What the mapping loops write\<close>

definition map_run :: "(pte \<Rightarrow> int \<Rightarrow> pte) \<Rightarrow> (int \<Rightarrow> pte) \<Rightarrow> int \<Rightarrow> int list \<Rightarrow> (int \<Rightarrow> pte)" where
  "map_run set_pte t k fs =
     (\<lambda>i. if k \<le> i \<and> i < k + int (length fs) then set_pte (t i) (fs ! nat (i - k)) else t i)"

lemma map_run_Nil [simp]: "map_run f t k [] = t"
  by (rule ext) (auto simp: map_run_def)

lemma map_run_Cons:
  "map_run f (t(k := f (t k) x)) (k + 1) xs = map_run f t k (x # xs)"
proof
  fix i
  show "map_run f (t(k := f (t k) x)) (k + 1) xs i = map_run f t k (x # xs) i"
    by (cases "i = k") (auto simp: map_run_def nth_Cons' nat_diff_distrib' intro!: arg_cong [of _ _ "\<lambda>j. f (t i) (xs ! j)"])
qed

text \<open>Pages \<open>k + 1\<close>, \dots, \<open>k + n\<close> pushed in front of the page list, the last one first.\<close>

primrec track :: "int \<Rightarrow> nat \<Rightarrow> int clist \<Rightarrow> int clist" where
  "track k 0 l = l"
| "track k (Suc n) l = track (k + 1) n (CNode (k + 1) l)"

lemma vmap_ram_loop_eq:
  "0 \<le> pgn + pgit \<Longrightarrow> pgn + pgit + int (length fs) \<le> PAGING_MAX_PGN \<Longrightarrow>
     vmap_ram_loop (clist_of fs) m pgn pgit =
       Inr (m\<lparr>pgd := map_run pte_set_fpn (pgd m) (pgn + pgit) fs,
              fifo_pgn := track (pgn + pgit) (length fs) (fifo_pgn m)\<rparr>, pgit + int (length fs))"
proof (induction fs arbitrary: m pgit)
  case (Cons f fs)
  let ?m = "m\<lparr>pgd := (pgd m)(pgn + pgit := pte_set_fpn (pgd m (pgn + pgit)) f),
              fifo_pgn := CNode (pgn + (pgit + 1)) (fifo_pgn m)\<rparr>"
  have "vmap_ram_loop (clist_of (f # fs)) m pgn pgit = vmap_ram_loop (clist_of fs) ?m pgn (pgit + 1)"
    using Cons.prems by (simp add: pgd_get_def pgd_set_def enlist_pgn_node_def Let_def)
  then show ?case
    using Cons.IH [of "pgit + 1" ?m] Cons.prems
      map_run_Cons [of pte_set_fpn "pgd m" "pgn + pgit" f fs]
    by (simp add: add.assoc fun_upd_def)
qed simp

lemma vmap_swp_loop_eq:
  "0 \<le> pgn + pgit \<Longrightarrow> pgn + pgit + int (length fs) \<le> PAGING_MAX_PGN \<Longrightarrow>
     vmap_swp_loop (clist_of fs) m pgn pgit =
       Inr (m\<lparr>pgd := map_run (\<lambda>p. pte_set_swap p 0) (pgd m) (pgn + pgit) fs,
              fifo_pgn := track (pgn + pgit) (length fs) (fifo_pgn m)\<rparr>, pgit + int (length fs))"
proof (induction fs arbitrary: m pgit)
  case (Cons f fs)
  let ?m = "m\<lparr>pgd := (pgd m)(pgn + pgit := pte_set_swap (pgd m (pgn + pgit)) 0 f),
              fifo_pgn := CNode (pgn + (pgit + 1)) (fifo_pgn m)\<rparr>"
  have "vmap_swp_loop (clist_of (f # fs)) m pgn pgit = vmap_swp_loop (clist_of fs) ?m pgn (pgit + 1)"
    using Cons.prems by (simp add: pgd_get_def pgd_set_def enlist_pgn_node_def Let_def)
  then show ?case
    using Cons.IH [of "pgit + 1" ?m] Cons.prems
      map_run_Cons [of "\<lambda>p. pte_set_swap p 0" "pgd m" "pgn + pgit" f fs]
    by (simp add: add.assoc fun_upd_def)
qed simp

section \<open>Frame allocation\<close>

abbreviation free_of :: "memphy_struct \<Rightarrow> int list" where
  "free_of m \<equiv> celems (free_fp_list m)"

abbreviation used_of :: "memphy_struct \<Rightarrow> int list" where
  "used_of m \<equiv> celems (used_fp_list m)"

text \<open>Two states of a device that differ in their frame lists only.\<close>

definition same_bytes :: "memphy_struct \<Rightarrow> memphy_struct \<Rightarrow> bool" where
  "same_bytes m m' \<longleftrightarrow> storage m' = storage m \<and> maxsz m' = maxsz m \<and> rdmflg m' = rdmflg m"

lemma get_and_use_frame:
  assumes "frames_ok m" "free_of m = f # fs"
  shows "\<exists>m1. MEMPHY_get_freefp m = Inr (0, Some f, m1) \<and>
    (let m' = snd (MEMPHY_put_usedfp m1 f)
     in frames_ok m' \<and> free_of m' = fs \<and> used_of m' = f # used_of m \<and> same_bytes m m')"
  using assms fr.tk_Cons [OF assms] get_freefp_Cons [OF assms(2)]
  by (auto simp: take_frame_def same_bytes_def MEMPHY_put_usedfp_def)

lemma same_bytes_refl [simp]: "same_bytes m m"
  by (simp add: same_bytes_def)

lemma same_bytes_trans: "same_bytes a b \<Longrightarrow> same_bytes b c \<Longrightarrow> same_bytes a c"
  by (simp add: same_bytes_def)

text \<open>
  The state after \<open>n\<close> frames were taken: from RAM while it has free frames, then from swap.
\<close>

definition frames_taken :: "nat \<Rightarrow> vmctx \<Rightarrow> vmctx \<Rightarrow> bool" where
  "frames_taken n c c' \<longleftrightarrow>
     c_mm c' = c_mm c \<and> frames_ok (c_mram c') \<and> frames_ok (c_mswp c') \<and>
     same_bytes (c_mram c) (c_mram c') \<and> same_bytes (c_mswp c) (c_mswp c') \<and>
     (let R = free_of (c_mram c); S = free_of (c_mswp c); k = n - length R
      in free_of (c_mram c') = drop n R \<and> used_of (c_mram c') = rev (take n R) @ used_of (c_mram c) \<and>
         free_of (c_mswp c') = drop k S \<and> used_of (c_mswp c') = rev (take k S) @ used_of (c_mswp c))"

lemma frames_taken_0: "frames_ok (c_mram c) \<Longrightarrow> frames_ok (c_mswp c) \<Longrightarrow> frames_taken 0 c c"
  by (simp add: frames_taken_def)

lemma alloc_pages_loop_step:
  assumes ok: "frames_ok (c_mram c)" "frames_ok (c_mswp c)" and lt: "pgit < req"
  shows "free_of (c_mram c) = f # R \<Longrightarrow> \<exists>c1. frames_taken 1 c c1 \<and>
      alloc_pages_loop pgit req c frm swp = alloc_pages_loop (pgit + 1) req c1 (CNode f frm) swp"
    and "free_of (c_mram c) = [] \<Longrightarrow> free_of (c_mswp c) = f # S \<Longrightarrow> \<exists>c1. frames_taken 1 c c1 \<and>
      alloc_pages_loop pgit req c frm swp = alloc_pages_loop (pgit + 1) req c1 frm (CNode f swp)"
    and "free_of (c_mram c) = [] \<Longrightarrow> free_of (c_mswp c) = [] \<Longrightarrow>
      alloc_pages_loop pgit req c frm swp = Inr (-3000, frm, swp, c)"
proof -
  assume R: "free_of (c_mram c) = f # R"
  then obtain m1 where m1: "MEMPHY_get_freefp (c_mram c) = Inr (0, Some f, m1)"
      "let m' = snd (MEMPHY_put_usedfp m1 f)
       in frames_ok m' \<and> free_of m' = R \<and> used_of m' = f # used_of (c_mram c) \<and> same_bytes (c_mram c) m'"
    using get_and_use_frame [OF ok(1)] by blast
  let ?c = "c\<lparr>c_mram := snd (MEMPHY_put_usedfp m1 f)\<rparr>"
  have "frames_taken 1 c ?c" using m1(2) ok R by (simp add: frames_taken_def Let_def)
  moreover have "alloc_pages_loop pgit req c frm swp = alloc_pages_loop (pgit + 1) req ?c (CNode f frm) swp"
    using lt m1(1) by (subst alloc_pages_loop.simps) simp
  ultimately show "\<exists>c1. frames_taken 1 c c1 \<and>
      alloc_pages_loop pgit req c frm swp = alloc_pages_loop (pgit + 1) req c1 (CNode f frm) swp" by blast
next
  assume R: "free_of (c_mram c) = []" and S: "free_of (c_mswp c) = f # S"
  from S obtain m1 where m1: "MEMPHY_get_freefp (c_mswp c) = Inr (0, Some f, m1)"
      "let m' = snd (MEMPHY_put_usedfp m1 f)
       in frames_ok m' \<and> free_of m' = S \<and> used_of m' = f # used_of (c_mswp c) \<and> same_bytes (c_mswp c) m'"
    using get_and_use_frame [OF ok(2)] by blast
  let ?c = "c\<lparr>c_mswp := snd (MEMPHY_put_usedfp m1 f)\<rparr>"
  have "frames_taken 1 c ?c" using m1(2) ok R S by (simp add: frames_taken_def Let_def)
  moreover have "alloc_pages_loop pgit req c frm swp = alloc_pages_loop (pgit + 1) req ?c frm (CNode f swp)"
    using lt m1(1) get_freefp_Nil [OF ok(1) R] by (subst alloc_pages_loop.simps) simp
  ultimately show "\<exists>c1. frames_taken 1 c c1 \<and>
      alloc_pages_loop pgit req c frm swp = alloc_pages_loop (pgit + 1) req c1 frm (CNode f swp)" by blast
next
  assume "free_of (c_mram c) = []" "free_of (c_mswp c) = []"
  then show "alloc_pages_loop pgit req c frm swp = Inr (-3000, frm, swp, c)"
    using lt get_freefp_Nil [OF ok(1)] get_freefp_Nil [OF ok(2)]
    by (subst alloc_pages_loop.simps) simp
qed

lemma frames_taken_Suc:
  assumes "frames_taken 1 c c1" "frames_taken n c1 c'"
  shows "frames_taken (Suc n) c c'"
proof (cases "free_of (c_mram c)")
  case Nil
  then show ?thesis
    using assms by (cases "free_of (c_mswp c)")
      (auto simp: frames_taken_def Let_def intro: same_bytes_trans)
next
  case (Cons f R)
  then show ?thesis
    using assms by (auto simp: frames_taken_def Let_def intro: same_bytes_trans)
qed

lemma alloc_pages_loop_ok:
  assumes "frames_ok (c_mram c)" "frames_ok (c_mswp c)"
    and "n = nat (req - pgit)" "n \<le> length (free_of (c_mram c)) + length (free_of (c_mswp c))"
  shows "\<exists>c'. frames_taken n c c' \<and> alloc_pages_loop pgit req c (clist_of frm) (clist_of swp) =
    Inr (0, clist_of (rev (take n (free_of (c_mram c))) @ frm),
         clist_of (rev (take (n - length (free_of (c_mram c))) (free_of (c_mswp c))) @ swp), c')"
  using assms
proof (induction n arbitrary: pgit c frm swp)
  case 0
  then have "alloc_pages_loop pgit req c (clist_of frm) (clist_of swp) = Inr (0, clist_of frm, clist_of swp, c)"
    by (subst alloc_pages_loop.simps) simp
  then show ?case using 0 frames_taken_0 by auto
next
  case (Suc n)
  have lt: "pgit < req" and n: "n = nat (req - (pgit + 1))" using Suc.prems(3) by auto
  show ?case
  proof (cases "free_of (c_mram c)")
    case (Cons f R)
    then obtain c1 where c1: "frames_taken 1 c c1"
        "alloc_pages_loop pgit req c (clist_of frm) (clist_of swp) =
         alloc_pages_loop (pgit + 1) req c1 (clist_of (f # frm)) (clist_of swp)"
      using alloc_pages_loop_step(1) [OF Suc.prems(1,2) lt Cons] by force
    then show ?thesis
      using Suc.IH [of c1 "pgit + 1" "f # frm" swp] Suc.prems(4) n Cons frames_taken_Suc [OF c1(1)]
      by (auto simp: frames_taken_def Let_def)
  next
    case Nil
    then obtain f S where S: "free_of (c_mswp c) = f # S"
      using Suc.prems(4) by (cases "free_of (c_mswp c)") auto
    then obtain c1 where c1: "frames_taken 1 c c1"
        "alloc_pages_loop pgit req c (clist_of frm) (clist_of swp) =
         alloc_pages_loop (pgit + 1) req c1 (clist_of frm) (clist_of (f # swp))"
      using alloc_pages_loop_step(2) [OF Suc.prems(1,2) lt Nil S] by force
    then show ?thesis
      using Suc.IH [of c1 "pgit + 1" frm "f # swp"] Suc.prems(4) n Nil S frames_taken_Suc [OF c1(1)]
      by (auto simp: frames_taken_def Let_def)
  qed
qed

lemma alloc_pages_loop_oom:
  assumes "frames_ok (c_mram c)" "frames_ok (c_mswp c)"
    and "n = length (free_of (c_mram c)) + length (free_of (c_mswp c))" "int n < req - pgit"
  shows "\<exists>c' frm' swp'. frames_taken n c c' \<and>
    alloc_pages_loop pgit req c frm swp = Inr (-3000, frm', swp', c')"
  using assms
proof (induction n arbitrary: pgit c frm swp)
  case 0
  then show ?case
    using alloc_pages_loop_step(3) [of c pgit req frm swp] frames_taken_0 by auto
next
  case (Suc n)
  have lt: "pgit < req" using Suc.prems(4) by simp
  obtain c1 frm1 swp1 where c1: "frames_taken 1 c c1"
      "alloc_pages_loop pgit req c frm swp = alloc_pages_loop (pgit + 1) req c1 frm1 swp1"
    using alloc_pages_loop_step(1,2) [OF Suc.prems(1,2) lt] Suc.prems(3)
    by (cases "free_of (c_mram c)"; cases "free_of (c_mswp c)") (force, force, force, force)
  moreover have "frames_ok (c_mram c1)" "frames_ok (c_mswp c1)"
      "n = length (free_of (c_mram c1)) + length (free_of (c_mswp c1))"
    using c1(1) Suc.prems(3)
    by (cases "free_of (c_mram c)"; cases "free_of (c_mswp c)"; simp add: frames_taken_def Let_def)+
  ultimately show ?case
    using Suc.IH [of c1 "pgit + 1" frm1 swp1] Suc.prems(4) frames_taken_Suc [OF c1(1)] by auto
qed

section \<open>Mapping a range\<close>

text \<open>
  The memory description after \<open>n\<close> pages were mapped from page \<open>k\<close> on: RAM frames first,
  then swap frames, each list in the reverse order of its allocation.
\<close>

definition mapped :: "nat \<Rightarrow> int \<Rightarrow> vmctx \<Rightarrow> mm_struct" where
  "mapped n k c =
     (let m = c_mm c; R = rev (take n (free_of (c_mram c)));
          S = rev (take (n - length (free_of (c_mram c))) (free_of (c_mswp c)));
          k' = k + int (length R)
      in m\<lparr>pgd := map_run (\<lambda>p. pte_set_swap p 0) (map_run pte_set_fpn (pgd m) k R) k' S,
           fifo_pgn := track k' (length S) (track k (length R) (fifo_pgn m))\<rparr>)"

lemma vm_map_ram_ok:
  assumes ok: "frames_ok (c_mram c)" "frames_ok (c_mswp c)"
    and n: "0 \<le> n" "nat n \<le> length (free_of (c_mram c)) + length (free_of (c_mswp c))"
    and k: "PAGING_PGN mapstart + n \<le> PAGING_MAX_PGN"
  shows "\<exists>c1. frames_taken (nat n) c c1 \<and>
    vm_map_ram c mapstart n = Inr (0, c1\<lparr>c_mm := mapped (nat n) (PAGING_PGN mapstart) c\<rparr>)"
proof -
  let ?R = "rev (take (nat n) (free_of (c_mram c)))" and ?k = "PAGING_PGN mapstart"
  let ?S = "rev (take (nat n - length (free_of (c_mram c))) (free_of (c_mswp c)))"
  obtain c1 where c1: "frames_taken (nat n) c c1"
      "alloc_pages_range c n CNull CNull = Inr (0, clist_of ?R, clist_of ?S, c1)"
    using alloc_pages_loop_ok [OF ok _ n(2), of n 0 "[]" "[]"] by (auto simp: alloc_pages_range_def)
  have len: "length ?R + length ?S = nat n" using n by simp
  have mm: "c_mm c1 = c_mm c" using c1(1) by (simp add: frames_taken_def)
  have kb: "0 \<le> ?k" by (rule PAGING_PGN_bounds)
  have "?k + int (length ?R) + int (length ?S) \<le> PAGING_MAX_PGN"
    using k len n(1) by linarith
  then have "vmap_page_range c1 mapstart (clist_of ?R) (clist_of ?S) =
      Inr (0, c1\<lparr>c_mm := mapped (nat n) ?k c\<rparr>)"
    using kb by (simp add: vmap_page_range_def vmap_ram_loop_eq vmap_swp_loop_eq mm mapped_def Let_def)
  then show ?thesis using c1 by (auto simp: vm_map_ram_def)
qed

lemma vm_map_ram_oom:
  assumes ok: "frames_ok (c_mram c)" "frames_ok (c_mswp c)"
    and n: "int (length (free_of (c_mram c)) + length (free_of (c_mswp c))) < n"
  shows "\<exists>c'. frames_taken (length (free_of (c_mram c)) + length (free_of (c_mswp c))) c c' \<and>
    vm_map_ram c mapstart n = Inr (-1, c')"
  using alloc_pages_loop_oom [OF ok refl, of n 0 CNull CNull] n
  by (auto simp: vm_map_ram_def alloc_pages_range_def)

section \<open>The initial memory description\<close>

text \<open>
  With \<open>junk = None\<close> (the malloc'ed list head happens to be zero) the free list holds only
  its empty region. Otherwise the list continues at whatever the indeterminate head points to.
\<close>

lemma init_mm_ok:
  assumes "rg_cells (rgs mm0) = Map.empty"
  shows "\<exists>m a. init_mm mm0 None = Inr (0, m) \<and>
    mmap m = [\<lparr>vm_id = 1, vm_start = 0, vm_end = 0, sbrk = 0, vm_freerg_list = Some a\<rparr>] \<and>
    freelist0 (rgs m) (Some a) [] a [] \<and> pgd m = pgd mm0 \<and> symrgtbl m = symrgtbl mm0 \<and>
    fifo_pgn m = fifo_pgn mm0"
  using assms
  by (auto simp: init_mm_def init_vm_rg_def enlist_vm_rg_node_def rg_op_defs Let_def
      freelist0_def freelist_def rg_val_def)

section \<open>Looking up an area\<close>

lemma vma_walk_pos: "vmait < vmaid \<Longrightarrow> vma_walk vmait vmaid k vs = None"
  by (induction vs arbitrary: k) auto

lemma get_vma_by_num_0: "vmaid \<le> 0 \<Longrightarrow> mmap m = v # vs \<Longrightarrow> get_vma_by_num m vmaid = Some 0"
  by (simp add: get_vma_by_num_def)

lemma get_vma_by_num_pos: "0 < vmaid \<Longrightarrow> get_vma_by_num m vmaid = None"
  by (simp add: get_vma_by_num_def vma_walk_pos)

section \<open>Printing the page table\<close>

lemma print_pgtbl_loop_ok:
  "list_all (\<lambda>i. 0 \<le> i \<and> i < PAGING_MAX_PGN) ks \<Longrightarrow>
     print_pgtbl_loop mm ks = Inr (map (\<lambda>i. (i * 4, pgd mm i)) ks)"
  by (induction ks) (auto simp: pgd_get_def)

lemma print_pgtbl_all:
  assumes "mmap m = v # vs"
  shows "print_pgtbl m 0 (-1) =
    Inr (0, u32 (vm_end v), map (\<lambda>i. (i * 4, pgd m i)) [0..PAGING_PGN (u32 (vm_end v)) - 1])"
proof -
  have "list_all (\<lambda>i. 0 \<le> i \<and> i < PAGING_MAX_PGN) [0..PAGING_PGN (u32 (vm_end v)) - 1]"
    using PAGING_PGN_bounds [of "u32 (vm_end v)"] by (auto simp: list_all_iff)
  then show ?thesis
    using assms print_pgtbl_loop_ok
    by (simp add: print_pgtbl_def get_vma_by_num_def vma_deref_def arr_get_def PAGING_PGN_div)
qed

section \<open>Properties\<close>

text \<open>Devices whose frames \<open>fs\<close> are free, and a fresh memory description.\<close>

definition sample_dev :: "int \<Rightarrow> int list \<Rightarrow> memphy_struct" where
  "sample_dev sz fs =
     \<lparr>storage = \<lambda>_. 0, maxsz = sz, rdmflg = True, cursor = 0, free_fp_list = clist_of fs, used_fp_list = CNull\<rparr>"

definition sample_mm :: mm_struct where
  "sample_mm =
     \<lparr>pgd = \<lambda>_. 0,
      mmap = [\<lparr>vm_id = 1, vm_start = 0, vm_end = 0, sbrk = 0, vm_freerg_list = Some 0\<rparr>],
      symrgtbl = replicate 30 \<lparr>rg_start = 0, rg_end = 0, rg_next = None\<rparr>,
      fifo_pgn = CNull,
      rgs = \<lparr>rg_cells = [0 \<mapsto> \<lparr>rg_start = 0, rg_end = 0, rg_next = None\<rparr>], rg_brk = 1,
             rg_fresh = \<lparr>rg_start = 0, rg_end = 0, rg_next = None\<rparr>\<rparr>\<rparr>"

definition sample_ctx :: vmctx where
  "sample_ctx = \<lparr>c_mm = sample_mm, c_mram = sample_dev 1024 [0, 1, 2, 3], c_mswp = sample_dev 4096 [0, 1, 2, 3]\<rparr>"

lemma sample_dev_ok: "frames_ok (sample_dev sz fs) \<longleftrightarrow> distinct fs \<and> list_all (\<lambda>f. 0 \<le> f \<and> (f + 1) * 256 \<le> sz) fs"
  by (simp add: frames_ok_def sample_dev_def frame_in_def [abs_def] PAGING_PAGESZ_def)

lemma sample_free [simp]: "free_of (sample_dev sz fs) = fs"
  by (simp add: sample_dev_def)

text \<open>
  C29: mapping \<open>n\<close> pages when RAM and swap together have at least \<open>n\<close> free frames succeeds:
  the frames are taken from RAM first, then from swap, moved to the used lists, and the
  entries of the \<open>n\<close> pages point to them; no byte of a device changes.
\<close>

theorem map_pages_ok:
  assumes "frames_ok (c_mram c)" "frames_ok (c_mswp c)" "0 \<le> n"
    "nat n \<le> length (free_of (c_mram c)) + length (free_of (c_mswp c))"
    "PAGING_PGN mapstart + n \<le> PAGING_MAX_PGN"
  shows "\<exists>c1. frames_taken (nat n) c c1 \<and>
    vm_map_ram c mapstart n = Inr (0, c1\<lparr>c_mm := mapped (nat n) (PAGING_PGN mapstart) c\<rparr>)"
  by (rule vm_map_ram_ok [OF assms])

theorem map_pages_ok_witness:
  "\<exists>c1. frames_taken 5 sample_ctx c1 \<and>
    vm_map_ram sample_ctx 0 5 = Inr (0, c1\<lparr>c_mm := mapped 5 0 sample_ctx\<rparr>)"
  using map_pages_ok [of sample_ctx 5 0] by (simp add: sample_ctx_def sample_dev_ok PAGING_PGN_div)

text \<open>
  C30: when the frames do not suffice, \<open>vm_map_ram\<close> returns -1 with no page mapped, but every
  free frame of both devices is on the used list and none is given back.
\<close>

theorem map_pages_oom_leaks:
  assumes "frames_ok (c_mram c)" "frames_ok (c_mswp c)"
    "int (length (free_of (c_mram c)) + length (free_of (c_mswp c))) < n"
  shows "\<exists>c'. vm_map_ram c mapstart n = Inr (-1, c') \<and> c_mm c' = c_mm c \<and>
    free_of (c_mram c') = [] \<and> free_of (c_mswp c') = [] \<and>
    used_of (c_mram c') = rev (free_of (c_mram c)) @ used_of (c_mram c) \<and>
    used_of (c_mswp c') = rev (free_of (c_mswp c)) @ used_of (c_mswp c)"
  using vm_map_ram_oom [OF assms, of mapstart] by (auto simp: frames_taken_def Let_def)

theorem map_pages_oom_leaks_witness:
  "\<exists>c'. vm_map_ram sample_ctx 0 9 = Inr (-1, c') \<and> free_of (c_mram c') = [] \<and> free_of (c_mswp c') = []"
  using map_pages_oom_leaks [of sample_ctx 9 0] by (auto simp: sample_ctx_def sample_dev_ok)

end
