(* ===== verification/OS_VM.thy ===== *)
theory OS_VM
  imports OS_MM
begin

text \<open>
  \<open>src/mm-vm.c\<close>: allocation and release of regions, page faults and access to memory through
  the page table. A function returns its \<open>int\<close> result, its out-parameters and the caller's
  context. C names that start with two underscores are spelled \<open>vm_alloc\<close>, \<open>vm_free\<close>,
  \<open>vm_read\<close> and \<open>vm_write\<close>.
\<close>

section \<open>Regions of the symbol table\<close>

text \<open>
  \<open>get_symrg_byid\<close> returns the address of an entry, given by its index. The test admits the
  index one past the table.
\<close>

definition get_symrg_byid :: "int \<Rightarrow> nat option" where
  "get_symrg_byid rgid =
     (if rgid < 0 \<or> rgid > int PAGING_MAX_SYMTBL_SZ then None else Some (nat rgid))"

definition symrg_set :: "mm_struct \<Rightarrow> int \<Rightarrow> int \<Rightarrow> int \<Rightarrow> mm_struct res" where
  "symrg_set m rgid st en =
     (if rgid < 0 then Inl OutOfBounds
      else
        rbind (arr_get (symrgtbl m) (nat rgid)) (\<lambda>r.
        rbind (arr_set (symrgtbl m) (nat rgid) (r\<lparr>rg_start := st, rg_end := en\<rparr>)) (\<lambda>t.
        Inr (m\<lparr>symrgtbl := t\<rparr>))))"

definition enlist_vm_freerg_list :: "mm_struct \<Rightarrow> int \<Rightarrow> int \<Rightarrow> (int \<times> mm_struct) res" where
  "enlist_vm_freerg_list m st en =
     (let cur_vma = get_vma_by_num m 0
      in rbind (vma_deref m cur_vma) (\<lambda>v.
         rbind (enlist_freerg (rgs m) (vm_freerg_list v) st en) (\<lambda>(ret, l, h).
         rbind (vma_store (m\<lparr>rgs := h\<rparr>) cur_vma (v\<lparr>vm_freerg_list := l\<rparr>)) (\<lambda>m.
         Inr (ret, m)))))"

definition get_free_vmrg_area ::
  "vmctx \<Rightarrow> int \<Rightarrow> int \<Rightarrow> (int \<times> (int \<times> int) option \<times> vmctx) res" where
  "get_free_vmrg_area c vmaid sz =
     (let m = c_mm c
      in rbind (vma_deref m (get_vma_by_num m vmaid)) (\<lambda>v.
         rbind (get_free_rg (rgs m) (vm_freerg_list v) sz) (\<lambda>(ret, newrg, h).
         Inr (ret, newrg, c\<lparr>c_mm := m\<lparr>rgs := h\<rparr>\<rparr>))))"

section \<open>Growing the area\<close>

definition validate_overlap_vm_area :: "vmctx \<Rightarrow> int \<Rightarrow> int \<Rightarrow> int \<Rightarrow> int" where
  "validate_overlap_vm_area c vmaid vmastart vmaend = 0"

text \<open>The new region node is used by its caller only; it is a pair of limits here.\<close>

definition get_vm_area_node_at_brk ::
  "vmctx \<Rightarrow> int \<Rightarrow> int \<Rightarrow> int \<Rightarrow> ((int \<times> int) \<times> vmctx) res" where
  "get_vm_area_node_at_brk c vmaid sz alignedsz =
     (let m = c_mm c; cur_vma = get_vma_by_num m vmaid
      in rbind (vma_deref m cur_vma) (\<lambda>v.
         rbind (vma_store m cur_vma (v\<lparr>sbrk := u64 (sbrk v + sz)\<rparr>)) (\<lambda>m.
         Inr ((sbrk v, u64 (sbrk v + sz)), c\<lparr>c_mm := m\<rparr>))))"

definition inc_vma_limit :: "vmctx \<Rightarrow> int \<Rightarrow> int \<Rightarrow> (int \<times> vmctx) res" where
  "inc_vma_limit c vmaid origin_size =
     (let cur_vma = get_vma_by_num (c_mm c) vmaid
      in rbind (vma_deref (c_mm c) cur_vma) (\<lambda>v.
         (let inc_amt = s32 (u64 (PAGING_PAGE_ALIGNSZ (u64 (origin_size + sbrk v)) - PAGING_PAGE_ALIGNSZ (sbrk v)));
              incnumpage = c_div inc_amt PAGING_PAGESZ
          in rbind (get_vm_area_node_at_brk c vmaid origin_size inc_amt) (\<lambda>(area, c).
             rbind (vma_deref (c_mm c) cur_vma) (\<lambda>v.
             (let old_end = s32 (vm_end v)
              in if validate_overlap_vm_area c vmaid (fst area) (snd area) < 0 then Inr (-1, c)
                 else
                   rbind (vma_store (c_mm c) cur_vma (v\<lparr>vm_end := u64 (vm_end v + inc_amt)\<rparr>)) (\<lambda>m.
                   rbind (vm_map_ram (c\<lparr>c_mm := m\<rparr>) old_end incnumpage) (\<lambda>(r, c).
                   Inr (if r < 0 then -1 else 0, c)))))))))"

section \<open>Allocation and release\<close>

text \<open>
  The aligned size \<open>inc_sz\<close> is computed on \<open>int\<close> and not used; its addition may overflow. The
  result of \<open>inc_vma_limit\<close> is ignored.
\<close>

definition vm_alloc :: "vmctx \<Rightarrow> int \<Rightarrow> int \<Rightarrow> int \<Rightarrow> (int \<times> int \<times> vmctx) res" where
  "vm_alloc c vmaid rgid sz =
     rbind (get_free_vmrg_area c vmaid sz) (\<lambda>(ret, newrg, c).
       case (ret = 0, newrg) of
         (True, Some (st, en)) \<Rightarrow>
           rbind (symrg_set (c_mm c) rgid st en) (\<lambda>m. Inr (0, s32 st, c\<lparr>c_mm := m\<rparr>))
       | _ \<Rightarrow>
           (let cur_vma = get_vma_by_num (c_mm c) vmaid
            in rbind (s32_arith (sz + PAGING_PAGESZ)) (\<lambda>_.
               rbind (vma_deref (c_mm c) cur_vma) (\<lambda>v.
               (let old_sbrk = s32 (sbrk v)
                in rbind
                     (if u64 (sz + sbrk v) > PAGING_PAGE_ALIGNSZ (sbrk v) \<or> sbrk v = vm_end v
                      then rbind (inc_vma_limit c vmaid sz) (\<lambda>(_, c). Inr c)
                      else rbind (vma_store (c_mm c) cur_vma (v\<lparr>sbrk := u64 (sbrk v + sz)\<rparr>)) (\<lambda>m.
                           Inr (c\<lparr>c_mm := m\<rparr>))) (\<lambda>c.
                   rbind (s32_arith (old_sbrk + sz)) (\<lambda>en.
                   rbind (symrg_set (c_mm c) rgid (u64 old_sbrk) (u64 en)) (\<lambda>m.
                   Inr (0, old_sbrk, c\<lparr>c_mm := m\<rparr>)))))))))"

definition vm_free :: "vmctx \<Rightarrow> int \<Rightarrow> int \<Rightarrow> (int \<times> vmctx) res" where
  "vm_free c vmaid rgid =
     (if rgid < 0 \<or> rgid > int PAGING_MAX_SYMTBL_SZ then Inr (-1, c)
      else case get_symrg_byid rgid of
        None \<Rightarrow> Inl NullDeref
      | Some k \<Rightarrow>
          rbind (arr_get (symrgtbl (c_mm c)) k) (\<lambda>rgnode.
          rbind (enlist_vm_freerg_list (c_mm c) (rg_start rgnode) (rg_end rgnode)) (\<lambda>(_, m).
          rbind (symrg_set m rgid 0 0) (\<lambda>m.
          Inr (0, c\<lparr>c_mm := m\<rparr>)))))"

definition pgalloc :: "vmctx \<Rightarrow> int \<Rightarrow> int \<Rightarrow> (int \<times> vmctx) res" where
  "pgalloc c sz reg_index =
     rbind (vm_alloc c 0 (s32 reg_index) (s32 sz)) (\<lambda>(r, _, c). Inr (r, c))"

definition pgfree_data :: "vmctx \<Rightarrow> int \<Rightarrow> (int \<times> vmctx) res" where
  "pgfree_data c reg_index = vm_free c 0 (s32 reg_index)"

section \<open>Page faults\<close>

text \<open>\<open>find_victim_page\<close>: result 1 and the page found, or 0.\<close>

primrec victim_loop :: "mm_struct \<Rightarrow> int clist \<Rightarrow> (int \<times> int option) res" where
  "victim_loop m CNull = Inr (0, None)"
| "victim_loop m CWild = Inl WildDeref"
| "victim_loop m (CNode pgn r) =
     rbind (pgd_get m pgn) (\<lambda>p.
       if \<not> PAGING_PAGE_PRESENT p then victim_loop m r else Inr (1, Some pgn))"

definition find_victim_page :: "mm_struct \<Rightarrow> (int \<times> int option) res" where
  "find_victim_page m = victim_loop m (fifo_pgn m)"

text \<open>
  \<open>pg_getpage\<close>: \<open>*fpn\<close> is taken from the local copy \<open>pte\<close> made before the fault is handled. The
  result of \<open>MEMPHY_get_freefp\<close> is not checked; without a free swap frame \<open>swpfpn\<close> is
  indeterminate.
\<close>

definition page_fault :: "vmctx \<Rightarrow> int \<Rightarrow> pte \<Rightarrow> (int \<times> vmctx) res" where
  "page_fault c pgn p =
     (let tgtfpn = PAGING_SWP p
      in rbind (find_victim_page (c_mm c)) (\<lambda>(found, vic).
           if found = 0 then Inr (-1, c)
           else case vic of None \<Rightarrow> Inl UninitRead | Some vicpgn \<Rightarrow>
             rbind (pgd_get (c_mm c) vicpgn) (\<lambda>vicpte.
             (let vicfpn = PAGING_FPN vicpte
              in rbind (MEMPHY_get_freefp (c_mswp c)) (\<lambda>(_, f, sw).
                   case f of None \<Rightarrow> Inl UninitRead | Some swpfpn \<Rightarrow>
                     rbind (swap_cp_page (c_mram c) vicfpn sw swpfpn) (\<lambda>(_, ram, sw).
                     rbind (swap_cp_page sw tgtfpn ram vicfpn) (\<lambda>(_, sw, ram).
                     rbind (pgd_set (c_mm c) vicpgn (pte_set_swap vicpte 0 swpfpn)) (\<lambda>m.
                     rbind (pgd_get m pgn) (\<lambda>tp.
                     rbind (pgd_set m pgn (pte_set_fpn tp vicfpn)) (\<lambda>m.
                     Inr (0, c\<lparr>c_mm := m\<lparr>fifo_pgn := enlist_pgn_node (fifo_pgn m) pgn\<rparr>,
                                c_mram := ram, c_mswp := sw\<rparr>)))))))))))"

definition pg_getpage :: "vmctx \<Rightarrow> int \<Rightarrow> (int \<times> int option \<times> vmctx) res" where
  "pg_getpage c pgn =
     rbind (pgd_get (c_mm c) pgn) (\<lambda>p.
       if \<not> PAGING_PAGE_PRESENT p then
         rbind (page_fault c pgn p) (\<lambda>(r, c).
           if r \<noteq> 0 then Inr (-1, None, c) else Inr (0, Some (PAGING_FPN p), c))
       else Inr (0, Some (PAGING_FPN p), c))"

section \<open>Access to memory\<close>

definition pg_getval :: "vmctx \<Rightarrow> int \<Rightarrow> (int \<times> byte option \<times> vmctx) res" where
  "pg_getval c addr =
     (let pgn = PAGING_PGN addr; off = PAGING_OFFST addr
      in rbind (pg_getpage c pgn) (\<lambda>(r, fpn, c).
           if r \<noteq> 0 then Inr (-1, None, c)
           else case fpn of None \<Rightarrow> Inl UninitRead | Some fpn \<Rightarrow>
             (let phyaddr = push_bit PAGING_ADDR_FPN_LOBIT fpn + off
              in rbind (MEMPHY_read (Some (c_mram c)) phyaddr) (\<lambda>(_, v, mp).
                   case mp of None \<Rightarrow> Inl NullDeref
                   | Some mp \<Rightarrow> Inr (0, v, c\<lparr>c_mram := mp\<rparr>)))))"

definition pg_setval :: "vmctx \<Rightarrow> int \<Rightarrow> byte \<Rightarrow> (int \<times> vmctx) res" where
  "pg_setval c addr v =
     (let pgn = PAGING_PGN addr; off = PAGING_OFFST addr
      in rbind (pg_getpage c pgn) (\<lambda>(r, fpn, c).
           if r \<noteq> 0 then Inr (-1, c)
           else case fpn of None \<Rightarrow> Inl UninitRead | Some fpn \<Rightarrow>
             (let phyaddr = push_bit PAGING_ADDR_FPN_LOBIT fpn + off
              in rbind (MEMPHY_write (Some (c_mram c)) phyaddr v) (\<lambda>(_, mp).
                   case mp of None \<Rightarrow> Inl NullDeref
                   | Some mp \<Rightarrow> Inr (0, c\<lparr>c_mram := mp\<rparr>)))))"

text \<open>\<open>vm_read\<close> and \<open>vm_write\<close> ignore the result of the access.\<close>

definition vm_read :: "vmctx \<Rightarrow> int \<Rightarrow> int \<Rightarrow> int \<Rightarrow> (int \<times> byte option \<times> vmctx) res" where
  "vm_read c vmaid rgid offset =
     (case (get_symrg_byid rgid, get_vma_by_num (c_mm c) vmaid) of
        (Some k, Some _) \<Rightarrow>
          rbind (arr_get (symrgtbl (c_mm c)) k) (\<lambda>currg.
          rbind (pg_getval c (s32 (u64 (rg_start currg + offset)))) (\<lambda>(_, v, c).
          Inr (0, v, c)))
      | _ \<Rightarrow> Inr (-1, None, c))"

definition vm_write :: "vmctx \<Rightarrow> int \<Rightarrow> int \<Rightarrow> int \<Rightarrow> byte \<Rightarrow> (int \<times> vmctx) res" where
  "vm_write c vmaid rgid offset v =
     (case (get_symrg_byid rgid, get_vma_by_num (c_mm c) vmaid) of
        (Some k, Some _) \<Rightarrow>
          rbind (arr_get (symrgtbl (c_mm c)) k) (\<lambda>currg.
          rbind (pg_setval c (s32 (u64 (rg_start currg + offset))) v) (\<lambda>(_, c).
          Inr (0, c)))
      | _ \<Rightarrow> Inr (-1, c))"

text \<open>
  The test of \<open>pgread\<close> and \<open>pgwrite\<close> compares the \<open>uint32_t\<close> offset with the \<open>int\<close> size, which
  is converted to \<open>unsigned\<close>. Both functions print the page table and dump the RAM;
  \<open>pgread\<close> prints the byte it read. The value stored to the parameter \<open>destination\<close> is lost.
\<close>

definition region_size :: "vm_rg_struct \<Rightarrow> int" where
  "region_size r = s32 (u64 (rg_end r - rg_start r))"

definition pgread :: "vmctx \<Rightarrow> int \<Rightarrow> int \<Rightarrow> int \<Rightarrow> (int \<times> byte option \<times> vmctx) res" where
  "pgread c source offset destination =
     rbind (arr_get (symrgtbl (c_mm c)) (nat source)) (\<lambda>rg.
       if offset > u32 (region_size rg) then Inr (-1, None, c)
       else
         rbind (vm_read c 0 (s32 source) (s32 offset)) (\<lambda>(val, data, c).
           case data of None \<Rightarrow> Inl UninitRead | Some data \<Rightarrow>
             rbind (print_pgtbl (c_mm c) 0 (-1)) (\<lambda>_.
             rbind (MEMPHY_dump (c_mram c)) (\<lambda>_.
             Inr (val, Some data, c)))))"

definition pgwrite :: "vmctx \<Rightarrow> byte \<Rightarrow> int \<Rightarrow> int \<Rightarrow> (int \<times> vmctx) res" where
  "pgwrite c data destination offset =
     rbind (arr_get (symrgtbl (c_mm c)) (nat destination)) (\<lambda>rg.
       if offset > u32 (region_size rg) then Inr (-1, c)
       else
         rbind (print_pgtbl (c_mm c) 0 (-1)) (\<lambda>_.
         rbind (MEMPHY_dump (c_mram c)) (\<lambda>_.
         vm_write c 0 (s32 destination) (s32 offset) data)))"

section \<open>Code that no other code calls\<close>

text \<open>\<open>free_pcb_memph\<close>, for the page numbers that are left.\<close>

primrec free_pages_loop :: "int list \<Rightarrow> vmctx \<Rightarrow> vmctx res" where
  "free_pages_loop [] c = Inr c"
| "free_pages_loop (pagenum # ks) c =
     rbind (pgd_get (c_mm c) pagenum) (\<lambda>p.
       if \<not> PAGING_PAGE_PRESENT p then
         free_pages_loop ks (c\<lparr>c_mram := snd (MEMPHY_put_freefp (c_mram c) (PAGING_FPN p))\<rparr>)
       else
         free_pages_loop ks (c\<lparr>c_mswp := snd (MEMPHY_put_freefp (c_mswp c) (PAGING_SWP p))\<rparr>))"

definition free_pcb_memph :: "vmctx \<Rightarrow> (int \<times> vmctx) res" where
  "free_pcb_memph c = rbind (free_pages_loop [0..PAGING_MAX_PGN - 1] c) (\<lambda>c. Inr (0, c))"

text \<open>\<open>find_min\<close>: the loop from index \<open>i\<close> with the candidate \<open>r\<close>.\<close>

function find_min_loop :: "int list \<Rightarrow> nat \<Rightarrow> nat \<Rightarrow> nat \<Rightarrow> nat res" where
  "find_min_loop arr n i r =
     (if i < n then
        rbind (arr_get arr r) (\<lambda>x.
        rbind (arr_get arr i) (\<lambda>y.
        find_min_loop arr n (i + 1) (if x < y then i else r)))
      else Inr r)"
  by pat_completeness auto
termination by (relation "measure (\<lambda>(a, n, i, r). n - i)") auto

declare find_min_loop.simps [simp del]

definition find_min :: "int list \<Rightarrow> nat \<Rightarrow> nat res" where
  "find_min arr n = find_min_loop arr n 1 0"

section \<open>The invariant of a process's memory\<close>

text \<open>
  The regions of the symbol table and the free regions are pairwise disjoint and lie below
  \<open>sbrk\<close>; the area ends at the page boundary at or above \<open>sbrk\<close> and fits the 22-bit address
  space.
\<close>

definition regions_of :: "mm_struct \<Rightarrow> (int \<times> int) list" where
  "regions_of m = map (\<lambda>r. (rg_start r, rg_end r)) (symrgtbl m)"

definition live :: "(int \<times> int) list \<Rightarrow> (int \<times> int) list" where
  "live rs = filter (\<lambda>r. fst r < snd r) rs"

definition vm_state :: "vmctx \<Rightarrow> vm_area_struct \<Rightarrow> nat list \<Rightarrow> nat \<Rightarrow> (int \<times> int) list \<Rightarrow> bool" where
  "vm_state c v bs z ys \<longleftrightarrow>
     frames_ok (c_mram c) \<and> frames_ok (c_mswp c) \<and> mmap (c_mm c) = [v] \<and>
     freelist0 (rgs (c_mm c)) (vm_freerg_list v) bs z ys \<and>
     length (symrgtbl (c_mm c)) = PAGING_MAX_SYMTBL_SZ \<and>
     fl_inv (live (regions_of (c_mm c)) @ ys) \<and>
     bytes (live (regions_of (c_mm c)) @ ys) \<subseteq> {0 ..< sbrk v} \<and>
     0 \<le> sbrk v \<and> sbrk v \<le> 2 ^ 22 \<and> vm_end v = PAGING_PAGE_ALIGNSZ (sbrk v)"

text \<open>Two contexts with the same page table and devices.\<close>

definition same_pages :: "vmctx \<Rightarrow> vmctx \<Rightarrow> bool" where
  "same_pages c c' \<longleftrightarrow> pgd (c_mm c') = pgd (c_mm c) \<and> c_mram c' = c_mram c \<and> c_mswp c' = c_mswp c"

definition vm_inv :: "vmctx \<Rightarrow> bool" where
  "vm_inv c \<longleftrightarrow> (\<exists>v bs z ys. vm_state c v bs z ys)"

lemma live_append [simp]: "live (xs @ ys) = live xs @ live ys"
  by (simp add: live_def)

lemma live_Cons [simp]: "live (r # xs) = (if fst r < snd r then r # live xs else live xs)"
  by (simp add: live_def)

lemma regions_split:
  assumes "i < length rs"
  obtains l y t where "rs = l @ y # t" "length l = i" "rs ! i = y" "\<And>x. rs[i := x] = l @ x # t"
  using assms id_take_nth_drop [OF assms] upd_conv_take_nth_drop [OF assms]
  by (metis length_take min.absorb4)

lemma live_set:
  assumes i: "i < length rs" and inv: "fl_inv (live rs @ ys)"
    and x: "0 \<le> fst x" "fst x < snd x" "iv x \<inter> bytes (live rs @ ys) = {}"
  shows "fl_inv (live (rs[i := x]) @ ys)" "bytes (live (rs[i := x]) @ ys) \<subseteq> bytes (live rs @ ys) \<union> iv x"
proof -
  obtain l y t where rs: "rs = l @ y # t" "rs[i := x] = l @ x # t"
    using regions_split [OF i] by metis
  have "fl_inv (live l @ live t @ ys)" "bytes (live l @ live t @ ys) \<subseteq> bytes (live rs @ ys)"
    using inv rs(1) by (auto simp: fl_inv_append fl_inv_Cons split: if_splits)
  then show "fl_inv (live (rs[i := x]) @ ys)" "bytes (live (rs[i := x]) @ ys) \<subseteq> bytes (live rs @ ys) \<union> iv x"
    using x unfolding rs(2) by (auto simp: fl_inv_append fl_inv_Cons)
qed

lemma live_clear:
  assumes i: "i < length rs" and inv: "fl_inv (live rs @ ys)"
    and ys': "fl_inv ys'" "bytes ys' = bytes ys \<union> iv (rs ! i)"
  shows "fl_inv (live (rs[i := (0, 0)]) @ ys')" "bytes (live (rs[i := (0, 0)]) @ ys') = bytes (live rs @ ys)"
proof -
  obtain l y t where rs: "rs = l @ y # t" "rs ! i = y" "rs[i := (0, 0)] = l @ (0, 0) # t"
    using regions_split [OF i] by metis
  have e: "iv y = {}" if "\<not> fst y < snd y" using that by (simp add: iv_def)
  have b: "bytes ys' = bytes ys \<union> iv y" using ys'(2) rs(2) by simp
  have inv': "fl_inv (live (l @ y # t) @ ys)" using inv rs(1) by simp
  show "fl_inv (live (rs[i := (0, 0)]) @ ys')"
    using inv' ys'(1) b e unfolding rs(3) by (auto simp: fl_inv_append fl_inv_Cons split: if_splits)
  have "bytes (live (l @ (0, 0) # t) @ ys') = bytes (live (l @ y # t) @ ys)"
    using b e by (auto split: if_splits)
  then show "bytes (live (rs[i := (0, 0)]) @ ys') = bytes (live rs @ ys)"
    using rs(1) unfolding rs(3) by simp
qed

lemma vm_state_split_free:
  assumes "vm_state c v bs z ys"
  shows "fl_inv ys" "fl_small ys" "fl_ok ys" "bytes ys \<subseteq> {0 ..< sbrk v}"
proof -
  show inv: "fl_inv ys" and b: "bytes ys \<subseteq> {0 ..< sbrk v}"
    using assms by (auto simp: vm_state_def fl_inv_append)
  then show "fl_ok ys" by (simp add: fl_inv_def)
  have "snd r \<le> 2 ^ 62" if r: "r \<in> set ys" for r
  proof -
    have "snd r - 1 \<in> iv r" using fl_inv_bounds [OF inv, of "fst r" "snd r"] r by (simp add: iv_def)
    then have "snd r - 1 < sbrk v" using b iv_subset_bytes [OF r] by auto
    then show ?thesis using assms by (simp add: vm_state_def)
  qed
  then show "fl_small ys" by (simp add: fl_small_def)
qed

text \<open>A list that ends in the empty region is the list of the free regions.\<close>

lemma freelist_to_freelist0:
  assumes "freelist h p as (ys @ [(0, 0)])"
  obtains bs z where "freelist0 h p bs z ys"
proof -
  have "length as = Suc (length ys)"
    using assms by (metis freelist_def length_append_singleton length_map)
  then obtain bs z where "as = bs @ [z]" "length bs = length ys"
    by (cases as rule: rev_cases) auto
  then show thesis using that assms by (auto simp: freelist0_def)
qed

lemma symrg_set_ok:
  assumes "0 \<le> rgid" "rgid < int (length (symrgtbl m))"
  shows "\<exists>m'. symrg_set m rgid st en = Inr m' \<and> (\<exists>t. m' = m\<lparr>symrgtbl := t\<rparr> \<and> length t = length (symrgtbl m)) \<and>
    regions_of m' = (regions_of m)[nat rgid := (st, en)]"
proof -
  have i: "nat rgid < length (symrgtbl m)" using assms by simp
  then show ?thesis using assms by (auto simp: symrg_set_def regions_of_def map_update)
qed

section \<open>Release\<close>

lemma one_vma [simp]:
  assumes "mmap m = [v]"
  shows "get_vma_by_num m 0 = Some 0" "vma_deref m (Some 0) = Inr v"
    "vma_store m (Some 0) v' = Inr (m\<lparr>mmap := [v']\<rparr>)"
  using assms by (simp_all add: get_vma_by_num_def vma_deref_def vma_store_def arr_get_def arr_set_def)

lemma vm_state_live_bytes:
  assumes "vm_state c v bs z ys" "i < PAGING_MAX_SYMTBL_SZ"
  shows "regions_of (c_mm c) ! i = (s, e) \<Longrightarrow> s < e \<Longrightarrow> 0 \<le> s \<and> e \<le> sbrk v \<and> iv (s, e) \<inter> bytes ys = {}"
proof -
  assume r: "regions_of (c_mm c) ! i = (s, e)" "s < e"
  have "i < length (regions_of (c_mm c))" using assms by (simp add: vm_state_def regions_of_def)
  then have "(s, e) \<in> set (live (regions_of (c_mm c)))"
    using r nth_mem by (fastforce simp: live_def)
  then have sub: "iv (s, e) \<subseteq> bytes (live (regions_of (c_mm c)))" and "0 \<le> s"
    using iv_subset_bytes fl_inv_bounds [of "live (regions_of (c_mm c)) @ ys" s e] assms(1)
    by (auto simp: vm_state_def)
  moreover have "e - 1 \<in> iv (s, e)" using r(2) by (simp add: iv_def)
  ultimately show ?thesis using assms(1) by (force simp: vm_state_def fl_inv_append)
qed

lemma vm_free_out:
  assumes "rgid < 0 \<or> rgid > int PAGING_MAX_SYMTBL_SZ"
  shows "vm_free c vmaid rgid = Inr (-1, c)"
  using assms by (auto simp: vm_free_def)

lemma enlist_vm_freerg_list_spec:
  assumes st: "vm_state c v bs z ys" and se: "s < e"
  shows "case merge_free s e ys of
      None \<Rightarrow> enlist_vm_freerg_list (c_mm c) s e = Inl WildDeref
    | Some (r, ys') \<Rightarrow> \<exists>p h bs' z'. freelist0 h p bs' z' ys' \<and> enlist_vm_freerg_list (c_mm c) s e =
        Inr (r, (c_mm c)\<lparr>rgs := h, mmap := [v\<lparr>vm_freerg_list := p\<rparr>]\<rparr>)"
proof -
  have v: "mmap (c_mm c) = [v]" and fl: "freelist0 (rgs (c_mm c)) (vm_freerg_list v) bs z ys"
    using st by (simp_all add: vm_state_def)
  show ?thesis
    using enlist_freerg_refines [OF fl vm_state_split_free(3) [OF st] se] v
    by (auto simp: enlist_vm_freerg_list_def Let_def split: option.splits) blast
qed

text \<open>
  Releasing a region: its bytes move from the symbol table to the free list, or, when both
  neighbours are free and adjacent in the list, a freed node is used.
\<close>

lemma vm_free_spec:
  assumes st: "vm_state c v bs z ys" and i: "i < PAGING_MAX_SYMTBL_SZ"
    and rg: "regions_of (c_mm c) ! i = (s, e)" "s < e"
  shows "case merge_free s e ys of
      None \<Rightarrow> vm_free c 0 (int i) = Inl WildDeref
    | Some (r, ys') \<Rightarrow> \<exists>c' v' bs' z'. vm_free c 0 (int i) = Inr (0, c') \<and> vm_state c' v' bs' z' ys' \<and>
        sbrk v' = sbrk v \<and> bytes ys' = bytes ys \<union> iv (s, e) \<and>
        regions_of (c_mm c') = (regions_of (c_mm c))[i := (0, 0)] \<and>
        same_pages c c'"
proof -
  let ?m = "c_mm c"
  have len: "i < length (symrgtbl ?m)" using st i by (simp add: vm_state_def)
  have ij: "\<not> int i < 0" "\<not> int i > int PAGING_MAX_SYMTBL_SZ" "nat (int i) = i" using i by auto
  have e: "rg_start (symrgtbl ?m ! i) = s" "rg_end (symrgtbl ?m ! i) = e"
    using rg(1) len by (simp_all add: regions_of_def)
  have run: "vm_free c 0 (int i) = rbind (enlist_vm_freerg_list ?m s e) (\<lambda>(_, m).
      rbind (symrg_set m (int i) 0 0) (\<lambda>m. Inr (0, c\<lparr>c_mm := m\<rparr>)))"
    using ij len e by (simp add: vm_free_def get_symrg_byid_def arr_get_def)
  note fr = enlist_vm_freerg_list_spec [OF st rg(2)]
  show ?thesis
  proof (cases "merge_free s e ys")
    case None
    then show ?thesis using fr run by simp
  next
    case (Some a)
    then obtain r ys' where m: "merge_free s e ys = Some (r, ys')" by (cases a) auto
    then obtain p h bs' z' where h: "freelist0 h p bs' z' ys'"
        "enlist_vm_freerg_list ?m s e = Inr (r, ?m\<lparr>rgs := h, mmap := [v\<lparr>vm_freerg_list := p\<rparr>]\<rparr>)"
      using fr by auto
    let ?m1 = "?m\<lparr>rgs := h, mmap := [v\<lparr>vm_freerg_list := p\<rparr>]\<rparr>"
    obtain t where t: "symrg_set ?m1 (int i) 0 0 = Inr (?m1\<lparr>symrgtbl := t\<rparr>)" "length t = length (symrgtbl ?m)"
        "regions_of (?m1\<lparr>symrgtbl := t\<rparr>) = (regions_of ?m)[i := (0, 0)]"
      using symrg_set_ok [of "int i" ?m1 0 0] len by (auto simp: regions_of_def)
    note free = vm_state_live_bytes [OF st i rg]
    have new: "fl_inv ys'" "bytes ys' = bytes ys \<union> iv (s, e)"
      using merge_free_bytes [OF vm_state_split_free(1) [OF st] _ rg(2) _ m] free by auto
    have l: "i < length (regions_of ?m)" using len by (simp add: regions_of_def)
    have "vm_state (c\<lparr>c_mm := ?m1\<lparr>symrgtbl := t\<rparr>\<rparr>) (v\<lparr>vm_freerg_list := p\<rparr>) bs' z' ys'"
      using st h(1) t(2,3) live_clear [OF l _ new(1), of ys] new(2) rg(1)
      unfolding vm_state_def by simp
    then show ?thesis
      using run h(2) t(1,3) new(2) m by (auto simp: same_pages_def intro!: exI [of _ "v\<lparr>vm_freerg_list := p\<rparr>"])
  qed
qed

section \<open>Allocation\<close>

text \<open>The number of pages the area grows by, and of the frames the devices have left.\<close>

definition pages_for :: "int \<Rightarrow> int" where
  "pages_for b = (b + 255) div 256"

definition frames_left :: "vmctx \<Rightarrow> nat" where
  "frames_left c = length (free_of (c_mram c)) + length (free_of (c_mswp c))"

definition grow_amt :: "vm_area_struct \<Rightarrow> int \<Rightarrow> int" where
  "grow_amt v sz = pages_for (sbrk v + sz) - pages_for (sbrk v)"

lemma ALIGNSZ_pages_for: "0 \<le> b \<Longrightarrow> b \<le> 2 ^ 22 \<Longrightarrow> PAGING_PAGE_ALIGNSZ b = 256 * pages_for b"
  by (simp add: PAGE_ALIGNSZ_eq pages_for_def)

lemma pages_for_bounds: "0 \<le> b \<Longrightarrow> b \<le> 2 ^ 22 \<Longrightarrow> 0 \<le> pages_for b \<and> pages_for b \<le> 16384"
  using zdiv_mono1 [of "b + 255" "2 ^ 22 + 255" 256] by (simp add: pages_for_def)

lemma pages_for_mono: "a \<le> b \<Longrightarrow> pages_for a \<le> pages_for b"
  by (simp add: pages_for_def zdiv_mono1)

lemma frames_taken_devices:
  assumes "frames_taken n c c'"
  shows "frames_ok (c_mram c')" "frames_ok (c_mswp c')" "c_mm c' = c_mm c"
  using assms by (simp_all add: frames_taken_def)

lemma vm_map_ram_total:
  assumes ok: "frames_ok (c_mram c)" "frames_ok (c_mswp c)" and n: "0 \<le> n"
    and k: "PAGING_PGN mapstart + n \<le> PAGING_MAX_PGN"
  shows "\<exists>r c1. frames_taken (min (nat n) (frames_left c)) c c1 \<and>
    vm_map_ram c mapstart n = Inr (r, c1\<lparr>c_mm :=
      if nat n \<le> frames_left c then mapped (nat n) (PAGING_PGN mapstart) c else c_mm c\<rparr>) \<and>
    r = (if nat n \<le> frames_left c then 0 else -1)"
proof (cases "nat n \<le> frames_left c")
  case True
  then show ?thesis using vm_map_ram_ok [OF ok n _ k] by (auto simp: frames_left_def min_def)
next
  case False
  then have "int (frames_left c) < n" using n by linarith
  then obtain c' where "frames_taken (frames_left c) c c'" "vm_map_ram c mapstart n = Inr (-1, c')"
    using vm_map_ram_oom [OF ok, of n mapstart] by (auto simp: frames_left_def)
  moreover have "c'\<lparr>c_mm := c_mm c\<rparr> = c'" using calculation(1) by (simp add: frames_taken_def)
  ultimately show ?thesis using False by auto
qed

text \<open>
  The limit is raised whether or not the frames suffice: without them the new pages stay
  unmapped and \<open>inc_vma_limit\<close> returns -1.
\<close>

lemma inc_vma_limit_spec:
  assumes st: "vm_state c v bs z ys" and sz: "0 < sz" "sbrk v + sz \<le> 2 ^ 22"
  defines "n \<equiv> nat (grow_amt v sz)"
  defines "m \<equiv> (c_mm c)\<lparr>mmap := [v\<lparr>sbrk := sbrk v + sz, vm_end := PAGING_PAGE_ALIGNSZ (sbrk v + sz)\<rparr>]\<rparr>"
  shows "\<exists>r c1. frames_taken (min n (frames_left c)) c c1 \<and>
    inc_vma_limit c 0 sz = Inr (r, c1\<lparr>c_mm :=
      if n \<le> frames_left c then mapped n (pages_for (sbrk v) mod 16384) (c\<lparr>c_mm := m\<rparr>) else m\<rparr>) \<and>
    r = (if n \<le> frames_left c then 0 else -1)"
proof -
  let ?b = "sbrk v" and ?c = "c\<lparr>c_mm := m\<rparr>"
  have mm: "mmap (c_mm c) = [v]" and b: "0 \<le> ?b" "?b \<le> 2 ^ 22" and en: "vm_end v = 256 * pages_for ?b"
    and ok: "frames_ok (c_mram c)" "frames_ok (c_mswp c)"
    using st ALIGNSZ_pages_for by (auto simp: vm_state_def)
  have p: "0 \<le> pages_for ?b" "pages_for ?b \<le> pages_for (?b + sz)" "pages_for (?b + sz) \<le> 16384"
    using pages_for_bounds [of ?b] pages_for_bounds [of "?b + sz"] pages_for_mono [of ?b "?b + sz"] b sz by auto
  have al: "PAGING_PAGE_ALIGNSZ (?b + sz) = 256 * pages_for (?b + sz)" "PAGING_PAGE_ALIGNSZ ?b = 256 * pages_for ?b"
    using ALIGNSZ_pages_for b sz by auto
  have pgn: "PAGING_PGN (256 * pages_for ?b) = pages_for ?b mod 16384" by (simp add: PAGING_PGN_div)
  have amt: "0 \<le> grow_amt v sz" "256 * pages_for (?b + sz) - 256 * pages_for ?b = 256 * grow_amt v sz"
      "pages_for ?b mod 16384 + grow_amt v sz \<le> 16384"
    using p by (auto simp: grow_amt_def) (cases "pages_for ?b = 16384"; simp)
  have grow: "256 * grow_amt v sz + 256 * pages_for ?b = 256 * pages_for (sz + ?b)"
    by (simp add: grow_amt_def add.commute algebra_simps)
  obtain r c1 where c1: "frames_taken (min n (frames_left ?c)) ?c c1"
    "vm_map_ram ?c (256 * pages_for ?b) (grow_amt v sz) = Inr (r, c1\<lparr>c_mm :=
      if n \<le> frames_left ?c then mapped n (pages_for ?b mod 16384) ?c else c_mm ?c\<rparr>)"
    "r = (if n \<le> frames_left ?c then 0 else -1)"
    using vm_map_ram_total [of ?c "grow_amt v sz" "256 * pages_for ?b"] ok amt pgn by (auto simp: n_def)
  have run: "inc_vma_limit c 0 sz = rbind (vm_map_ram ?c (256 * pages_for ?b) (grow_amt v sz))
      (\<lambda>(r, c). Inr (if r < 0 then -1 else 0, c))"
    using mm b sz en amt p al grow
    by (simp add: inc_vma_limit_def get_vm_area_node_at_brk_def validate_overlap_vm_area_def Let_def
        PAGING_PAGESZ_def c_div_nonneg m_def grow_amt_def add.commute)
  have "frames_taken (min n (frames_left c)) c (c1\<lparr>c_mm := c_mm c\<rparr>)"
    using c1(1) by (simp add: frames_taken_def frames_left_def Let_def)
  moreover have "frames_left ?c = frames_left c" by (simp add: frames_left_def)
  ultimately show ?thesis using run c1(2,3) by (auto intro!: exI [of _ "c1\<lparr>c_mm := c_mm c\<rparr>"])
qed

lemma mapped_fields [simp]:
  "mmap (mapped n k c) = mmap (c_mm c)" "symrgtbl (mapped n k c) = symrgtbl (c_mm c)"
  "rgs (mapped n k c) = rgs (c_mm c)"
  by (simp_all add: mapped_def Let_def)

text \<open>What an allocation in fresh space does before the region is entered in the table.\<close>

definition space_taken :: "int \<Rightarrow> vm_area_struct \<Rightarrow> vmctx \<Rightarrow> vmctx \<Rightarrow> bool" where
  "space_taken sz v c c' \<longleftrightarrow>
     (let n = nat (grow_amt v sz)
      in (\<exists>c1. frames_taken (min n (frames_left c)) c c1 \<and> c_mram c' = c_mram c1 \<and> c_mswp c' = c_mswp c1) \<and>
         pgd (c_mm c') =
           (if n \<le> frames_left c then pgd (mapped n (pages_for (sbrk v) mod 16384) c) else pgd (c_mm c)))"

lemma pgd_mapped_0 [simp]: "pgd (mapped 0 k c) = pgd (c_mm c)"
  by (simp add: mapped_def Let_def)

lemma pgd_mapped_cong: "pgd m = pgd (c_mm c) \<Longrightarrow> pgd (mapped n k (c\<lparr>c_mm := m\<rparr>)) = pgd (mapped n k c)"
  by (simp add: mapped_def Let_def)

lemma inc_vma_limit_state:
  assumes st: "vm_state c v bs z ys" and sz: "0 < sz" "sbrk v + sz \<le> 2 ^ 22"
  shows "\<exists>r c'. inc_vma_limit c 0 sz = Inr (r, c') \<and> frames_ok (c_mram c') \<and> frames_ok (c_mswp c') \<and>
    mmap (c_mm c') = [v\<lparr>sbrk := sbrk v + sz, vm_end := PAGING_PAGE_ALIGNSZ (sbrk v + sz)\<rparr>] \<and>
    rgs (c_mm c') = rgs (c_mm c) \<and> symrgtbl (c_mm c') = symrgtbl (c_mm c) \<and> space_taken sz v c c'"
proof -
  let ?n = "nat (grow_amt v sz)"
  let ?m = "(c_mm c)\<lparr>mmap := [v\<lparr>sbrk := sbrk v + sz, vm_end := PAGING_PAGE_ALIGNSZ (sbrk v + sz)\<rparr>]\<rparr>"
  let ?m' = "if ?n \<le> frames_left c then mapped ?n (pages_for (sbrk v) mod 16384) (c\<lparr>c_mm := ?m\<rparr>) else ?m"
  obtain r c1 where c1: "frames_taken (min ?n (frames_left c)) c c1" "inc_vma_limit c 0 sz = Inr (r, c1\<lparr>c_mm := ?m'\<rparr>)"
    using inc_vma_limit_spec [OF st sz] by blast
  have "space_taken sz v c (c1\<lparr>c_mm := ?m'\<rparr>)"
    unfolding space_taken_def Let_def using c1(1) by (intro conjI exI [of _ c1]) (simp_all add: pgd_mapped_cong)
  then show ?thesis using c1(2) frames_taken_devices [OF c1(1)] by simp
qed

lemma fresh_space:
  assumes st: "vm_state c v bs z ys" and sz: "0 < sz" "sbrk v + sz \<le> 2 ^ 22"
  shows "\<exists>c'. (if u64 (sz + sbrk v) > PAGING_PAGE_ALIGNSZ (sbrk v) \<or> sbrk v = vm_end v
      then rbind (inc_vma_limit c 0 sz) (\<lambda>(_, c). Inr c)
      else rbind (vma_store (c_mm c) (Some 0) (v\<lparr>sbrk := u64 (sbrk v + sz)\<rparr>)) (\<lambda>m. Inr (c\<lparr>c_mm := m\<rparr>))) = Inr c' \<and>
    vm_state c' (v\<lparr>sbrk := sbrk v + sz, vm_end := PAGING_PAGE_ALIGNSZ (sbrk v + sz)\<rparr>) bs z ys \<and>
    symrgtbl (c_mm c') = symrgtbl (c_mm c) \<and> space_taken sz v c c'"
    (is "\<exists>c'. ?run = Inr c' \<and> vm_state c' ?v bs z ys \<and> _ \<and> _")
proof -
  have old: "mmap (c_mm c) = [v]" "0 \<le> sbrk v" "vm_end v = PAGING_PAGE_ALIGNSZ (sbrk v)"
    using st by (simp_all add: vm_state_def)
  have keep: "vm_state c' ?v bs z ys"
    if "frames_ok (c_mram c')" "frames_ok (c_mswp c')" "mmap (c_mm c') = [?v]"
      "rgs (c_mm c') = rgs (c_mm c)" "symrgtbl (c_mm c') = symrgtbl (c_mm c)" for c'
    using st that sz by (auto simp: vm_state_def regions_of_def)
  show ?thesis
  proof (cases "u64 (sz + sbrk v) > PAGING_PAGE_ALIGNSZ (sbrk v) \<or> sbrk v = vm_end v")
    case True
    obtain r c' where c': "inc_vma_limit c 0 sz = Inr (r, c')" "frames_ok (c_mram c')" "frames_ok (c_mswp c')"
      "mmap (c_mm c') = [?v]" "rgs (c_mm c') = rgs (c_mm c)" "symrgtbl (c_mm c') = symrgtbl (c_mm c)"
      "space_taken sz v c c'"
      using inc_vma_limit_state [OF st sz] by blast
    then show ?thesis using True keep [of c'] by auto
  next
    case False
    then have le: "sbrk v + sz \<le> 256 * pages_for (sbrk v)"
      using sz old ALIGNSZ_pages_for [of "sbrk v"] by simp
    then have pf: "pages_for (sbrk v + sz) \<le> pages_for (sbrk v)" unfolding pages_for_def by simp
    then have "PAGING_PAGE_ALIGNSZ (sbrk v + sz) = vm_end v"
      using old sz ALIGNSZ_pages_for [of "sbrk v"] ALIGNSZ_pages_for [of "sbrk v + sz"]
        pages_for_mono [of "sbrk v" "sbrk v + sz"] by simp
    then have "v\<lparr>sbrk := sbrk v + sz\<rparr> = ?v" by simp
    moreover have "space_taken sz v c (c\<lparr>c_mm := (c_mm c)\<lparr>mmap := [?v]\<rparr>\<rparr>)"
      using pf st frames_taken_0 [of c] by (auto simp: space_taken_def grow_amt_def vm_state_def)
    ultimately show ?thesis
      using False old sz st keep [of "c\<lparr>c_mm := (c_mm c)\<lparr>mmap := [?v]\<rparr>\<rparr>"]
      by (auto simp: vm_state_def)
  qed
qed

lemma get_free_vmrg_area_spec:
  assumes st: "vm_state c v bs z ys" and sz: "0 < sz" "sz < 2 ^ 31"
  shows "case first_fit sz (ys @ [(0, 0)]) of
      None \<Rightarrow> get_free_vmrg_area c 0 sz = Inr (-1, Some (u64 (-1), u64 (-1)), c)
    | Some (r, zs) \<Rightarrow> \<exists>c' bs' z' ys'. get_free_vmrg_area c 0 sz = Inr (0, Some r, c') \<and>
        vm_state c' v bs' z' ys' \<and> symrgtbl (c_mm c') = symrgtbl (c_mm c) \<and> same_pages c c' \<and>
        snd r = fst r + sz \<and> 0 \<le> fst r \<and> iv r \<subseteq> bytes ys \<and> bytes ys' = bytes ys - iv r"
proof -
  let ?m = "c_mm c"
  note fr = vm_state_split_free [OF st]
  have v: "mmap ?m = [v]" and fl: "freelist (rgs ?m) (vm_freerg_list v) (bs @ [z]) (ys @ [(0, 0)])"
    using st by (simp_all add: vm_state_def freelist0_def)
  note g = get_free_rg_refines [OF fl, of sz]
  show ?thesis
  proof (cases "first_fit sz (ys @ [(0, 0)])")
    case None
    then show ?thesis using g v by (simp add: get_free_vmrg_area_def Let_def)
  next
    case (Some a)
    then obtain r zs where f: "first_fit sz (ys @ [(0, 0)]) = Some (r, zs)" by (cases a) auto
    from first_fit_bytes [OF fr(1,2) sz f] obtain ys' where
      ys': "zs = ys' @ [(0, 0)]" "fl_inv ys'" "snd r = fst r + sz" "0 \<le> fst r" "iv r \<subseteq> bytes ys"
        "bytes ys' = bytes ys - iv r" by blast
    have "fst r \<in> iv r" using ys'(3) sz by (simp add: iv_def)
    then have small: "fst r < 2 ^ 22" using ys'(5) fr(4) st by (auto simp: vm_state_def)
    then have nf: "fst r \<noteq> u64 (-1)" by (simp add: u64_def)
    obtain h' as' where h': "get_free_rg (rgs ?m) (vm_freerg_list v) sz = Inr (0, Some r, h')"
        "freelist h' (vm_freerg_list v) as' zs"
      using g f nf by auto
    obtain bs' z' where fl': "freelist0 h' (vm_freerg_list v) bs' z' ys'"
      using freelist_to_freelist0 h'(2) ys'(1) by blast
    have "vm_state (c\<lparr>c_mm := ?m\<lparr>rgs := h'\<rparr>\<rparr>) v bs' z' ys'"
      using st fl' ys'(2,6) by (auto simp: vm_state_def fl_inv_append regions_of_def)
    then show ?thesis
      using h'(1) v f ys'(3-6) by (auto simp: get_free_vmrg_area_def Let_def same_pages_def)
  qed
qed

text \<open>Entering a region in the table.\<close>

lemma symrg_set_state:
  assumes st: "vm_state c v bs z ys" and i: "i < PAGING_MAX_SYMTBL_SZ"
    and a: "0 \<le> a" "a < b" "b \<le> sbrk v" and disj: "iv (a, b) \<inter> bytes (live (regions_of (c_mm c)) @ ys) = {}"
  shows "\<exists>m. symrg_set (c_mm c) (int i) a b = Inr m \<and> vm_state (c\<lparr>c_mm := m\<rparr>) v bs z ys \<and>
    regions_of m = (regions_of (c_mm c))[i := (a, b)] \<and> pgd m = pgd (c_mm c)"
proof -
  let ?m = "c_mm c"
  have len: "i < length (symrgtbl ?m)" using st i by (simp add: vm_state_def)
  obtain t where t: "symrg_set ?m (int i) a b = Inr (?m\<lparr>symrgtbl := t\<rparr>)" "length t = length (symrgtbl ?m)"
      "regions_of (?m\<lparr>symrgtbl := t\<rparr>) = (regions_of ?m)[i := (a, b)]"
    using symrg_set_ok [of "int i" ?m a b] len by auto
  have l: "i < length (regions_of ?m)" using len by (simp add: regions_of_def)
  have inv: "fl_inv (live (regions_of ?m) @ ys)" and sub: "bytes (live (regions_of ?m) @ ys) \<subseteq> {0 ..< sbrk v}"
    using st unfolding vm_state_def by blast+
  have "iv (a, b) \<subseteq> {0 ..< sbrk v}" using a by (auto simp: iv_def)
  then have "fl_inv (live ((regions_of ?m)[i := (a, b)]) @ ys)"
      "bytes (live ((regions_of ?m)[i := (a, b)]) @ ys) \<subseteq> {0 ..< sbrk v}"
    using live_set [OF l inv, of "(a, b)"] a disj sub by auto
  then have "vm_state (c\<lparr>c_mm := ?m\<lparr>symrgtbl := t\<rparr>\<rparr>) v bs z ys"
    using st t(2,3) unfolding vm_state_def by simp
  then show ?thesis using t by auto
qed

lemma vm_alloc_reuse:
  assumes st: "vm_state c v bs z ys" and i: "i < PAGING_MAX_SYMTBL_SZ" and sz: "0 < sz" "sz < 2 ^ 31"
    and f: "first_fit sz (ys @ [(0, 0)]) = Some (r, zs)"
  shows "\<exists>c' bs' z' ys'. vm_alloc c 0 (int i) sz = Inr (0, fst r, c') \<and> vm_state c' v bs' z' ys' \<and>
    snd r = fst r + sz \<and> 0 \<le> fst r \<and> iv r \<subseteq> bytes ys \<and> bytes ys' = bytes ys - iv r \<and>
    regions_of (c_mm c') = (regions_of (c_mm c))[i := r] \<and> same_pages c c'"
proof -
  obtain c1 bs' z' ys' where g: "get_free_vmrg_area c 0 sz = Inr (0, Some r, c1)" "vm_state c1 v bs' z' ys'"
      "symrgtbl (c_mm c1) = symrgtbl (c_mm c)" "snd r = fst r + sz" "0 \<le> fst r" "iv r \<subseteq> bytes ys"
      "bytes ys' = bytes ys - iv r" "same_pages c c1"
    using get_free_vmrg_area_spec [OF st sz] f by auto
  have b: "bytes ys \<subseteq> {0 ..< sbrk v}" "bytes (live (regions_of (c_mm c))) \<inter> bytes ys = {}" "sbrk v \<le> 2 ^ 22"
    using st by (auto simp: vm_state_def fl_inv_append)
  have "snd r - 1 \<in> iv r" using g(4) sz by (simp add: iv_def)
  then have top: "snd r \<le> sbrk v" using g(6) b(1) by auto
  have lt: "fst r < snd r" using g(4) sz by simp
  have "iv r \<inter> bytes (live (regions_of (c_mm c1)) @ ys') = {}"
    using g(3,6,7) b(2) by (auto simp: regions_of_def)
  then obtain m where m: "symrg_set (c_mm c1) (int i) (fst r) (snd r) = Inr m"
      "vm_state (c1\<lparr>c_mm := m\<rparr>) v bs' z' ys'" "regions_of m = (regions_of (c_mm c1))[i := r]"
      "pgd m = pgd (c_mm c1)"
    using symrg_set_state [OF g(2) i, of "fst r" "snd r"] g(5) lt top by auto
  have "s32 (fst r) = fst r" using g(4,5) top b(3) sz by simp
  then have "vm_alloc c 0 (int i) sz = Inr (0, fst r, c1\<lparr>c_mm := m\<rparr>)"
    using g(1) m(1) by (auto simp: vm_alloc_def split: prod.split)
  then show ?thesis using m(2-4) g(3-8) by (auto simp: regions_of_def same_pages_def)
qed

lemma vm_alloc_fresh:
  assumes st: "vm_state c v bs z ys" and i: "i < PAGING_MAX_SYMTBL_SZ"
    and sz: "0 < sz" "sbrk v + sz \<le> 2 ^ 22" and f: "first_fit sz (ys @ [(0, 0)]) = None"
  shows "\<exists>c' v'. vm_alloc c 0 (int i) sz = Inr (0, sbrk v, c') \<and> vm_state c' v' bs z ys \<and>
    sbrk v' = sbrk v + sz \<and> regions_of (c_mm c') = (regions_of (c_mm c))[i := (sbrk v, sbrk v + sz)] \<and>
    space_taken sz v c c'"
proof -
  let ?v = "v\<lparr>sbrk := sbrk v + sz, vm_end := PAGING_PAGE_ALIGNSZ (sbrk v + sz)\<rparr>"
  have mm: "mmap (c_mm c) = [v]" and b: "0 \<le> sbrk v" "bytes (live (regions_of (c_mm c)) @ ys) \<subseteq> {0 ..< sbrk v}"
    using st unfolding vm_state_def by blast+
  have szb: "sz < 2 ^ 31" using sz b(1) by simp
  have g: "get_free_vmrg_area c 0 sz = Inr (-1, Some (u64 (-1), u64 (-1)), c)"
    using get_free_vmrg_area_spec [OF st sz(1) szb] f by simp
  from fresh_space [OF st sz] obtain c1 where
    c1: "(if u64 (sz + sbrk v) > PAGING_PAGE_ALIGNSZ (sbrk v) \<or> sbrk v = vm_end v
      then rbind (inc_vma_limit c 0 sz) (\<lambda>(_, c). Inr c)
      else rbind (vma_store (c_mm c) (Some 0) (v\<lparr>sbrk := u64 (sbrk v + sz)\<rparr>)) (\<lambda>m. Inr (c\<lparr>c_mm := m\<rparr>))) = Inr c1"
    and s1: "vm_state c1 ?v bs z ys" "symrgtbl (c_mm c1) = symrgtbl (c_mm c)" "space_taken sz v c c1" by blast
  have "iv (sbrk v, sbrk v + sz) \<inter> bytes (live (regions_of (c_mm c1)) @ ys) = {}"
    using b(2) s1(2) by (fastforce simp: iv_def regions_of_def)
  then obtain m where m: "symrg_set (c_mm c1) (int i) (sbrk v) (sbrk v + sz) = Inr m"
      "vm_state (c1\<lparr>c_mm := m\<rparr>) ?v bs z ys"
      "regions_of m = (regions_of (c_mm c1))[i := (sbrk v, sbrk v + sz)]" "pgd m = pgd (c_mm c1)"
    using symrg_set_state [OF s1(1) i, of "sbrk v" "sbrk v + sz"] b(1) sz by auto
  have "vm_alloc c 0 (int i) sz = rbind (if u64 (sz + sbrk v) > PAGING_PAGE_ALIGNSZ (sbrk v) \<or> sbrk v = vm_end v
      then rbind (inc_vma_limit c 0 sz) (\<lambda>(_, c). Inr c)
      else rbind (vma_store (c_mm c) (Some 0) (v\<lparr>sbrk := u64 (sbrk v + sz)\<rparr>)) (\<lambda>m. Inr (c\<lparr>c_mm := m\<rparr>)))
      (\<lambda>c. rbind (symrg_set (c_mm c) (int i) (sbrk v) (sbrk v + sz)) (\<lambda>m. Inr (0, sbrk v, c\<lparr>c_mm := m\<rparr>)))"
    using g mm b(1) sz szb by (simp add: vm_alloc_def Let_def PAGING_PAGESZ_def)
  then have "vm_alloc c 0 (int i) sz = Inr (0, sbrk v, c1\<lparr>c_mm := m\<rparr>)"
    unfolding c1 using m(1) by simp
  then show ?thesis using m(2-4) s1(2,3) by (auto simp: regions_of_def space_taken_def)
qed

lemma vm_free_empty:
  assumes st: "vm_state c v bs z ys" and i: "i < PAGING_MAX_SYMTBL_SZ"
    and rg: "regions_of (c_mm c) ! i = (s, e)" "\<not> s < e"
  shows "\<exists>c'. vm_free c 0 (int i) = Inr (0, c') \<and> vm_state c' v bs z ys \<and>
    regions_of (c_mm c') = (regions_of (c_mm c))[i := (0, 0)] \<and> same_pages c c'"
proof -
  let ?m = "c_mm c"
  have len: "i < length (symrgtbl ?m)" and l: "i < length (regions_of ?m)" and mm: "mmap ?m = [v]"
    using st i by (simp_all add: vm_state_def regions_of_def)
  have eq: "rg_start (symrgtbl ?m ! i) = s" "rg_end (symrgtbl ?m ! i) = e"
    using rg(1) len by (simp_all add: regions_of_def)
  have enl: "enlist_vm_freerg_list ?m s e = Inr (-1, ?m)"
    using mm rg(2) by (simp add: enlist_vm_freerg_list_def enlist_freerg_def Let_def)
  obtain t where t: "symrg_set ?m (int i) 0 0 = Inr (?m\<lparr>symrgtbl := t\<rparr>)" "length t = length (symrgtbl ?m)"
      "regions_of (?m\<lparr>symrgtbl := t\<rparr>) = (regions_of ?m)[i := (0, 0)]"
    using symrg_set_ok [of "int i" ?m 0 0] len by auto
  have run: "vm_free c 0 (int i) = Inr (0, c\<lparr>c_mm := ?m\<lparr>symrgtbl := t\<rparr>\<rparr>)"
    using i len eq t(1) enl by (simp add: vm_free_def get_symrg_byid_def arr_get_def)
  have "iv (s, e) = {}" using rg(2) by (simp add: iv_def)
  then have "fl_inv (live ((regions_of ?m)[i := (0, 0)]) @ ys)"
      "bytes (live ((regions_of ?m)[i := (0, 0)]) @ ys) = bytes (live (regions_of ?m) @ ys)"
    using live_clear [OF l _ vm_state_split_free(1) [OF st], of ys] st rg(1) unfolding vm_state_def by auto
  then have "vm_state (c\<lparr>c_mm := ?m\<lparr>symrgtbl := t\<rparr>\<rparr>) v bs z ys"
    using st t(2,3) unfolding vm_state_def by simp
  then show ?thesis using run t(3) by (auto simp: same_pages_def)
qed

lemma live_disjoint:
  assumes inv: "fl_inv (live rs)" and ij: "i < j" "j < length rs"
  shows "iv (rs ! i) \<inter> iv (rs ! j) = {}"
proof -
  have i: "i < length rs" using ij by simp
  obtain l y t where rs: "rs = l @ y # t" "length l = i" using regions_split [OF i] by metis
  have yi: "rs ! i = y" and tj: "rs ! j \<in> set t"
    using rs ij by (auto simp: nth_append nth_Cons' intro!: nth_mem)
  have "rs ! j \<in> set (live t) \<or> iv (rs ! j) = {}" using tj by (auto simp: live_def iv_def)
  moreover have "y # live t = live (y # t) \<or> iv y = {}" by (auto simp: iv_def)
  moreover have "fl_inv (live (y # t))" using inv unfolding rs(1) by (simp add: fl_inv_append)
  ultimately show ?thesis
    using iv_subset_bytes [of "rs ! j" "live t"] yi by (auto simp: fl_inv_Cons split: if_splits)
qed

section \<open>The contract of the region allocator\<close>

datatype region_op = Alloc nat int | Release nat

text \<open>
  A sequence of operations; the sizes of the regions it asks for; the space it takes if no
  free region is used again; operations on an existing region with a positive size.
\<close>

primrec region_run ::
  "('s \<Rightarrow> nat \<Rightarrow> int \<Rightarrow> 's res) \<Rightarrow> ('s \<Rightarrow> nat \<Rightarrow> 's res) \<Rightarrow> region_op list \<Rightarrow> 's \<Rightarrow> 's res" where
  "region_run al rel [] s = Inr s"
| "region_run al rel (r # rs) s =
     rbind (case r of Alloc i sz \<Rightarrow> al s i sz | Release i \<Rightarrow> rel s i) (region_run al rel rs)"

primrec sizes_after :: "region_op list \<Rightarrow> int list \<Rightarrow> int list" where
  "sizes_after [] zs = zs"
| "sizes_after (r # rs) zs =
     sizes_after rs (case r of Alloc i sz \<Rightarrow> zs[i := sz] | Release i \<Rightarrow> zs[i := 0])"

primrec demand :: "region_op list \<Rightarrow> int" where
  "demand [] = 0"
| "demand (r # rs) = (case r of Alloc i sz \<Rightarrow> sz | Release i \<Rightarrow> 0) + demand rs"

definition valid_op :: "nat \<Rightarrow> region_op \<Rightarrow> bool" where
  "valid_op n r = (case r of Alloc i sz \<Rightarrow> i < n \<and> 0 < sz | Release i \<Rightarrow> i < n)"

lemma demand_nonneg: "list_all (valid_op n) rs \<Longrightarrow> 0 \<le> demand rs"
  by (induction rs) (auto simp: valid_op_def split: region_op.splits)

abbreviation region_sizes :: "(int \<times> int) list \<Rightarrow> int list" where
  "region_sizes \<equiv> map (\<lambda>r. snd r - fst r)"

text \<open>
  A table of \<open>n\<close> regions over a space with \<open>room\<close> bytes left. Regions never overlap; an
  allocation within the room succeeds; a release clears its entry, except in the states in
  which it \<open>clash\<close>es: there it fails with a wild pointer.
\<close>

locale region_allocator =
  fixes ok :: "'s \<Rightarrow> bool" and n :: nat and regs :: "'s \<Rightarrow> (int \<times> int) list" and room :: "'s \<Rightarrow> int"
    and al :: "'s \<Rightarrow> nat \<Rightarrow> int \<Rightarrow> 's res" and rel :: "'s \<Rightarrow> nat \<Rightarrow> 's res" and clash :: "'s \<Rightarrow> nat \<Rightarrow> bool"
  assumes regs_length: "ok s \<Longrightarrow> length (regs s) = n"
    and regs_disjoint: "ok s \<Longrightarrow> i < j \<Longrightarrow> j < n \<Longrightarrow> iv (regs s ! i) \<inter> iv (regs s ! j) = {}"
    and al_ok: "ok s \<Longrightarrow> i < n \<Longrightarrow> 0 < sz \<Longrightarrow> sz \<le> room s \<Longrightarrow>
      \<exists>s' a. al s i sz = Inr s' \<and> ok s' \<and> regs s' = (regs s)[i := (a, a + sz)] \<and> room s - sz \<le> room s'"
    and rel_clash: "ok s \<Longrightarrow> i < n \<Longrightarrow> clash s i \<Longrightarrow> rel s i = Inl WildDeref"
    and rel_ok: "ok s \<Longrightarrow> i < n \<Longrightarrow> \<not> clash s i \<Longrightarrow>
      \<exists>s'. rel s i = Inr s' \<and> ok s' \<and> regs s' = (regs s)[i := (0, 0)] \<and> room s' = room s"
begin

lemma run_sizes:
  assumes "ok s" "list_all (valid_op n) rs" "demand rs \<le> room s"
  shows "case region_run al rel rs s of
      Inr s' \<Rightarrow> ok s' \<and> region_sizes (regs s') = sizes_after rs (region_sizes (regs s))
    | Inl x \<Rightarrow> x = WildDeref \<and>
        (\<exists>qs i ts s1. rs = qs @ Release i # ts \<and> region_run al rel qs s = Inr s1 \<and> ok s1 \<and> clash s1 i)"
  using assms
proof (induction rs arbitrary: s)
  case (Cons r rs)
  have d: "0 \<le> demand rs" using demand_nonneg [of n rs] Cons.prems(2) by simp
  have later: ?case
    if s': "(case r of Alloc i sz \<Rightarrow> al s i sz | Release i \<Rightarrow> rel s i) = Inr s'" "ok s'" "demand rs \<le> room s'"
      "region_sizes (regs s') = (case r of Alloc i sz \<Rightarrow> (region_sizes (regs s))[i := sz] | Release i \<Rightarrow> (region_sizes (regs s))[i := 0])"
    for s'
  proof -
    have run: "region_run al rel (r # qs) s = region_run al rel qs s'" for qs using s'(1) by simp
    have IH: "case region_run al rel rs s' of
        Inr s'' \<Rightarrow> ok s'' \<and> region_sizes (regs s'') = sizes_after rs (region_sizes (regs s'))
      | Inl x \<Rightarrow> x = WildDeref \<and>
          (\<exists>qs i ts s1. rs = qs @ Release i # ts \<and> region_run al rel qs s' = Inr s1 \<and> ok s1 \<and> clash s1 i)"
      using Cons.IH [OF s'(2)] Cons.prems(2) s'(3) by simp
    show ?thesis
    proof (cases "region_run al rel rs s'")
      case (Inr s'')
      then show ?thesis using IH s'(4) unfolding run by (cases r) simp_all
    next
      case (Inl x)
      then obtain qs i ts s1 where q: "x = WildDeref" "rs = qs @ Release i # ts" "region_run al rel qs s' = Inr s1" "ok s1" "clash s1 i"
        using IH by auto
      have "r # rs = (r # qs) @ Release i # ts" "region_run al rel (r # qs) s = Inr s1" using q(2,3) run by simp_all
      then have "\<exists>qs i ts s1. r # rs = qs @ Release i # ts \<and> region_run al rel qs s = Inr s1 \<and> ok s1 \<and> clash s1 i"
        using q(4,5) by blast
      then show ?thesis using Inl q(1) unfolding run by simp
    qed
  qed
  show ?case
  proof (cases r)
    case (Alloc i sz)
    then obtain s' a where "al s i sz = Inr s'" "ok s'" "regs s' = (regs s)[i := (a, a + sz)]" "room s - sz \<le> room s'"
      using al_ok [of s i sz] Cons.prems d by (auto simp: valid_op_def)
    then show ?thesis using later [of s'] Alloc Cons.prems(3) by (simp add: map_update)
  next
    case (Release i)
    then have i: "i < n" using Cons.prems(2) by (simp add: valid_op_def)
    show ?thesis
    proof (cases "clash s i")
      case True
      have "r # rs = [] @ Release i # rs" using Release by simp
      then show ?thesis using rel_clash [OF Cons.prems(1) i True] True Cons.prems(1) Release by fastforce
    next
      case False
      then obtain s' where "rel s i = Inr s'" "ok s'" "regs s' = (regs s)[i := (0, 0)]" "room s' = room s"
        using rel_ok [OF Cons.prems(1) i] by blast
      then show ?thesis using later [of s'] Release Cons.prems(3) by (simp add: map_update)
    qed
  qed
qed simp

end

text \<open>The paging code as a region allocator.\<close>

definition area_room :: "vmctx \<Rightarrow> int" where
  "area_room c = 2 ^ 22 - sbrk (hd (mmap (c_mm c)))"

definition alloc_region :: "vmctx \<Rightarrow> nat \<Rightarrow> int \<Rightarrow> vmctx res" where
  "alloc_region c i sz = rbind (vm_alloc c 0 (int i) sz) (\<lambda>(_, _, c). Inr c)"

definition free_region :: "vmctx \<Rightarrow> nat \<Rightarrow> vmctx res" where
  "free_region c i = rbind (vm_free c 0 (int i)) (\<lambda>(_, c). Inr c)"

text \<open>
  The free regions of a process in the order of its list; the release of region \<open>i\<close> uses a freed
  node when the free region that starts at its end stands directly before the one that ends
  at its start.
\<close>

definition free_list :: "vmctx \<Rightarrow> (int \<times> int) list \<Rightarrow> bool" where
  "free_list c ys \<longleftrightarrow> (\<exists>v bs z. vm_state c v bs z ys)"

definition free_clash :: "vmctx \<Rightarrow> nat \<Rightarrow> bool" where
  "free_clash c i \<longleftrightarrow> (\<exists>s e l b a r. regions_of (c_mm c) ! i = (s, e) \<and> s < e \<and> free_list c (l @ (e, b) # (a, s) # r))"

lemma vm_state_room: "vm_state c v bs z ys \<Longrightarrow> area_room c = 2 ^ 22 - sbrk v"
  by (simp add: vm_state_def area_room_def)

lemma alloc_region_ok:
  assumes "vm_inv c" "i < PAGING_MAX_SYMTBL_SZ" "0 < sz" "sz \<le> area_room c"
  shows "\<exists>c' a. vm_alloc c 0 (int i) sz = Inr (0, a, c') \<and> vm_inv c' \<and>
    regions_of (c_mm c') = (regions_of (c_mm c))[i := (a, a + sz)] \<and> area_room c - sz \<le> area_room c'"
proof -
  obtain v bs z ys where st: "vm_state c v bs z ys" using assms(1) by (auto simp: vm_inv_def)
  have sz: "sbrk v + sz \<le> 2 ^ 22" "sz < 2 ^ 31"
    using assms(4) vm_state_room [OF st] st by (auto simp: vm_state_def)
  show ?thesis
  proof (cases "first_fit sz (ys @ [(0, 0)])")
    case None
    then obtain c' v' where "vm_alloc c 0 (int i) sz = Inr (0, sbrk v, c')" "vm_state c' v' bs z ys"
        "sbrk v' = sbrk v + sz" "regions_of (c_mm c') = (regions_of (c_mm c))[i := (sbrk v, sbrk v + sz)]"
      using vm_alloc_fresh [OF st assms(2,3) sz(1)] by blast
    then show ?thesis using vm_state_room [OF st] vm_state_room [of c' v'] by (auto simp: vm_inv_def)
  next
    case (Some a)
    then obtain r zs where "first_fit sz (ys @ [(0, 0)]) = Some (r, zs)" by (cases a) auto
    then obtain c' bs' z' ys' where c': "vm_alloc c 0 (int i) sz = Inr (0, fst r, c')" "vm_state c' v bs' z' ys'"
        "snd r = fst r + sz" "regions_of (c_mm c') = (regions_of (c_mm c))[i := r]"
      using vm_alloc_reuse [OF st assms(2,3) sz(2)] by blast
    then have "r = (fst r, fst r + sz)" by (metis prod.collapse)
    then show ?thesis
      using c' vm_state_room [OF st] vm_state_room [OF c'(2)] assms(3) by (auto simp: vm_inv_def)
  qed
qed

lemma free_region_clash:
  assumes "vm_inv c" "i < PAGING_MAX_SYMTBL_SZ" "free_clash c i"
  shows "vm_free c 0 (int i) = Inl WildDeref"
proof -
  obtain s e l b a r v bs z where st: "vm_state c v bs z (l @ (e, b) # (a, s) # r)" and r: "regions_of (c_mm c) ! i = (s, e)" "s < e"
    using assms(3) by (auto simp: free_clash_def free_list_def)
  have "merge_free s e (l @ (e, b) # (a, s) # r) = None"
    using merge_free_None_iff [OF vm_state_split_free(1) [OF st]] by blast
  then show ?thesis using vm_free_spec [OF st assms(2) r] by simp
qed

lemma free_region_ok:
  assumes "vm_inv c" "i < PAGING_MAX_SYMTBL_SZ" "\<not> free_clash c i"
  shows "\<exists>c' ys ys'. vm_free c 0 (int i) = Inr (0, c') \<and> vm_inv c' \<and>
    regions_of (c_mm c') = (regions_of (c_mm c))[i := (0, 0)] \<and> area_room c' = area_room c \<and> same_pages c c' \<and>
    free_list c ys \<and> free_list c' ys' \<and> bytes ys' = bytes ys \<union> iv (regions_of (c_mm c) ! i)"
proof -
  obtain v bs z ys where st: "vm_state c v bs z ys" using assms(1) by (auto simp: vm_inv_def)
  obtain s e where r: "regions_of (c_mm c) ! i = (s, e)" by fastforce
  obtain c' v' bs' z' ys' where c': "vm_free c 0 (int i) = Inr (0, c')" "vm_state c' v' bs' z' ys'" "sbrk v' = sbrk v"
      "bytes ys' = bytes ys \<union> iv (s, e)" "regions_of (c_mm c') = (regions_of (c_mm c))[i := (0, 0)]" "same_pages c c'"
  proof (cases "s < e")
    case True
    have "merge_free s e ys \<noteq> None"
      using assms(3) st r True merge_free_None_iff [OF vm_state_split_free(1) [OF st], of s e]
      unfolding free_clash_def free_list_def by blast
    then show thesis using vm_free_spec [OF st assms(2) r True] that by auto
  next
    case False
    then have "iv (s, e) = {}" by (simp add: iv_def)
    then show thesis using vm_free_empty [OF st assms(2) r False] that st by auto
  qed
  have "vm_inv c'" "free_list c ys" "free_list c' ys'" using st c'(2) unfolding vm_inv_def free_list_def by blast+
  moreover have "area_room c' = area_room c" using vm_state_room [OF st] vm_state_room [OF c'(2)] c'(3) by simp
  ultimately show ?thesis using c'(1,4-6) r by (intro exI [of _ c'] exI [of _ ys] exI [of _ ys']) simp
qed

lemma vm_inv_regions:
  assumes "vm_inv c"
  shows "length (regions_of (c_mm c)) = PAGING_MAX_SYMTBL_SZ" "fl_inv (live (regions_of (c_mm c)))"
  using assms by (auto simp: vm_inv_def vm_state_def regions_of_def fl_inv_append)

interpretation rg: region_allocator vm_inv PAGING_MAX_SYMTBL_SZ "\<lambda>c. regions_of (c_mm c)" area_room
  alloc_region free_region free_clash
proof
  fix c :: vmctx and i j :: nat and sz :: int
  assume c: "vm_inv c"
  show "length (regions_of (c_mm c)) = PAGING_MAX_SYMTBL_SZ" by (rule vm_inv_regions [OF c])
  show "i < j \<Longrightarrow> j < PAGING_MAX_SYMTBL_SZ \<Longrightarrow> iv (regions_of (c_mm c) ! i) \<inter> iv (regions_of (c_mm c) ! j) = {}"
    using live_disjoint vm_inv_regions [OF c] by metis
  assume i: "i < PAGING_MAX_SYMTBL_SZ"
  show "0 < sz \<Longrightarrow> sz \<le> area_room c \<Longrightarrow> \<exists>c' a. alloc_region c i sz = Inr c' \<and> vm_inv c' \<and>
      regions_of (c_mm c') = (regions_of (c_mm c))[i := (a, a + sz)] \<and> area_room c - sz \<le> area_room c'"
    using alloc_region_ok [OF c i, of sz] by (auto simp: alloc_region_def)
  show "free_clash c i \<Longrightarrow> free_region c i = Inl WildDeref"
    using free_region_clash [OF c i] by (simp add: free_region_def)
  show "\<not> free_clash c i \<Longrightarrow> \<exists>c'. free_region c i = Inr c' \<and> vm_inv c' \<and>
      regions_of (c_mm c') = (regions_of (c_mm c))[i := (0, 0)] \<and> area_room c' = area_room c"
    using free_region_ok [OF c i] by (auto simp: free_region_def)
qed

section \<open>Properties\<close>

lemma sample_vm_state: "vm_state sample_ctx (hd (mmap sample_mm)) [] 0 []"
  by (simp add: vm_state_def sample_ctx_def sample_mm_def sample_dev_ok freelist0_def freelist_def rg_val_def
      PAGING_MAX_SYMTBL_SZ_def regions_of_def live_def PAGE_ALIGNSZ_eq)

lemma sample_vm_inv: "vm_inv sample_ctx"
  using sample_vm_state by (auto simp: vm_inv_def)

lemma sample_room [simp]: "area_room sample_ctx = 2 ^ 22"
  by (simp add: area_room_def sample_ctx_def sample_mm_def)

text \<open>
  C10: any sequence of allocations and releases on the regions of a process that fits its
  address space runs to the end, and then every region has the size last asked for and no
  two regions overlap; the one exception is a release that clashes: the first part of the
  sequence runs, and in the state it leaves the free region behind the released one stands
  directly before the free region in front of it in the list.
\<close>

theorem region_ops_keep_apart:
  assumes "vm_inv c" "list_all (valid_op PAGING_MAX_SYMTBL_SZ) rs" "demand rs \<le> area_room c"
  shows "case region_run alloc_region free_region rs c of
      Inr c' \<Rightarrow> vm_inv c' \<and>
        region_sizes (regions_of (c_mm c')) = sizes_after rs (region_sizes (regions_of (c_mm c))) \<and>
        (\<forall>i j. i < j \<and> j < PAGING_MAX_SYMTBL_SZ \<longrightarrow>
           iv (regions_of (c_mm c') ! i) \<inter> iv (regions_of (c_mm c') ! j) = {})
    | Inl x \<Rightarrow> x = WildDeref \<and>
        (\<exists>qs i ts c1. rs = qs @ Release i # ts \<and> region_run alloc_region free_region qs c = Inr c1 \<and>
           vm_inv c1 \<and> free_clash c1 i)"
  using rg.run_sizes [OF assms] rg.regs_disjoint by (simp split: sum.splits)

text \<open>A run to the end: the region that is released is empty.\<close>

theorem region_ops_keep_apart_witness:
  "\<exists>c'. region_run alloc_region free_region [Alloc 0 300, Alloc 1 40, Release 5] sample_ctx = Inr c' \<and> vm_inv c' \<and>
     region_sizes (regions_of (c_mm c')) = [300, 40] @ replicate 28 0 \<and>
     iv (regions_of (c_mm c') ! 0) \<inter> iv (regions_of (c_mm c') ! 1) = {}"
proof -
  let ?run = "\<lambda>rs. region_run alloc_region free_region rs sample_ctx"
  let ?ops = "[Alloc 0 300, Alloc 1 40]"
  note P = region_ops_keep_apart [OF sample_vm_inv]
  have z: "region_sizes (regions_of (c_mm sample_ctx)) = replicate 30 0"
    by (simp add: sample_ctx_def sample_mm_def regions_of_def PAGING_MAX_SYMTBL_SZ_def)
  have v: "list_all (valid_op PAGING_MAX_SYMTBL_SZ) (?ops @ [Release 5])" "demand (?ops @ [Release 5]) \<le> area_room sample_ctx"
    by (simp_all add: valid_op_def PAGING_MAX_SYMTBL_SZ_def)
  obtain c1 where c1: "?run ?ops = Inr c1" "region_sizes (regions_of (c_mm c1)) = sizes_after ?ops (replicate 30 0)"
    using P [of ?ops] v z by (cases "?run ?ops") (auto simp: append_eq_Cons_conv Cons_eq_append_conv)
  have "snd (regions_of (c_mm c1) ! 5) - fst (regions_of (c_mm c1) ! 5) = 0"
    using arg_cong [OF c1(2), of "\<lambda>xs. xs ! 5"] arg_cong [OF c1(2), of length] by (simp add: map_eq_conv)
  then have nc: "\<not> free_clash c1 5" by (auto simp: free_clash_def)
  obtain c' where c': "?run (?ops @ [Release 5]) = Inr c'"
    using P [OF v] nc c1(1) by (cases "?run (?ops @ [Release 5])") (auto simp: append_eq_Cons_conv Cons_eq_append_conv)
  then show ?thesis using P [OF v] z by (auto simp: PAGING_MAX_SYMTBL_SZ_def eval_nat_numeral)
qed

text \<open>
  An allocation of \<open>sz\<close> bytes that the address space still holds returns 0 and enters a
  region of \<open>sz\<close> bytes that overlaps no other region, whether it reuses a free region or
  takes fresh space.
\<close>

lemma vm_alloc_region:
  assumes "vm_inv c" "i < PAGING_MAX_SYMTBL_SZ" "0 < sz" "sz \<le> area_room c"
  shows "\<exists>a c'. vm_alloc c 0 (int i) sz = Inr (0, a, c') \<and> vm_inv c' \<and> area_room c - sz \<le> area_room c' \<and>
    regions_of (c_mm c') = (regions_of (c_mm c))[i := (a, a + sz)]"
  using alloc_region_ok [OF assms] by blast

lemma vm_alloc_region_witness:
  "\<exists>a c'. vm_alloc sample_ctx 0 4 300 = Inr (0, a, c') \<and> vm_inv c' \<and>
    regions_of (c_mm c') = (regions_of (c_mm sample_ctx))[4 := (a, a + 300)]"
  using vm_alloc_region [OF sample_vm_inv, of 4 300] by (auto simp: PAGING_MAX_SYMTBL_SZ_def)

text \<open>
  Releasing a nonempty region clears its entry and adds exactly its bytes to the free
  list, or uses a freed node; the page table and the devices are not touched, so its frames
  stay in use.
\<close>

lemma vm_free_region:
  assumes "vm_state c v bs z ys" "i < PAGING_MAX_SYMTBL_SZ" "regions_of (c_mm c) ! i = (s, e)" "s < e"
  shows "case merge_free s e ys of
      None \<Rightarrow> vm_free c 0 (int i) = Inl WildDeref
    | Some (r, ys') \<Rightarrow> \<exists>c' v' bs' z'. vm_free c 0 (int i) = Inr (0, c') \<and> vm_state c' v' bs' z' ys' \<and>
        sbrk v' = sbrk v \<and> bytes ys' = bytes ys \<union> iv (s, e) \<and>
        regions_of (c_mm c') = (regions_of (c_mm c))[i := (0, 0)] \<and> same_pages c c'"
  by (rule vm_free_spec [OF assms])

text \<open>A process that owns the region \<open>[0, 100)\<close>.\<close>

definition sample_ctx1 :: vmctx where
  "sample_ctx1 = sample_ctx\<lparr>c_mm := sample_mm
     \<lparr>mmap := [(hd (mmap sample_mm))\<lparr>sbrk := 100, vm_end := 256\<rparr>],
      symrgtbl := (symrgtbl sample_mm)[3 := \<lparr>rg_start = 0, rg_end = 100, rg_next = None\<rparr>]\<rparr>\<rparr>"

lemma live_replicate [simp]: "live (replicate n (0, 0)) = []"
  by (simp add: live_def)

lemma sample_regions1: "regions_of (c_mm sample_ctx1) = (replicate 30 (0, 0))[3 := (0, 100)]"
  by (simp add: sample_ctx1_def sample_ctx_def sample_mm_def regions_of_def map_update)

lemma sample_live1: "live (regions_of (c_mm sample_ctx1)) = [(0, 100)]"
proof -
  have "(replicate 30 (0, 0))[3 := (0, 100 :: int)] = replicate 3 (0, 0) @ (0, 100) # replicate 26 (0 :: int, 0)"
    by (simp add: eval_nat_numeral)
  then show ?thesis unfolding sample_regions1 by simp
qed

lemma sample_vm_state1: "vm_state sample_ctx1 ((hd (mmap sample_mm))\<lparr>sbrk := 100, vm_end := 256\<rparr>) [] 0 []"
  unfolding vm_state_def sample_live1
  by (simp add: sample_ctx1_def sample_ctx_def sample_mm_def sample_dev_ok freelist0_def freelist_def rg_val_def
      PAGING_MAX_SYMTBL_SZ_def PAGE_ALIGNSZ_eq fl_inv_Cons iv_def)

lemma vm_free_region_witness:
  "\<exists>c' v' bs' z'. vm_free sample_ctx1 0 3 = Inr (0, c') \<and> vm_state c' v' bs' z' [(0, 100)]"
  using vm_free_region [OF sample_vm_state1, of 3 0 100]
  by (auto simp: sample_regions1 merge_free_def PAGING_MAX_SYMTBL_SZ_def)

text \<open>
  C38: \<open>pgalloc\<close> reports success when the frames run out: the result of \<open>inc_vma_limit\<close> is
  ignored, the region is entered in the table and its pages stay unmapped.
\<close>

theorem pgalloc_ignores_oom:
  assumes "vm_state c v bs z ys" "i < PAGING_MAX_SYMTBL_SZ" "0 < sz" "sbrk v + sz \<le> 2 ^ 22"
    "first_fit sz (ys @ [(0, 0)]) = None" "frames_left c < nat (grow_amt v sz)"
  shows "\<exists>c'. pgalloc c sz (int i) = Inr (0, c') \<and> pgd (c_mm c') = pgd (c_mm c) \<and>
    regions_of (c_mm c') = (regions_of (c_mm c))[i := (sbrk v, sbrk v + sz)]"
proof -
  obtain c' where c': "vm_alloc c 0 (int i) sz = Inr (0, sbrk v, c')" "space_taken sz v c c'"
      "regions_of (c_mm c') = (regions_of (c_mm c))[i := (sbrk v, sbrk v + sz)]"
    using vm_alloc_fresh [OF assms(1-5)] by blast
  have "s32 (int i) = int i" "s32 sz = sz"
    using assms(1-4) by (simp_all add: PAGING_MAX_SYMTBL_SZ_def vm_state_def)
  then show ?thesis using c' assms(6) by (simp add: pgalloc_def space_taken_def Let_def)
qed

theorem pgalloc_ignores_oom_witness:
  "\<exists>c'. pgalloc sample_ctx 4000 0 = Inr (0, c') \<and> pgd (c_mm c') = pgd (c_mm sample_ctx)"
proof -
  have "frames_left sample_ctx < nat (grow_amt (hd (mmap sample_mm)) 4000)"
    by (simp add: frames_left_def sample_ctx_def sample_mm_def grow_amt_def pages_for_def)
  then show ?thesis
    using pgalloc_ignores_oom [OF sample_vm_state, of 0 4000]
    by (auto simp: sample_mm_def PAGING_MAX_SYMTBL_SZ_def u64_def)
qed

text \<open>
  The index one past the symbol table is accepted: an allocation that fits or a release
  with \<open>rgid\<close> 30 accesses the table out of bounds.
\<close>

lemma rgid_one_past:
  assumes "vm_inv c"
  shows "vm_free c 0 (int PAGING_MAX_SYMTBL_SZ) = Inl OutOfBounds \<and>
    symrg_set (c_mm c) (int PAGING_MAX_SYMTBL_SZ) st en = Inl OutOfBounds"
proof -
  have "length (symrgtbl (c_mm c)) = PAGING_MAX_SYMTBL_SZ"
    using vm_inv_regions(1) [OF assms] by (simp add: regions_of_def)
  then show ?thesis by (simp add: vm_free_def get_symrg_byid_def symrg_set_def arr_get_def)
qed

lemma find_min_loop_max:
  "r < i \<Longrightarrow> n \<le> length arr \<Longrightarrow> i \<le> n \<Longrightarrow> (\<forall>j < i. arr ! j \<le> arr ! r) \<Longrightarrow>
     \<exists>m. find_min_loop arr n i r = Inr m \<and> m < n \<and> (\<forall>j < n. arr ! j \<le> arr ! m)"
proof (induction arr n i r rule: find_min_loop.induct)
  case (1 arr n i r)
  show ?case
  proof (cases "i < n")
    case True
    let ?r = "if arr ! r < arr ! i then i else r"
    have "find_min_loop arr n i r = find_min_loop arr n (i + 1) ?r"
      using True "1.prems" by (subst find_min_loop.simps) (simp add: arr_get_def)
    moreover have "\<forall>j < i + 1. arr ! j \<le> arr ! ?r"
      using "1.prems"(4) by (force simp: less_Suc_eq)
    ultimately show ?thesis
      using "1.IH" [OF True, of "arr ! r" "arr ! i"] "1.prems" True by auto
  next
    case False
    then have "find_min_loop arr n i r = Inr r" by (subst find_min_loop.simps) simp
    then show ?thesis using False "1.prems" by auto
  qed
qed

text \<open>
  \<open>find_min\<close> returns the index of a largest element of the array, not of a smallest one.
\<close>

lemma find_min_is_max:
  assumes "0 < n" "n \<le> length arr"
  shows "\<exists>m. find_min arr n = Inr m \<and> m < n \<and> (\<forall>j < n. arr ! j \<le> arr ! m)"
  using find_min_loop_max [of 0 1 n arr] assms by (simp add: find_min_def)

end
