(* ===== verification/OS_Access.thy ===== *)
theory OS_Access
  imports OS_VM
begin

text \<open>
  The memory of a process as seen through its page table: what \<open>pg_getval\<close>, \<open>pg_setval\<close> and
  the page fault handler of \<open>src/mm-vm.c\<close> do to the contents of its pages, and what they
  leave alone.
\<close>

section \<open>The contents of a page\<close>

definition frame_byte :: "memphy_struct \<Rightarrow> int \<Rightarrow> int \<Rightarrow> byte" where
  "frame_byte mp f k = storage mp (f * PAGING_PAGESZ + k)"

text \<open>Byte \<open>k\<close> of page \<open>p\<close>: in its RAM frame when the page is present, else in its swap frame.\<close>

definition page_byte :: "vmctx \<Rightarrow> int \<Rightarrow> int \<Rightarrow> byte" where
  "page_byte c p k =
     (let e = pgd (c_mm c) p
      in if PAGING_PAGE_PRESENT e then frame_byte (c_mram c) (PAGING_FPN e) k
         else frame_byte (c_mswp c) (PAGING_SWP e) k)"

definition in_ram :: "vmctx \<Rightarrow> int \<Rightarrow> bool" where
  "in_ram c p \<longleftrightarrow> PAGING_PAGE_PRESENT (pgd (c_mm c) p)"

text \<open>
  The map of the pages \<open>M\<close>: each has its own frame inside its device, not on a free list;
  no other page is present. The sizes keep frame numbers within the fields of an entry.
\<close>

definition ram_frame :: "vmctx \<Rightarrow> int \<Rightarrow> int" where
  "ram_frame c p = PAGING_FPN (pgd (c_mm c) p)"

definition swp_frame :: "vmctx \<Rightarrow> int \<Rightarrow> int" where
  "swp_frame c p = PAGING_SWP (pgd (c_mm c) p)"

definition ram_pages :: "int set \<Rightarrow> vmctx \<Rightarrow> int set" where
  "ram_pages M c = {p \<in> M. in_ram c p}"

definition swp_pages :: "int set \<Rightarrow> vmctx \<Rightarrow> int set" where
  "swp_pages M c = {p \<in> M. \<not> in_ram c p}"

definition devices_ok :: "vmctx \<Rightarrow> bool" where
  "devices_ok c \<longleftrightarrow>
     frames_ok (c_mram c) \<and> frames_ok (c_mswp c) \<and> rdmflg (c_mram c) \<and> rdmflg (c_mswp c) \<and>
     maxsz (c_mram c) \<le> 2 ^ 21 \<and> maxsz (c_mswp c) \<le> 2 ^ 29"

definition map_ok :: "int set \<Rightarrow> vmctx \<Rightarrow> bool" where
  "map_ok M c \<longleftrightarrow>
     M \<subseteq> {0 ..< PAGING_MAX_PGN} \<and> (\<forall>p \<in> {0 ..< PAGING_MAX_PGN}. in_ram c p \<longrightarrow> p \<in> M) \<and>
     inj_on (ram_frame c) (ram_pages M c) \<and> inj_on (swp_frame c) (swp_pages M c) \<and>
     ram_frame c ` ram_pages M c \<subseteq> Collect (frame_in (c_mram c)) - set (free_of (c_mram c)) \<and>
     swp_frame c ` swp_pages M c \<subseteq> Collect (frame_in (c_mswp c)) - set (free_of (c_mswp c))"

lemma page_byte_ram: "in_ram c p \<Longrightarrow> page_byte c p k = frame_byte (c_mram c) (ram_frame c p) k"
  by (simp add: page_byte_def in_ram_def ram_frame_def Let_def)

lemma page_byte_swp: "\<not> in_ram c p \<Longrightarrow> page_byte c p k = frame_byte (c_mswp c) (swp_frame c p) k"
  by (simp add: page_byte_def in_ram_def swp_frame_def Let_def)

lemma frame_split:
  assumes "0 \<le> k" "k < 256" "0 \<le> k'" "k' < (256 :: int)"
  shows "f * 256 + k = f' * 256 + k' \<longleftrightarrow> f = f' \<and> k = k'"
proof
  assume e: "f * 256 + k = f' * 256 + k'"
  then have "(f * 256 + k) div 256 = (f' * 256 + k') div 256" by simp
  then have "f = f'" using assms by simp
  then show "f = f' \<and> k = k'" using e by simp
qed simp

section \<open>Access to a present page\<close>

definition phys :: "vmctx \<Rightarrow> int \<Rightarrow> int" where
  "phys c a = ram_frame c (PAGING_PGN a) * 256 + PAGING_OFFST a"

lemma phys_bounds:
  assumes "frame_in (c_mram c) (ram_frame c (PAGING_PGN a))"
  shows "0 \<le> phys c a" "phys c a < maxsz (c_mram c)"
  using assms PAGING_OFFST_bounds [of a] by (auto simp: phys_def frame_in_def PAGING_PAGESZ_def)

lemma pg_getpage_present:
  assumes "in_ram c p" "0 \<le> p" "p < PAGING_MAX_PGN"
  shows "pg_getpage c p = Inr (0, Some (ram_frame c p), c)"
  using assms by (simp add: pg_getpage_def pgd_get_def in_ram_def ram_frame_def)

lemma access_present:
  assumes p: "in_ram c (PAGING_PGN a)" and f: "frame_in (c_mram c) (ram_frame c (PAGING_PGN a))"
    and r: "rdmflg (c_mram c)"
  shows "pg_getval c a = Inr (0, Some (storage (c_mram c) (phys c a)), c)"
    "pg_setval c a v = Inr (0, c\<lparr>c_mram := (c_mram c)\<lparr>storage := (storage (c_mram c))(phys c a := v)\<rparr>\<rparr>)"
proof -
  note g = pg_getpage_present [OF p] PAGING_PGN_bounds [of a]
  have ph: "push_bit 8 (ram_frame c (PAGING_PGN a)) + PAGING_OFFST a = phys c a"
    by (simp add: phys_def push_bit_eq_mult)
  note b = phys_bounds [OF f]
  show "pg_getval c a = Inr (0, Some (storage (c_mram c) (phys c a)), c)"
    using g b r by (simp add: pg_getval_def Let_def ph MEMPHY_read_def storage_get_def)
  show "pg_setval c a v = Inr (0, c\<lparr>c_mram := (c_mram c)\<lparr>storage := (storage (c_mram c))(phys c a := v)\<rparr>\<rparr>)"
    using g b r by (simp add: pg_setval_def Let_def ph MEMPHY_write_def storage_set_def)
qed

text \<open>The addresses of the present pages form a byte store.\<close>

definition vread :: "vmctx \<Rightarrow> int \<Rightarrow> byte res" where
  "vread c a = rbind (pg_getval c a) (\<lambda>(_, v, _). case v of None \<Rightarrow> Inl UninitRead | Some v \<Rightarrow> Inr v)"

definition vwrite :: "vmctx \<Rightarrow> int \<Rightarrow> byte \<Rightarrow> vmctx res" where
  "vwrite c a v = rbind (pg_setval c a v) (\<lambda>(_, c). Inr c)"

definition resident :: "vmctx \<Rightarrow> int set" where
  "resident c = {a. 0 \<le> a \<and> a < 2 ^ 22 \<and> in_ram c (PAGING_PGN a)}"

definition access_ok :: "vmctx \<Rightarrow> bool" where
  "access_ok c \<longleftrightarrow> devices_ok c \<and> (\<exists>M. map_ok M c)"

lemma access_ok_frames:
  assumes "access_ok c" "0 \<le> p" "p < PAGING_MAX_PGN" "in_ram c p"
  shows "frame_in (c_mram c) (ram_frame c p)" "rdmflg (c_mram c)"
    "\<And>q. 0 \<le> q \<Longrightarrow> q < PAGING_MAX_PGN \<Longrightarrow> in_ram c q \<Longrightarrow> ram_frame c q = ram_frame c p \<Longrightarrow> q = p"
proof -
  obtain M where M: "map_ok M c" using assms(1) by (auto simp: access_ok_def)
  have mem: "q \<in> ram_pages M c" if "0 \<le> q" "q < PAGING_MAX_PGN" "in_ram c q" for q
    using M that by (auto simp: map_ok_def ram_pages_def)
  show "frame_in (c_mram c) (ram_frame c p)" using M mem [OF assms(2-4)] by (auto simp: map_ok_def)
  show "rdmflg (c_mram c)" using assms(1) by (simp add: access_ok_def devices_ok_def)
  show "q = p" if "0 \<le> q" "q < PAGING_MAX_PGN" "in_ram c q" "ram_frame c q = ram_frame c p" for q
    using M mem [OF assms(2-4)] mem [OF that(1-3)] that(4) by (auto simp: map_ok_def inj_on_def)
qed

lemma phys_inj:
  assumes "access_ok c" "a \<in> resident c" "b \<in> resident c"
  shows "phys c a = phys c b \<longleftrightarrow> a = b"
proof
  assume e: "phys c a = phys c b"
  note pb = PAGING_PGN_bounds
  have "ram_frame c (PAGING_PGN a) = ram_frame c (PAGING_PGN b)" "PAGING_OFFST a = PAGING_OFFST b"
    using e frame_split PAGING_OFFST_bounds unfolding phys_def by blast+
  then have "PAGING_PGN a = PAGING_PGN b" "PAGING_OFFST a = PAGING_OFFST b"
    using access_ok_frames(3) [OF assms(1), of "PAGING_PGN b" "PAGING_PGN a"] pb [of a] pb [of b] assms(2,3)
    by (auto simp: resident_def)
  moreover have "x div 256 mod 16384 = x div 256" if "x \<in> resident c" for x
    using that by (intro mod_pos_pos_trivial) (auto simp: resident_def)
  ultimately have "a div 256 = b div 256" "a mod 256 = b mod 256"
    using assms(2,3) by (simp_all add: PAGING_PGN_div PAGING_OFFST_mod)
  then show "a = b" by (metis div_mult_mod_eq)
qed simp

definition put_byte :: "vmctx \<Rightarrow> int \<Rightarrow> byte \<Rightarrow> vmctx" where
  "put_byte c x v = c\<lparr>c_mram := (c_mram c)\<lparr>storage := (storage (c_mram c))(x := v)\<rparr>\<rparr>"

lemma put_byte_mm [simp]: "c_mm (put_byte c x v) = c_mm c" "c_mswp (put_byte c x v) = c_mswp c"
  by (simp_all add: put_byte_def)

lemma put_byte_storage [simp]: "storage (c_mram (put_byte c x v)) = (storage (c_mram c))(x := v)"
  by (simp add: put_byte_def)

lemma put_byte_frames [simp]:
  "frames_ok (c_mram (put_byte c x v)) = frames_ok (c_mram c)"
  "frame_in (c_mram (put_byte c x v)) = frame_in (c_mram c)"
  "free_of (c_mram (put_byte c x v)) = free_of (c_mram c)"
  "rdmflg (c_mram (put_byte c x v)) = rdmflg (c_mram c)" "maxsz (c_mram (put_byte c x v)) = maxsz (c_mram c)"
  by (simp_all add: put_byte_def frames_ok_def frame_in_def [abs_def])

lemma put_byte_map [simp]:
  "in_ram (put_byte c x v) = in_ram c" "ram_frame (put_byte c x v) = ram_frame c"
  "swp_frame (put_byte c x v) = swp_frame c"
  by (simp_all add: fun_eq_iff in_ram_def ram_frame_def swp_frame_def)

lemma put_byte_keeps [simp]:
  "resident (put_byte c x v) = resident c" "phys (put_byte c x v) = phys c"
  "devices_ok (put_byte c x v) = devices_ok c" "map_ok M (put_byte c x v) = map_ok M c"
  by (simp_all add: fun_eq_iff resident_def phys_def devices_ok_def map_ok_def ram_pages_def swp_pages_def)

lemma put_byte_access [simp]: "access_ok (put_byte c x v) = access_ok c"
  by (simp add: access_ok_def)

lemma resident_access:
  assumes "access_ok c" "a \<in> resident c"
  shows "vread c a = Inr (storage (c_mram c) (phys c a))" "vwrite c a v = Inr (put_byte c (phys c a) v)"
  using access_present [of c a] access_ok_frames(1,2) [OF assms(1) PAGING_PGN_bounds(1) [of a]]
    PAGING_PGN_bounds [of a] assms(2)
  by (auto simp: vread_def vwrite_def resident_def put_byte_def)

interpretation va: byte_store vread vwrite resident access_ok
proof
  fix c a b v c'
  assume c: "access_ok c" and a: "a \<in> resident c"
  show "\<exists>v. vread c a = Inr v" using resident_access [OF c a] by simp
  show "\<exists>c'. vwrite c a v = Inr c' \<and> access_ok c' \<and> resident c' = resident c"
    using resident_access [OF c a] c by simp
  assume b: "b \<in> resident c" and w: "vwrite c a v = Inr c'"
  have "c' = put_byte c (phys c a) v" using resident_access [OF c a] w by simp
  then show "vread c' b = (if b = a then Inr v else vread c b)"
    using resident_access(1) [of c' b] resident_access(1) [OF c b] phys_inj [OF c a b] b c
    by (auto simp del: fun_upd_apply simp: fun_upd_def)
qed

section \<open>The victim\<close>

text \<open>
  A victim that is found is a present page with an entry in the page table, whatever the page
  list holds.
\<close>

lemma victim_loop_result:
  "victim_loop m l = Inr (x, w) \<Longrightarrow>
     (case w of None \<Rightarrow> x = 0 | Some v \<Rightarrow> x = 1 \<and> PAGING_PAGE_PRESENT (pgd m v) \<and> 0 \<le> v \<and> v < PAGING_MAX_PGN)"
  by (induction l) (auto simp: pgd_get_def split: if_splits)

lemma find_victim_page_result:
  "find_victim_page (c_mm c) = Inr (x, w) \<Longrightarrow>
     (case w of None \<Rightarrow> x = 0 | Some v \<Rightarrow> x = 1 \<and> in_ram c v \<and> 0 \<le> v \<and> v < PAGING_MAX_PGN)"
  using victim_loop_result [of "c_mm c" "fifo_pgn (c_mm c)" x w]
  by (auto simp: find_victim_page_def in_ram_def split: option.splits)

section \<open>Copying a frame\<close>

lemma frame_byte_storage [simp]: "frame_byte (m\<lparr>free_fp_list := l\<rparr>) = frame_byte m"
  by (simp add: fun_eq_iff frame_byte_def)

lemma mp_read_frame:
  assumes "rdmflg m" "frame_in m f" "0 \<le> k" "k < 256"
  shows "mp_read m (f * PAGING_PAGESZ + k) = Inr (frame_byte m f k)"
  using assms by (auto simp: mp_read_rdm storage_get_def frame_byte_def frame_in_def PAGING_PAGESZ_def)

lemma in_frame_iff:
  assumes "0 \<le> k" "k < 256"
  shows "df * PAGING_PAGESZ \<le> f * PAGING_PAGESZ + k \<and> f * PAGING_PAGESZ + k < (df + 1) * PAGING_PAGESZ \<longleftrightarrow> f = df"
  using assms by (auto simp: PAGING_PAGESZ_def)

lemma swap_cp_frames:
  assumes rdm: "rdmflg src" "rdmflg dst" and sf: "frame_in src sf" and df: "frame_in dst df"
  shows "\<exists>st. swap_cp_page src sf dst df = Inr (0, src, dst\<lparr>storage := st\<rparr>) \<and>
    (\<forall>f k. frame_in dst f \<longrightarrow> 0 \<le> k \<longrightarrow> k < 256 \<longrightarrow>
      frame_byte (dst\<lparr>storage := st\<rparr>) f k = (if f = df then frame_byte src sf k else frame_byte dst f k))"
proof -
  obtain st where st: "swap_cp_page src sf dst df = Inr (0, src, dst\<lparr>storage := st\<rparr>)"
    "\<And>a. mp_read (dst\<lparr>storage := st\<rparr>) a =
      (if df * PAGING_PAGESZ \<le> a \<and> a < (df + 1) * PAGING_PAGESZ
       then mp_read src (sf * PAGING_PAGESZ + (a - df * PAGING_PAGESZ)) else mp_read dst a)"
    using swap_cp_page_copies [OF rdm sf df] by blast
  have "frame_byte (dst\<lparr>storage := st\<rparr>) f k = (if f = df then frame_byte src sf k else frame_byte dst f k)"
    if f: "frame_in dst f" and k: "0 \<le> k" "k < 256" for f k
    using st(2) [of "f * PAGING_PAGESZ + k"] in_frame_iff [OF k, of df f] rdm
      mp_read_frame [of "dst\<lparr>storage := st\<rparr>" f k] mp_read_frame [of dst f k] mp_read_frame [of src sf k] f sf k
    by (auto split: if_splits)
  then show ?thesis using st(1) by blast
qed

section \<open>Page faults\<close>

text \<open>What a process can reach of a device: the frames of its pages and the free frames.\<close>

definition ram_reach :: "int set \<Rightarrow> vmctx \<Rightarrow> int set" where
  "ram_reach M c = ram_frame c ` ram_pages M c \<union> set (free_of (c_mram c))"

definition swp_reach :: "int set \<Rightarrow> vmctx \<Rightarrow> int set" where
  "swp_reach M c = swp_frame c ` swp_pages M c \<union> set (free_of (c_mswp c))"

definition untouched :: "int set \<Rightarrow> memphy_struct \<Rightarrow> memphy_struct \<Rightarrow> bool" where
  "untouched F mp mp' \<longleftrightarrow> maxsz mp' = maxsz mp \<and>
     (\<forall>f k. frame_in mp f \<longrightarrow> f \<notin> F \<longrightarrow> 0 \<le> k \<longrightarrow> k < PAGING_PAGESZ \<longrightarrow>
        frame_byte mp' f k = frame_byte mp f k)"

definition confined :: "int set \<Rightarrow> vmctx \<Rightarrow> int set \<Rightarrow> vmctx \<Rightarrow> bool" where
  "confined M c M' c' \<longleftrightarrow>
     ram_reach M' c' \<subseteq> ram_reach M c \<and> swp_reach M' c' \<subseteq> swp_reach M c \<and>
     untouched (ram_reach M c) (c_mram c) (c_mram c') \<and> untouched (swp_reach M c) (c_mswp c) (c_mswp c')"

lemma untouched_mono:
  "untouched F a b \<Longrightarrow> F \<subseteq> G \<Longrightarrow> untouched G a b"
  by (auto simp: untouched_def)

lemma untouched_trans: "untouched F a b \<Longrightarrow> untouched F b c \<Longrightarrow> untouched F a c"
  by (auto simp: untouched_def frame_in_def)

lemma confined_refl: "confined M c M c"
  by (simp add: confined_def untouched_def)

lemma confined_trans:
  assumes "confined M c M1 c1" "confined M1 c1 M2 c2"
  shows "confined M c M2 c2"
  using assms untouched_trans untouched_mono unfolding confined_def by (meson subset_trans)

text \<open>The state after the fault, given the contents the two copies leave.\<close>

definition faulted :: "vmctx \<Rightarrow> int \<Rightarrow> int \<Rightarrow> int \<Rightarrow> (int \<Rightarrow> byte) \<Rightarrow> (int \<Rightarrow> byte) \<Rightarrow> vmctx" where
  "faulted c pgn v f st_ram st_swp =
     (let m = c_mm c; e = pgd m v
      in c\<lparr>c_mm := m\<lparr>pgd := (pgd m)(v := pte_set_swap e 0 f,
                                   pgn := pte_set_fpn (pgd m pgn) (PAGING_FPN e)),
                     fifo_pgn := CNode pgn (fifo_pgn m)\<rparr>,
           c_mram := (c_mram c)\<lparr>storage := st_ram\<rparr>,
           c_mswp := (c_mswp c)\<lparr>free_fp_list := clist_of (tl (free_of (c_mswp c))), storage := st_swp\<rparr>\<rparr>)"

lemma faulted_map:
  assumes "pgn \<noteq> v" and f: "0 \<le> f" "f < 2097152"
  shows "in_ram (faulted c pgn v f a b) p \<longleftrightarrow> p = pgn \<or> p \<noteq> v \<and> in_ram c p"
    "ram_frame (faulted c pgn v f a b) p = (if p = pgn then ram_frame c v else if p = v then 32 * (f mod 256) else ram_frame c p)"
    "p \<noteq> pgn \<Longrightarrow> swp_frame (faulted c pgn v f a b) p = (if p = v then f else swp_frame c p)"
  using assms PAGING_FPN_bounds [of "pgd (c_mm c) v"]
  by (auto simp: in_ram_def ram_frame_def swp_frame_def faulted_def Let_def FPN_pte_set_fpn SWP_pte_set_swap
      FPN_pte_set_swap)

text \<open>
  A fault the handler can serve: the page is one of the process's pages and swapped out, the
  page list holds a present page \<open>v\<close>, and swap has a free frame \<open>f\<close>.
\<close>

definition fault_ready :: "int set \<Rightarrow> vmctx \<Rightarrow> int \<Rightarrow> int \<Rightarrow> int \<Rightarrow> bool" where
  "fault_ready M c pgn v f \<longleftrightarrow>
     devices_ok c \<and> map_ok M c \<and> pgn \<in> M \<and> \<not> in_ram c pgn \<and>
     find_victim_page (c_mm c) = Inr (1, Some v) \<and>
     free_of (c_mswp c) \<noteq> [] \<and> hd (free_of (c_mswp c)) = f"

lemma fault_ready_D:
  assumes "fault_ready M c pgn v f"
  shows "v \<in> M" "in_ram c v" "v \<noteq> pgn" "frame_in (c_mram c) (ram_frame c v)"
    "frame_in (c_mswp c) (swp_frame c pgn)" "frame_in (c_mswp c) f" "swp_frame c pgn \<noteq> f"
    "0 \<le> f" "f < 2097152" "0 \<le> v" "v < PAGING_MAX_PGN" "0 \<le> pgn" "pgn < PAGING_MAX_PGN"
proof -
  have c: "devices_ok c" "map_ok M c" "pgn \<in> M" "\<not> in_ram c pgn" "f \<in> set (free_of (c_mswp c))"
    using assms by (auto simp: fault_ready_def)
  have v: "in_ram c v" and vb: "0 \<le> v" "v < PAGING_MAX_PGN"
    using find_victim_page_result [of c 1 "Some v"] assms by (simp_all add: fault_ready_def)
  show "in_ram c v" "v \<noteq> pgn" "0 \<le> v" "v < PAGING_MAX_PGN" using v vb c(4) by auto
  show vM: "v \<in> M" using c(2) v vb by (auto simp: map_ok_def)
  show "0 \<le> pgn" "pgn < PAGING_MAX_PGN" using c(2,3) by (auto simp: map_ok_def)
  show "frame_in (c_mram c) (ram_frame c v)"
    using c(2) vM v by (auto simp: map_ok_def ram_pages_def)
  have p: "swp_frame c pgn \<in> Collect (frame_in (c_mswp c)) - set (free_of (c_mswp c))"
    using c(2-4) by (auto simp: map_ok_def swp_pages_def)
  then show "frame_in (c_mswp c) (swp_frame c pgn)" "swp_frame c pgn \<noteq> f" using c(5) by auto
  show fi: "frame_in (c_mswp c) f" using c(1,5) by (auto simp: devices_ok_def frames_ok_def list_all_iff)
  then show "0 \<le> f" "f < 2097152" using c(1) by (auto simp: devices_ok_def frame_in_def PAGING_PAGESZ_def)
qed

lemma page_fault_run:
  assumes rdy: "fault_ready M c pgn v f"
  shows "\<exists>sr ss. page_fault c pgn (pgd (c_mm c) pgn) = Inr (0, faulted c pgn v f sr ss) \<and>
    (\<forall>g k. frame_in (c_mram c) g \<longrightarrow> 0 \<le> k \<longrightarrow> k < 256 \<longrightarrow> frame_byte (c_mram (faulted c pgn v f sr ss)) g k =
      (if g = ram_frame c v then frame_byte (c_mswp c) (swp_frame c pgn) k else frame_byte (c_mram c) g k)) \<and>
    (\<forall>g k. frame_in (c_mswp c) g \<longrightarrow> 0 \<le> k \<longrightarrow> k < 256 \<longrightarrow> frame_byte (c_mswp (faulted c pgn v f sr ss)) g k =
      (if g = f then frame_byte (c_mram c) (ram_frame c v) k else frame_byte (c_mswp c) g k))"
proof -
  let ?m = "c_mm c"
  note D = fault_ready_D [OF rdy]
  obtain r where r: "free_fp_list (c_mswp c) = CNode f r" "celems r = tl (free_of (c_mswp c))"
      "MEMPHY_get_freefp (c_mswp c) = Inr (0, Some f, (c_mswp c)\<lparr>free_fp_list := r\<rparr>)"
    using get_freefp_Cons [of "c_mswp c" f "tl (free_of (c_mswp c))"] rdy
    by (auto simp: fault_ready_def)
  have "proper r" using rdy r(1) by (simp add: fault_ready_def devices_ok_def frames_ok_def)
  then have r': "r = clist_of (tl (free_of (c_mswp c)))" using clist_of_celems r(2) by metis
  let ?sw = "(c_mswp c)\<lparr>free_fp_list := r\<rparr>"
  have rdm: "rdmflg (c_mram c)" "rdmflg ?sw" using rdy by (simp_all add: fault_ready_def devices_ok_def)
  obtain ss where ss: "swap_cp_page (c_mram c) (ram_frame c v) ?sw f = Inr (0, c_mram c, ?sw\<lparr>storage := ss\<rparr>)"
    "\<And>g k. frame_in (c_mswp c) g \<Longrightarrow> 0 \<le> k \<Longrightarrow> k < 256 \<Longrightarrow> frame_byte (?sw\<lparr>storage := ss\<rparr>) g k =
      (if g = f then frame_byte (c_mram c) (ram_frame c v) k else frame_byte (c_mswp c) g k)"
    using swap_cp_frames [OF rdm D(4), of f] D(6) by auto
  obtain sr where sr: "swap_cp_page (?sw\<lparr>storage := ss\<rparr>) (swp_frame c pgn) (c_mram c) (ram_frame c v) =
      Inr (0, ?sw\<lparr>storage := ss\<rparr>, (c_mram c)\<lparr>storage := sr\<rparr>)"
    "\<And>g k. frame_in (c_mram c) g \<Longrightarrow> 0 \<le> k \<Longrightarrow> k < 256 \<Longrightarrow> frame_byte ((c_mram c)\<lparr>storage := sr\<rparr>) g k =
      (if g = ram_frame c v then frame_byte (?sw\<lparr>storage := ss\<rparr>) (swp_frame c pgn) k else frame_byte (c_mram c) g k)"
    using swap_cp_frames [of "?sw\<lparr>storage := ss\<rparr>" "c_mram c" "swp_frame c pgn" "ram_frame c v"] rdm D(4,5) by auto
  have vic: "find_victim_page ?m = Inr (1, Some v)"
    using rdy by (simp add: fault_ready_def)
  have "page_fault c pgn (pgd ?m pgn) = Inr (0, faulted c pgn v f sr ss)"
    using vic r(3) ss(1) sr(1) D(3,10-13)
    by (simp add: page_fault_def faulted_def Let_def pgd_get_def pgd_set_def ram_frame_def swp_frame_def
        enlist_pgn_node_def r')
  moreover have "c_mram (faulted c pgn v f sr ss) = (c_mram c)\<lparr>storage := sr\<rparr>"
      "c_mswp (faulted c pgn v f sr ss) = ?sw\<lparr>storage := ss\<rparr>"
    by (simp_all add: faulted_def Let_def r')
  moreover have "frame_byte (?sw\<lparr>storage := ss\<rparr>) (swp_frame c pgn) k = frame_byte (c_mswp c) (swp_frame c pgn) k"
    if "0 \<le> k" "k < 256" for k
    using ss(2) [of "swp_frame c pgn" k] D(5,7) that by simp
  ultimately show ?thesis using ss(2) sr(2) by (intro exI [of _ sr] exI [of _ ss]) auto
qed

lemma inj_on_replace:
  assumes "inj_on g A" "\<And>x. x \<in> A \<Longrightarrow> x \<noteq> v \<Longrightarrow> x \<noteq> w \<Longrightarrow> h x = g x" "h w \<notin> g ` (A - {v, w})"
  shows "inj_on h (insert w (A - {v}))"
proof (rule inj_onI)
  fix x y assume xy: "x \<in> insert w (A - {v})" "y \<in> insert w (A - {v})" "h x = h y"
  have "h u \<noteq> h w" if "u \<in> A - {v}" "u \<noteq> w" for u
    using assms(2) [of u] assms(3) that by (metis Diff_iff imageI insert_iff)
  moreover have "x = y" if "x \<in> A - {v, w}" "y \<in> A - {v, w}"
    using assms(1) assms(2) [of x] assms(2) [of y] that xy(3) by (auto simp: inj_on_def)
  ultimately show "x = y" using xy by fastforce
qed

lemma faulted_pages:
  fixes a b :: "int \<Rightarrow> byte"
  assumes rdy: "fault_ready M c pgn v f"
  defines "c' \<equiv> faulted c pgn v f a b"
  shows "ram_pages M c' = insert pgn (ram_pages M c - {v})"
    "swp_pages M c' = insert v (swp_pages M c - {pgn})"
    "ram_frame c' ` ram_pages M c' = ram_frame c ` ram_pages M c"
    "swp_frame c' ` swp_pages M c' = insert f (swp_frame c ` (swp_pages M c - {pgn}))"
proof -
  note D = fault_ready_D [OF rdy]
  note fm = faulted_map [OF D(3) [symmetric] D(8,9), where c = c and a = a and b = b, folded c'_def]
  have M: "pgn \<in> M" "\<not> in_ram c pgn" using rdy by (auto simp: fault_ready_def)
  show R: "ram_pages M c' = insert pgn (ram_pages M c - {v})"
    and S: "swp_pages M c' = insert v (swp_pages M c - {pgn})"
    using fm(1) D(1-3) M by (auto simp: ram_pages_def swp_pages_def)
  have v: "v \<in> ram_pages M c" "v \<notin> swp_pages M c" "pgn \<notin> ram_pages M c"
    using D(1,2) M by (auto simp: ram_pages_def swp_pages_def)
  have "ram_frame c' ` (ram_pages M c - {v}) = ram_frame c ` (ram_pages M c - {v})"
    using v(3) by (intro image_cong) (auto simp: fm(2))
  then have "ram_frame c' ` ram_pages M c' = insert (ram_frame c v) (ram_frame c ` (ram_pages M c - {v}))"
    unfolding R using fm(2) [of pgn] by (simp del: fm(2))
  also have "\<dots> = ram_frame c ` ram_pages M c"
    using v(1) by (metis image_insert insert_Diff)
  finally show "ram_frame c' ` ram_pages M c' = ram_frame c ` ram_pages M c" .
  have "swp_frame c' ` (swp_pages M c - {pgn}) = swp_frame c ` (swp_pages M c - {pgn})"
    using v(2) by (intro image_cong) (auto simp: fm(3))
  then show "swp_frame c' ` swp_pages M c' = insert f (swp_frame c ` (swp_pages M c - {pgn}))"
    unfolding S using fm(3) D(3) by simp
qed

lemma faulted_map_ok:
  fixes a b :: "int \<Rightarrow> byte"
  assumes rdy: "fault_ready M c pgn v f"
  defines "c' \<equiv> faulted c pgn v f a b"
  shows "map_ok M c'" "devices_ok c'"
proof -
  note D = fault_ready_D [OF rdy]
  note fm = faulted_map [OF D(3) [symmetric] D(8,9), where c = c and a = a and b = b, folded c'_def]
  note P = faulted_pages [OF rdy, of a b, folded c'_def]
  have ok: "map_ok M c" "devices_ok c" "pgn \<in> M" "\<not> in_ram c pgn"
    using rdy by (simp_all add: fault_ready_def)
  obtain fs where fs: "free_of (c_mswp c) = f # fs"
    using rdy by (cases "free_of (c_mswp c)") (auto simp: fault_ready_def)
  have dev: "free_of (c_mram c') = free_of (c_mram c)" "free_of (c_mswp c') = fs"
      "frame_in (c_mram c') = frame_in (c_mram c)" "frame_in (c_mswp c') = frame_in (c_mswp c)"
    using fs by (simp_all add: c'_def faulted_def Let_def)
  have fresh: "f \<notin> set fs" "f \<notin> swp_frame c ` swp_pages M c"
    using ok(1,2) fs by (auto simp: devices_ok_def frames_ok_def map_ok_def)
  have injr: "inj_on (ram_frame c) (ram_pages M c)" and injs: "inj_on (swp_frame c) (swp_pages M c)"
    using ok(1) by (simp_all add: map_ok_def)
  have vR: "ram_frame c v \<notin> ram_frame c ` (ram_pages M c - {v, pgn})"
    using injr D(1,2) by (auto simp: inj_on_def ram_pages_def)
  have inj: "inj_on (ram_frame c') (ram_pages M c')"
    unfolding P(1) using injr fm(2) vR by (intro inj_on_replace [where g = "ram_frame c"]) auto
  have inj2: "inj_on (swp_frame c') (swp_pages M c')"
    unfolding P(2) using injs fm(3) fresh D(3) by (intro inj_on_replace [where g = "swp_frame c"]) auto
  show "map_ok M c'"
    using ok(1) inj inj2 P(3,4) fm(1) dev fresh(1) D(6) ok(3) fs unfolding map_ok_def by auto
  show "devices_ok c'"
    using ok(2) fs by (auto simp: devices_ok_def frames_ok_def c'_def faulted_def Let_def)
qed

text \<open>
  A page fault moves pages between the devices and changes the contents of none: every page
  of the process keeps its bytes, the faulting page is present, and no frame outside the
  process's reach is written.
\<close>

definition same_regions :: "vmctx \<Rightarrow> vmctx \<Rightarrow> bool" where
  "same_regions c c' \<longleftrightarrow> mmap (c_mm c') = mmap (c_mm c) \<and> symrgtbl (c_mm c') = symrgtbl (c_mm c) \<and>
     rgs (c_mm c') = rgs (c_mm c)"

lemma page_fault_spec:
  assumes rdy: "fault_ready M c pgn v f"
  shows "\<exists>c'. page_fault c pgn (pgd (c_mm c) pgn) = Inr (0, c') \<and> in_ram c' pgn \<and> \<not> in_ram c' v \<and>
    map_ok M c' \<and> devices_ok c' \<and> confined M c M c' \<and> same_regions c c' \<and>
    (\<forall>p \<in> M. \<forall>k \<in> {0 ..< PAGING_PAGESZ}. page_byte c' p k = page_byte c p k)"
proof -
  note D = fault_ready_D [OF rdy]
  obtain sr ss where run: "page_fault c pgn (pgd (c_mm c) pgn) = Inr (0, faulted c pgn v f sr ss)"
    "\<And>g k. frame_in (c_mram c) g \<Longrightarrow> 0 \<le> k \<Longrightarrow> k < 256 \<Longrightarrow> frame_byte (c_mram (faulted c pgn v f sr ss)) g k =
      (if g = ram_frame c v then frame_byte (c_mswp c) (swp_frame c pgn) k else frame_byte (c_mram c) g k)"
    "\<And>g k. frame_in (c_mswp c) g \<Longrightarrow> 0 \<le> k \<Longrightarrow> k < 256 \<Longrightarrow> frame_byte (c_mswp (faulted c pgn v f sr ss)) g k =
      (if g = f then frame_byte (c_mram c) (ram_frame c v) k else frame_byte (c_mswp c) g k)"
    using page_fault_run [OF rdy] by blast
  let ?c = "faulted c pgn v f sr ss"
  note fm = faulted_map [OF D(3) [symmetric] D(8,9), where c = c and a = sr and b = ss]
  note P = faulted_pages [OF rdy, of sr ss] and ok' = faulted_map_ok [OF rdy, of sr ss]
  have ok: "map_ok M c" "pgn \<in> M" "\<not> in_ram c pgn" "f \<in> set (free_of (c_mswp c))"
    using rdy by (auto simp: fault_ready_def)
  have bytes: "page_byte ?c p k = page_byte c p k" if "p \<in> M" "k \<in> {0 ..< PAGING_PAGESZ}" for p k
  proof -
    have k: "0 \<le> k" "k < 256" using that(2) by (auto simp: PAGING_PAGESZ_def)
    have fr: "frame_in (c_mram c) (ram_frame c p)" "in_ram c p \<Longrightarrow> ram_frame c p = ram_frame c v \<Longrightarrow> p = v"
      if "in_ram c p" using ok(1) D(1,2) \<open>p \<in> M\<close> that by (auto simp: map_ok_def ram_pages_def inj_on_def)
    have fs: "frame_in (c_mswp c) (swp_frame c p)" "swp_frame c p \<noteq> f" if "\<not> in_ram c p"
      using ok(1,4) \<open>p \<in> M\<close> that by (auto simp: map_ok_def swp_pages_def)
    consider "p = pgn" | "p = v" | "p \<noteq> pgn" "p \<noteq> v" "in_ram c p" | "p \<noteq> pgn" "p \<noteq> v" "\<not> in_ram c p" by blast
    then show ?thesis
      using run(2,3) k fm D(2-7) ok(3) fr fs by cases (auto simp: page_byte_ram page_byte_swp)
  qed
  have sub: "free_of (c_mram ?c) = free_of (c_mram c)" "set (free_of (c_mswp ?c)) \<subseteq> set (free_of (c_mswp c))"
      "maxsz (c_mram ?c) = maxsz (c_mram c)" "maxsz (c_mswp ?c) = maxsz (c_mswp c)"
    by (auto simp: faulted_def Let_def dest: list.set_sel(2) [rotated])
      (metis list.set_sel(2) list.sel(2) tl_Nil)
  have "ram_frame c v \<in> ram_reach M c" "f \<in> swp_reach M c"
    using D(1,2) ok(4) by (auto simp: ram_reach_def swp_reach_def ram_pages_def)
  then have "confined M c M ?c"
    using P(3,4) sub run(2,3) ok(4) by (auto simp: confined_def untouched_def ram_reach_def swp_reach_def PAGING_PAGESZ_def)
  moreover have "same_regions c ?c" by (simp add: same_regions_def faulted_def Let_def)
  ultimately show ?thesis using run(1) ok' bytes fm(1) D(3) by auto
qed

section \<open>Access to a swapped page\<close>

text \<open>
  The first access to a swapped page brings it in, but is handed the frame number read from
  the old entry. Any later access uses the new entry and finds the page's bytes.
\<close>

lemma pg_getpage_fault:
  assumes rdy: "fault_ready M c pgn v f"
  shows "\<exists>c'. pg_getpage c pgn = Inr (0, Some (PAGING_FPN (pgd (c_mm c) pgn)), c') \<and>
    in_ram c' pgn \<and> \<not> in_ram c' v \<and> map_ok M c' \<and> devices_ok c' \<and> confined M c M c' \<and>
    (\<forall>p \<in> M. \<forall>k \<in> {0 ..< PAGING_PAGESZ}. page_byte c' p k = page_byte c p k)"
proof -
  note D = fault_ready_D [OF rdy]
  have "\<not> in_ram c pgn" using rdy by (simp add: fault_ready_def)
  then show ?thesis
    using page_fault_spec [OF rdy] D(12,13) by (auto simp: pg_getpage_def pgd_get_def in_ram_def)
qed

lemma getval_present:
  assumes ok: "devices_ok c" "map_ok M c" and p: "in_ram c (PAGING_PGN a)"
  shows "pg_getval c a = Inr (0, Some (page_byte c (PAGING_PGN a) (PAGING_OFFST a)), c)"
proof -
  have "access_ok c" using ok by (auto simp: access_ok_def)
  then have "frame_in (c_mram c) (ram_frame c (PAGING_PGN a))" "rdmflg (c_mram c)"
    using access_ok_frames(1,2) [of c "PAGING_PGN a"] PAGING_PGN_bounds [of a] p by auto
  then show ?thesis
    using access_present(1) [OF p] by (simp add: page_byte_ram [OF p] frame_byte_def phys_def PAGING_PAGESZ_def)
qed

section \<open>New pages\<close>

lemma nth_interval:
  fixes k :: int
  shows "(\<lambda>p. xs ! nat (p - k)) ` {k ..< k + int (length xs)} = set xs"
    "distinct xs \<Longrightarrow> inj_on (\<lambda>p. xs ! nat (p - k)) {k ..< k + int (length xs)}"
proof -
  have "xs ! i \<in> (\<lambda>p. xs ! nat (p - k)) ` {k ..< k + int (length xs)}" if "i < length xs" for i
    using that by (intro image_eqI [of _ _ "k + int i"]) auto
  then have "set xs \<subseteq> (\<lambda>p. xs ! nat (p - k)) ` {k ..< k + int (length xs)}"
    by (auto simp: in_set_conv_nth)
  moreover have "(\<lambda>p. xs ! nat (p - k)) ` {k ..< k + int (length xs)} \<subseteq> set xs"
    by (auto intro!: nth_mem)
  ultimately show "(\<lambda>p. xs ! nat (p - k)) ` {k ..< k + int (length xs)} = set xs" by blast
  show "inj_on (\<lambda>p. xs ! nat (p - k)) {k ..< k + int (length xs)}" if "distinct xs"
    using that by (auto simp: inj_on_def nth_eq_iff_index_eq nat_eq_iff)
qed

lemma free_frames:
  assumes "devices_ok c"
  shows "f \<in> set (free_of (c_mram c)) \<Longrightarrow> frame_in (c_mram c) f \<and> 0 \<le> f \<and> f < 8192"
    "f \<in> set (free_of (c_mswp c)) \<Longrightarrow> frame_in (c_mswp c) f \<and> 0 \<le> f \<and> f < 2097152"
proof -
  have "frame_in (c_mram c) f \<Longrightarrow> f < 8192" "frame_in (c_mswp c) f \<Longrightarrow> f < 2097152"
    using assms by (auto simp: devices_ok_def frame_in_def PAGING_PAGESZ_def)
  moreover have "f \<in> set (free_of (c_mram c)) \<Longrightarrow> frame_in (c_mram c) f"
      "f \<in> set (free_of (c_mswp c)) \<Longrightarrow> frame_in (c_mswp c) f"
    using assms by (simp_all add: devices_ok_def frames_ok_def list_all_iff)
  ultimately show "f \<in> set (free_of (c_mram c)) \<Longrightarrow> frame_in (c_mram c) f \<and> 0 \<le> f \<and> f < 8192"
      "f \<in> set (free_of (c_mswp c)) \<Longrightarrow> frame_in (c_mswp c) f \<and> 0 \<le> f \<and> f < 2097152"
    by (simp_all add: frame_in_def)
qed

text \<open>The frames \<open>n\<close> new pages get, and the state with the pages mapped.\<close>

definition new_ram :: "nat \<Rightarrow> vmctx \<Rightarrow> int list" where
  "new_ram n c = rev (take n (free_of (c_mram c)))"

definition new_swp :: "nat \<Rightarrow> vmctx \<Rightarrow> int list" where
  "new_swp n c = rev (take (n - length (free_of (c_mram c))) (free_of (c_mswp c)))"

lemma new_frames:
  assumes "devices_ok c"
  shows "distinct (new_ram n c)" "distinct (new_swp n c)"
    "set (new_ram n c) \<subseteq> set (free_of (c_mram c))" "set (new_swp n c) \<subseteq> set (free_of (c_mswp c))"
    "n \<le> frames_left c \<Longrightarrow> length (new_ram n c) + length (new_swp n c) = n"
  using assms
  by (auto simp: new_ram_def new_swp_def devices_ok_def frames_ok_def frames_left_def dest: in_set_takeD)

lemma mapped_entries:
  assumes dev: "devices_ok c" and c': "pgd (c_mm c') = pgd (mapped n k c)" and r: "r = k + int (length (new_ram n c))"
  shows "k \<le> p \<Longrightarrow> p < r \<Longrightarrow> in_ram c' p \<and> ram_frame c' p = new_ram n c ! nat (p - k)"
    "r \<le> p \<Longrightarrow> p < r + int (length (new_swp n c)) \<Longrightarrow>
       \<not> in_ram c' p \<and> swp_frame c' p = new_swp n c ! nat (p - r)"
    "p < k \<or> r + int (length (new_swp n c)) \<le> p \<Longrightarrow>
       in_ram c' p = in_ram c p \<and> ram_frame c' p = ram_frame c p \<and> swp_frame c' p = swp_frame c p"
proof -
  have e: "pgd (c_mm c') = map_run (\<lambda>p. pte_set_swap p 0) (map_run pte_set_fpn (pgd (c_mm c)) k (new_ram n c)) r (new_swp n c)"
    by (simp add: c' mapped_def Let_def new_ram_def new_swp_def r)
  show "in_ram c' p \<and> ram_frame c' p = new_ram n c ! nat (p - k)" if "k \<le> p" "p < r"
  proof -
    have "nat (p - k) < length (new_ram n c)" using that r by simp
    then have "new_ram n c ! nat (p - k) \<in> set (free_of (c_mram c))"
      using new_frames(3) [OF dev] nth_mem by blast
    then show ?thesis using free_frames(1) [OF dev] that r
      by (auto simp: in_ram_def ram_frame_def e map_run_def FPN_pte_set_fpn)
  qed
  show "\<not> in_ram c' p \<and> swp_frame c' p = new_swp n c ! nat (p - r)"
    if "r \<le> p" "p < r + int (length (new_swp n c))"
  proof -
    have "nat (p - r) < length (new_swp n c)" using that by simp
    then have "new_swp n c ! nat (p - r) \<in> set (free_of (c_mswp c))"
      using new_frames(4) [OF dev] nth_mem by blast
    then show ?thesis using free_frames(2) [OF dev] that
      by (auto simp: in_ram_def swp_frame_def e map_run_def SWP_pte_set_swap)
  qed
  show "in_ram c' p = in_ram c p \<and> ram_frame c' p = ram_frame c p \<and> swp_frame c' p = swp_frame c p"
    if "p < k \<or> r + int (length (new_swp n c)) \<le> p"
    using that r by (auto simp: in_ram_def ram_frame_def swp_frame_def e map_run_def)
qed

lemma inj_on_disjoint_Un:
  assumes "inj_on g A" "inj_on h B" "\<And>x. x \<in> A \<Longrightarrow> f x = g x" "\<And>x. x \<in> B \<Longrightarrow> f x = h x"
    and "g ` A \<inter> h ` B = {}"
  shows "inj_on f (A \<union> B)" "f ` (A \<union> B) = g ` A \<union> h ` B"
proof -
  have "inj_on f A" "inj_on f B" "f ` A = g ` A" "f ` B = h ` B"
    using assms(1-4) by (auto simp: inj_on_def)
  then show "inj_on f (A \<union> B)" "f ` (A \<union> B) = g ` A \<union> h ` B"
    using assms(5) by (auto simp: inj_on_Un image_Un)
qed

text \<open>
  Mapping \<open>n\<close> new pages: each gets its own free frame, the old pages keep theirs, and no
  byte of a device changes.
\<close>

definition grown :: "int set \<Rightarrow> nat \<Rightarrow> int \<Rightarrow> vmctx \<Rightarrow> vmctx \<Rightarrow> bool" where
  "grown M n k c c' \<longleftrightarrow>
     devices_ok c \<and> map_ok M c \<and> n \<le> frames_left c \<and> 0 \<le> k \<and> k + int n \<le> PAGING_MAX_PGN \<and>
     {k ..< k + int n} \<inter> M = {} \<and> pgd (c_mm c') = pgd (mapped n k c) \<and>
     (\<exists>c1. frames_taken n c c1 \<and> c_mram c' = c_mram c1 \<and> c_mswp c' = c_mswp c1)"

lemma grown_devices:
  assumes "grown M n k c c'"
  shows "devices_ok c'" "frame_in (c_mram c') = frame_in (c_mram c)" "frame_in (c_mswp c') = frame_in (c_mswp c)"
    "frame_byte (c_mram c') = frame_byte (c_mram c)" "frame_byte (c_mswp c') = frame_byte (c_mswp c)"
    "set (free_of (c_mram c')) \<subseteq> set (free_of (c_mram c)) - set (new_ram n c)"
    "set (free_of (c_mswp c')) \<subseteq> set (free_of (c_mswp c)) - set (new_swp n c)"
    "maxsz (c_mram c') = maxsz (c_mram c)" "maxsz (c_mswp c') = maxsz (c_mswp c)"
proof -
  have dev: "devices_ok c" using assms by (simp add: grown_def)
  obtain c1 where c1: "frames_taken n c c1" "c_mram c' = c_mram c1" "c_mswp c' = c_mswp c1"
    using assms by (auto simp: grown_def)
  have sb: "same_bytes (c_mram c) (c_mram c')" "same_bytes (c_mswp c) (c_mswp c')"
    and fo: "frames_ok (c_mram c')" "frames_ok (c_mswp c')"
    and fr: "free_of (c_mram c') = drop n (free_of (c_mram c))"
      "free_of (c_mswp c') = drop (n - length (free_of (c_mram c))) (free_of (c_mswp c))"
    using c1 by (auto simp: frames_taken_def Let_def)
  show "devices_ok c'" using dev sb fo by (simp add: devices_ok_def same_bytes_def)
  show "frame_in (c_mram c') = frame_in (c_mram c)" "frame_in (c_mswp c') = frame_in (c_mswp c)"
    "frame_byte (c_mram c') = frame_byte (c_mram c)" "frame_byte (c_mswp c') = frame_byte (c_mswp c)"
    "maxsz (c_mram c') = maxsz (c_mram c)" "maxsz (c_mswp c') = maxsz (c_mswp c)"
    using sb by (simp_all add: fun_eq_iff same_bytes_def frame_in_def frame_byte_def)
  have "distinct (free_of (c_mram c))" "distinct (free_of (c_mswp c))"
    using dev by (simp_all add: devices_ok_def frames_ok_def)
  then show "set (free_of (c_mram c')) \<subseteq> set (free_of (c_mram c)) - set (new_ram n c)"
    "set (free_of (c_mswp c')) \<subseteq> set (free_of (c_mswp c)) - set (new_swp n c)"
    using set_take_disj_set_drop_if_distinct [OF _ order_refl] fr
    by (fastforce simp: new_ram_def new_swp_def dest: in_set_dropD)+
qed

lemma grown_pages:
  assumes g: "grown M n k c c'"
  defines "r \<equiv> k + int (length (new_ram n c))"
  defines "M' \<equiv> M \<union> {k ..< k + int n}"
  shows "ram_pages M' c' = ram_pages M c \<union> {k ..< r}" "swp_pages M' c' = swp_pages M c \<union> {r ..< k + int n}"
    "inj_on (ram_frame c') (ram_pages M' c')" "inj_on (swp_frame c') (swp_pages M' c')"
    "ram_frame c' ` ram_pages M' c' = ram_frame c ` ram_pages M c \<union> set (new_ram n c)"
    "swp_frame c' ` swp_pages M' c' = swp_frame c ` swp_pages M c \<union> set (new_swp n c)"
    "\<And>p. p \<in> M \<Longrightarrow> in_ram c' p = in_ram c p \<and> ram_frame c' p = ram_frame c p \<and> swp_frame c' p = swp_frame c p"
proof -
  have dev: "devices_ok c" and mo: "map_ok M c" and n: "n \<le> frames_left c"
    and new: "{k ..< k + int n} \<inter> M = {}" and pg: "pgd (c_mm c') = pgd (mapped n k c)"
    using g by (simp_all add: grown_def)
  note nf = new_frames [OF dev, of n]
  have rn: "r + int (length (new_swp n c)) = k + int n" "k \<le> r" "r \<le> k + int n"
    using nf(5) [OF n] by (auto simp: r_def)
  note E = mapped_entries [OF dev pg refl, folded r_def, unfolded rn(1)]
  show old: "in_ram c' p = in_ram c p \<and> ram_frame c' p = ram_frame c p \<and> swp_frame c' p = swp_frame c p"
    if "p \<in> M" for p
  proof -
    have "p < k \<or> k + int n \<le> p" using that new by (auto simp: disjoint_iff not_less)
    then show ?thesis by (rule E(3))
  qed
  show R: "ram_pages M' c' = ram_pages M c \<union> {k ..< r}" and S: "swp_pages M' c' = swp_pages M c \<union> {r ..< k + int n}"
    using old E(1,2) rn new by (force simp: ram_pages_def swp_pages_def M'_def)+
  have owned: "ram_frame c ` ram_pages M c \<inter> set (free_of (c_mram c)) = {}"
      "swp_frame c ` swp_pages M c \<inter> set (free_of (c_mswp c)) = {}"
      "inj_on (ram_frame c) (ram_pages M c)" "inj_on (swp_frame c) (swp_pages M c)"
    using mo by (auto simp: map_ok_def)
  note iv = nth_interval [where xs = "new_ram n c" and k = k, folded r_def]
  note ivs = nth_interval [where xs = "new_swp n c" and k = r, unfolded rn(1)]
  show "inj_on (ram_frame c') (ram_pages M' c')"
      "ram_frame c' ` ram_pages M' c' = ram_frame c ` ram_pages M c \<union> set (new_ram n c)"
    unfolding R using inj_on_disjoint_Un [OF owned(3) iv(2) [OF nf(1)], of "ram_frame c'"] owned(1) nf(3) old E(1)
    by (auto simp: iv(1) ram_pages_def)
  show "inj_on (swp_frame c') (swp_pages M' c')"
      "swp_frame c' ` swp_pages M' c' = swp_frame c ` swp_pages M c \<union> set (new_swp n c)"
    unfolding S using inj_on_disjoint_Un [OF owned(4) ivs(2) [OF nf(2)], of "swp_frame c'"] owned(2) nf(4) old E(2)
    by (auto simp: ivs(1) swp_pages_def)
qed

lemma grown_ok:
  assumes g: "grown M n k c c'"
  defines "M' \<equiv> M \<union> {k ..< k + int n}"
  shows "map_ok M' c'" "confined M c M' c'" "\<And>p j. p \<in> M \<Longrightarrow> page_byte c' p j = page_byte c p j"
proof -
  note D = grown_devices [OF g] and P = grown_pages [OF g, folded M'_def]
  have mo: "map_ok M c" and k: "0 \<le> k" "k + int n \<le> PAGING_MAX_PGN" and dev: "devices_ok c"
    and pg: "pgd (c_mm c') = pgd (mapped n k c)" and n: "n \<le> frames_left c"
    using g by (simp_all add: grown_def)
  note nf = new_frames [OF dev, of n] and ff = free_frames [OF dev]
  have in_range: "p \<in> M'" if "p \<in> {0 ..< PAGING_MAX_PGN}" "in_ram c' p" for p
    using that mo mapped_entries(3) [OF dev pg refl, of p] nf(5) [OF n] unfolding map_ok_def M'_def by fastforce
  show "map_ok M' c'"
    unfolding map_ok_def using P(3-6) in_range mo k D(2,3,6,7) nf(3,4) ff
    by (auto simp: map_ok_def M'_def)
  show "confined M c M' c'"
    using P(5,6) D(4-9) nf(3,4) by (auto simp: confined_def ram_reach_def swp_reach_def untouched_def)
  show "page_byte c' p j = page_byte c p j" if "p \<in> M" for p j
    using P(7) [OF that] D(4,5) by (cases "in_ram c p") (simp_all add: page_byte_ram page_byte_swp)
qed

section \<open>Allocation and release of regions\<close>

text \<open>
  A process in good order: its regions are disjoint and inside its area, and exactly the
  pages of the area are mapped, each to its own frame.
\<close>

definition area_pages :: "vmctx \<Rightarrow> int set" where
  "area_pages c = {0 ..< pages_for (sbrk (hd (mmap (c_mm c))))}"

definition proc_ok :: "vmctx \<Rightarrow> bool" where
  "proc_ok c \<longleftrightarrow> vm_inv c \<and> devices_ok c \<and> map_ok (area_pages c) c"

lemma area_pages_state: "vm_state c v bs z ys \<Longrightarrow> area_pages c = {0 ..< pages_for (sbrk v)}"
  by (simp add: area_pages_def vm_state_def)

lemma same_pages_keeps:
  assumes "same_pages c c'"
  shows "map_ok M c' = map_ok M c" "devices_ok c' = devices_ok c" "page_byte c' = page_byte c" "confined M c M c'"
proof -
  have "in_ram c' = in_ram c" "ram_frame c' = ram_frame c" "swp_frame c' = swp_frame c"
    using assms by (simp_all add: fun_eq_iff same_pages_def in_ram_def ram_frame_def swp_frame_def)
  then show "map_ok M c' = map_ok M c" "devices_ok c' = devices_ok c" "page_byte c' = page_byte c" "confined M c M c'"
    using assms by (simp_all add: same_pages_def map_ok_def devices_ok_def page_byte_def [abs_def] confined_def
        ram_reach_def swp_reach_def ram_pages_def swp_pages_def untouched_def Let_def cong: if_cong)
qed

lemma space_taken_grown:
  assumes st: "vm_state c v bs z ys" and ok: "devices_ok c" "map_ok (area_pages c) c"
    and sz: "0 < sz" "sbrk v + sz \<le> 2 ^ 22" and fr: "nat (grow_amt v sz) \<le> frames_left c"
    and sp: "space_taken sz v c c'"
  shows "grown (area_pages c) (nat (grow_amt v sz)) (pages_for (sbrk v) mod 16384) c c'"
    "area_pages c \<union> {pages_for (sbrk v) mod 16384 ..< pages_for (sbrk v) mod 16384 + int (nat (grow_amt v sz))} =
      {0 ..< pages_for (sbrk v + sz)}"
proof -
  have b: "0 \<le> sbrk v" using st by (simp add: vm_state_def)
  have p: "0 \<le> pages_for (sbrk v)" "pages_for (sbrk v) \<le> pages_for (sbrk v + sz)" "pages_for (sbrk v + sz) \<le> 16384"
    using pages_for_bounds [of "sbrk v"] pages_for_bounds [of "sbrk v + sz"]
      pages_for_mono [of "sbrk v" "sbrk v + sz"] b sz by auto
  have k: "pages_for (sbrk v) mod 16384 = pages_for (sbrk v) \<or>
      pages_for (sbrk v) mod 16384 = 0 \<and> grow_amt v sz = 0"
    using p by (cases "pages_for (sbrk v) = 16384") (auto simp: grow_amt_def)
  have M: "area_pages c = {0 ..< pages_for (sbrk v)}" using area_pages_state [OF st] .
  have n: "int (nat (grow_amt v sz)) = pages_for (sbrk v + sz) - pages_for (sbrk v)"
    using p by (simp add: grow_amt_def)
  show "area_pages c \<union> {pages_for (sbrk v) mod 16384 ..< pages_for (sbrk v) mod 16384 + int (nat (grow_amt v sz))} =
      {0 ..< pages_for (sbrk v + sz)}"
    using k
  proof
    assume e: "pages_for (sbrk v) mod 16384 = pages_for (sbrk v)"
    have "{0 ..< pages_for (sbrk v)} \<union> {pages_for (sbrk v) ..< pages_for (sbrk v + sz)} = {0 ..< pages_for (sbrk v + sz)}"
      using p by (simp add: ivl_disj_un_two(3))
    then show ?thesis unfolding e n M by simp
  qed (use n M in simp)
  have disj: "{pages_for (sbrk v) mod 16384 ..< pages_for (sbrk v) mod 16384 + int (nat (grow_amt v sz))} \<inter> area_pages c = {}"
    using k M by auto
  have bnd: "pages_for (sbrk v) mod 16384 + int (nat (grow_amt v sz)) \<le> PAGING_MAX_PGN"
    using k n p by auto
  show "grown (area_pages c) (nat (grow_amt v sz)) (pages_for (sbrk v) mod 16384) c c'"
    using ok fr sp disj bnd by (auto simp: grown_def space_taken_def Let_def min_def)
qed

text \<open>
  With enough free frames an allocation keeps the process in order, writes no byte outside
  its reach and keeps the bytes of its pages.
\<close>

lemma vm_alloc_proc_ok:
  assumes ok: "proc_ok c" and i: "i < PAGING_MAX_SYMTBL_SZ" and sz: "0 < sz" "sz \<le> area_room c"
    and fr: "nat (grow_amt (hd (mmap (c_mm c))) sz) \<le> frames_left c"
  shows "\<exists>a c'. vm_alloc c 0 (int i) sz = Inr (0, a, c') \<and> proc_ok c' \<and>
    regions_of (c_mm c') = (regions_of (c_mm c))[i := (a, a + sz)] \<and>
    confined (area_pages c) c (area_pages c') c' \<and> (\<forall>p \<in> area_pages c. page_byte c' p = page_byte c p)"
proof -
  obtain v bs z ys where st: "vm_state c v bs z ys" using ok by (auto simp: proc_ok_def vm_inv_def)
  have dm: "devices_ok c" "map_ok (area_pages c) c" using ok by (simp_all add: proc_ok_def)
  have v: "hd (mmap (c_mm c)) = v" using st by (simp add: vm_state_def)
  have szb: "sbrk v + sz \<le> 2 ^ 22" "sz < 2 ^ 31"
    using sz vm_state_room [OF st] st by (auto simp: vm_state_def)
  show ?thesis
  proof (cases "first_fit sz (ys @ [(0, 0)])")
    case None
    then obtain c' v' where c': "vm_alloc c 0 (int i) sz = Inr (0, sbrk v, c')" "vm_state c' v' bs z ys"
        "sbrk v' = sbrk v + sz" "regions_of (c_mm c') = (regions_of (c_mm c))[i := (sbrk v, sbrk v + sz)]"
        "space_taken sz v c c'"
      using vm_alloc_fresh [OF st i sz(1) szb(1)] by blast
    note g = space_taken_grown [OF st dm sz(1) szb(1) fr [unfolded v] c'(5)]
    have "area_pages c' = {0 ..< pages_for (sbrk v + sz)}" using area_pages_state [OF c'(2)] c'(3) by simp
    then have "proc_ok c'" "confined (area_pages c) c (area_pages c') c'"
      using grown_ok(1,2) [OF g(1), unfolded g(2)] grown_devices(1) [OF g(1)] c'(2)
      by (auto simp: proc_ok_def vm_inv_def)
    then show ?thesis using c'(1,4) grown_ok(3) [OF g(1)] by auto
  next
    case (Some x)
    then obtain r zs where "first_fit sz (ys @ [(0, 0)]) = Some (r, zs)" by (cases x) auto
    then obtain c' bs' z' ys' where c': "vm_alloc c 0 (int i) sz = Inr (0, fst r, c')" "vm_state c' v bs' z' ys'"
        "snd r = fst r + sz" "regions_of (c_mm c') = (regions_of (c_mm c))[i := r]" "same_pages c c'"
      using vm_alloc_reuse [OF st i sz(1) szb(2)] by blast
    have r: "r = (fst r, fst r + sz)" using c'(3) by (metis prod.collapse)
    have "area_pages c' = area_pages c" using area_pages_state [OF st] area_pages_state [OF c'(2)] by simp
    then show ?thesis
      using c'(1,2,4) r same_pages_keeps [OF c'(5)] dm by (auto simp: proc_ok_def vm_inv_def)
  qed
qed

lemma vm_free_proc_ok:
  assumes ok: "proc_ok c" and i: "i < PAGING_MAX_SYMTBL_SZ" and run: "vm_free c 0 (int i) = Inr (r, c')"
  shows "proc_ok c'" "same_pages c c'" "area_pages c' = area_pages c"
proof -
  obtain v bs z ys where st: "vm_state c v bs z ys" using ok by (auto simp: proc_ok_def vm_inv_def)
  obtain s e where rg: "regions_of (c_mm c) ! i = (s, e)" by fastforce
  obtain v' bs' z' ys' where c': "vm_state c' v' bs' z' ys'" "sbrk v' = sbrk v" "same_pages c c'"
  proof (cases "s < e")
    case True
    show thesis using vm_free_spec [OF st i rg True] run that by (auto split: option.splits)
  next
    case False
    show thesis using vm_free_empty [OF st i rg False] run that by auto
  qed
  then show "area_pages c' = area_pages c" "same_pages c c'"
    using area_pages_state [OF st] area_pages_state [OF c'(1)] by simp_all
  then show "proc_ok c'" using ok c'(1) same_pages_keeps [OF c'(3)] by (auto simp: proc_ok_def vm_inv_def)
qed

section \<open>Isolation\<close>

text \<open>
  Another process on the same devices, with description \<open>m\<close> and pages \<open>N\<close>, none of whose
  frames the first process can reach.
\<close>

definition apart :: "int set \<Rightarrow> vmctx \<Rightarrow> int set \<Rightarrow> mm_struct \<Rightarrow> bool" where
  "apart M c N m \<longleftrightarrow>
     (let d = c\<lparr>c_mm := m\<rparr>
      in map_ok N d \<and> ram_frame d ` ram_pages N d \<inter> ram_reach M c = {} \<and>
         swp_frame d ` swp_pages N d \<inter> swp_reach M c = {})"

lemma other_process:
  "in_ram (c'\<lparr>c_mm := m\<rparr>) = in_ram (c\<lparr>c_mm := m\<rparr>)" "ram_frame (c'\<lparr>c_mm := m\<rparr>) = ram_frame (c\<lparr>c_mm := m\<rparr>)"
  "swp_frame (c'\<lparr>c_mm := m\<rparr>) = swp_frame (c\<lparr>c_mm := m\<rparr>)"
  by (simp_all add: fun_eq_iff in_ram_def ram_frame_def swp_frame_def)

lemma confined_isolates:
  assumes cf: "confined M c M' c'" and ap: "apart M c N m" and p: "p \<in> N" "k \<in> {0 ..< PAGING_PAGESZ}"
  shows "page_byte (c'\<lparr>c_mm := m\<rparr>) p k = page_byte (c\<lparr>c_mm := m\<rparr>) p k"
proof -
  let ?d = "c\<lparr>c_mm := m\<rparr>"
  have mo: "map_ok N ?d" and dj: "ram_frame ?d ` ram_pages N ?d \<inter> ram_reach M c = {}"
      "swp_frame ?d ` swp_pages N ?d \<inter> swp_reach M c = {}"
    using ap by (simp_all add: apart_def Let_def)
  show ?thesis
  proof (cases "in_ram ?d p")
    case True
    then have "ram_frame ?d p \<notin> ram_reach M c" "frame_in (c_mram c) (ram_frame ?d p)"
      using dj(1) mo p(1) by (auto simp: map_ok_def ram_pages_def)
    then have "frame_byte (c_mram c') (ram_frame ?d p) k = frame_byte (c_mram c) (ram_frame ?d p) k"
      using cf p(2) by (simp add: confined_def untouched_def)
    then show ?thesis using True page_byte_ram [of "c'\<lparr>c_mm := m\<rparr>" p k] page_byte_ram [of ?d p k]
      by (simp add: other_process [where c' = c' and c = c])
  next
    case False
    then have "swp_frame ?d p \<notin> swp_reach M c" "frame_in (c_mswp c) (swp_frame ?d p)"
      using dj(2) mo p(1) by (auto simp: map_ok_def swp_pages_def)
    then have "frame_byte (c_mswp c') (swp_frame ?d p) k = frame_byte (c_mswp c) (swp_frame ?d p) k"
      using cf p(2) by (simp add: confined_def untouched_def)
    then show ?thesis using False page_byte_swp [of "c'\<lparr>c_mm := m\<rparr>" p k] page_byte_swp [of ?d p k]
      by (simp add: other_process [where c' = c' and c = c])
  qed
qed

lemma confined_apart:
  assumes cf: "confined M c M' c'" and ap: "apart M c N m"
  shows "apart M' c' N m"
proof -
  let ?d = "c\<lparr>c_mm := m\<rparr>" and ?d' = "c'\<lparr>c_mm := m\<rparr>"
  note o = other_process [where c' = c' and c = c and m = m]
  have pg: "ram_pages N ?d' = ram_pages N ?d" "swp_pages N ?d' = swp_pages N ?d"
    by (simp_all add: ram_pages_def swp_pages_def o)
  have sub: "ram_reach M' c' \<subseteq> ram_reach M c" "swp_reach M' c' \<subseteq> swp_reach M c"
    and sz: "frame_in (c_mram c') = frame_in (c_mram c)" "frame_in (c_mswp c') = frame_in (c_mswp c)"
    using cf by (auto simp: confined_def untouched_def frame_in_def [abs_def])
  have dj: "ram_frame ?d ` ram_pages N ?d \<inter> ram_reach M' c' = {}" "swp_frame ?d ` swp_pages N ?d \<inter> swp_reach M' c' = {}"
    using ap sub by (auto simp: apart_def Let_def)
  moreover have "map_ok N ?d'"
    using ap dj sz pg unfolding map_ok_def apart_def Let_def o
    by (auto simp: ram_reach_def swp_reach_def)
  ultimately show ?thesis by (simp add: apart_def Let_def pg o)
qed

section \<open>Access to a region\<close>

text \<open>Storing a byte in a present page of the process stays within its reach.\<close>

lemma put_byte_confined:
  assumes "p \<in> M" "in_ram c p" "0 \<le> k" "k < 256"
  shows "confined M c M (put_byte c (ram_frame c p * 256 + k) v)"
proof -
  let ?c = "put_byte c (ram_frame c p * 256 + k) v"
  have "frame_byte (c_mram ?c) f j = frame_byte (c_mram c) f j"
    if "f \<noteq> ram_frame c p" "0 \<le> j" "j < 256" for f j
    using that assms(3,4) frame_split [of j k f "ram_frame c p"] by (auto simp: frame_byte_def PAGING_PAGESZ_def)
  moreover have "f \<noteq> ram_frame c p" if "f \<notin> ram_reach M c" for f
    using assms(1,2) that by (auto simp: ram_reach_def ram_pages_def)
  moreover have "ram_reach M ?c = ram_reach M c" "swp_reach M ?c = swp_reach M c"
    by (simp_all add: ram_reach_def swp_reach_def ram_pages_def swp_pages_def)
  ultimately show ?thesis by (auto simp: confined_def untouched_def PAGING_PAGESZ_def)
qed

lemma put_byte_vm_state [simp]: "vm_state (put_byte c x v) = vm_state c"
  by (simp add: fun_eq_iff vm_state_def)

lemma put_byte_proc_ok [simp]: "proc_ok (put_byte c x v) = proc_ok c"
  by (simp add: proc_ok_def vm_inv_def area_pages_def)

lemma proc_ok_access: "proc_ok c \<Longrightarrow> access_ok c"
  by (auto simp: proc_ok_def access_ok_def)

text \<open>Byte \<open>k\<close> of region \<open>i\<close> is at this address, which lies inside the area.\<close>

definition region_addr :: "vmctx \<Rightarrow> nat \<Rightarrow> int \<Rightarrow> int" where
  "region_addr c i k = rg_start (symrgtbl (c_mm c) ! i) + k"

definition in_region :: "vmctx \<Rightarrow> nat \<Rightarrow> int \<Rightarrow> bool" where
  "in_region c i k \<longleftrightarrow> i < PAGING_MAX_SYMTBL_SZ \<and> 0 \<le> k \<and>
     rg_start (symrgtbl (c_mm c) ! i) + k < rg_end (symrgtbl (c_mm c) ! i)"

lemma region_addr_bounds:
  assumes inv: "vm_inv c" and k: "in_region c i k"
  shows "0 \<le> region_addr c i k" "region_addr c i k < 2 ^ 22" "region_addr c i k \<in> iv (regions_of (c_mm c) ! i)"
    "PAGING_PGN (region_addr c i k) \<in> area_pages c"
proof -
  obtain v bs z ys where st: "vm_state c v bs z ys" using inv by (auto simp: vm_inv_def)
  let ?r = "symrgtbl (c_mm c) ! i"
  have i: "i < PAGING_MAX_SYMTBL_SZ" using k by (simp add: in_region_def)
  have rg: "regions_of (c_mm c) ! i = (rg_start ?r, rg_end ?r)"
    using st i by (simp add: regions_of_def vm_state_def)
  have se: "rg_start ?r < rg_end ?r" using k by (simp add: in_region_def)
  have b: "0 \<le> rg_start ?r" "rg_end ?r \<le> sbrk v" "sbrk v \<le> 2 ^ 22"
    using vm_state_live_bytes [OF st i rg se] st by (auto simp: vm_state_def)
  show a: "0 \<le> region_addr c i k" "region_addr c i k < 2 ^ 22" "region_addr c i k \<in> iv (regions_of (c_mm c) ! i)"
    using k b rg by (auto simp: region_addr_def in_region_def iv_def)
  have lt: "region_addr c i k < sbrk v" using k b by (simp add: region_addr_def in_region_def)
  have "region_addr c i k div 256 < pages_for (sbrk v)" using lt unfolding pages_for_def by simp
  moreover have "region_addr c i k div 256 < 16384" using a(2) by simp
  moreover have "0 \<le> region_addr c i k div 256" using a(1) by simp
  ultimately have "0 \<le> PAGING_PGN (region_addr c i k)" "PAGING_PGN (region_addr c i k) < pages_for (sbrk v)"
    by (simp_all add: PAGING_PGN_div)
  then show "PAGING_PGN (region_addr c i k) \<in> area_pages c" using area_pages_state [OF st] by simp
qed

lemma region_access:
  assumes ok: "proc_ok c" and k: "in_region c i k" and res: "in_ram c (PAGING_PGN (region_addr c i k))"
  shows "vm_read c 0 (int i) k = Inr (0, Some (page_byte c (PAGING_PGN (region_addr c i k)) (PAGING_OFFST (region_addr c i k))), c)"
    "vm_write c 0 (int i) k v = Inr (0, put_byte c (phys c (region_addr c i k)) v)"
proof -
  let ?a = "region_addr c i k"
  have inv: "vm_inv c" and mo: "devices_ok c" "map_ok (area_pages c) c" using ok by (simp_all add: proc_ok_def)
  note b = region_addr_bounds [OF inv k]
  have i: "i < PAGING_MAX_SYMTBL_SZ" "i < length (symrgtbl (c_mm c))"
    using k vm_inv_regions(1) [OF inv] by (simp_all add: in_region_def regions_of_def)
  obtain va where mm: "mmap (c_mm c) = [va]" using inv by (auto simp: vm_inv_def vm_state_def)
  have addr: "s32 (u64 (rg_start (symrgtbl (c_mm c) ! i) + k)) = ?a"
    using b(1,2) by (simp add: region_addr_def)
  have sym: "get_symrg_byid (int i) = Some i" using i(1) by (simp add: get_symrg_byid_def)
  have fr: "frame_in (c_mram c) (ram_frame c (PAGING_PGN ?a))" "rdmflg (c_mram c)"
    using access_ok_frames(1,2) [OF proc_ok_access [OF ok] _ _ res] PAGING_PGN_bounds [of ?a] by simp_all
  show "vm_read c 0 (int i) k = Inr (0, Some (page_byte c (PAGING_PGN ?a) (PAGING_OFFST ?a)), c)"
    using getval_present [OF mo res] sym mm i addr by (simp add: vm_read_def arr_get_def)
  show "vm_write c 0 (int i) k v = Inr (0, put_byte c (phys c ?a) v)"
    using access_present(2) [OF res fr] sym mm i addr by (simp add: vm_write_def arr_get_def put_byte_def)
qed

text \<open>Distinct bytes of the regions of a process have distinct addresses.\<close>

lemma region_addr_distinct:
  assumes inv: "vm_inv c" and k: "in_region c i k" and j: "in_region c j l" and ne: "(i, k) \<noteq> (j, l)"
  shows "region_addr c i k \<noteq> region_addr c j l"
proof (cases "i = j")
  case True
  then show ?thesis using ne by (auto simp: region_addr_def)
next
  case False
  have "i < PAGING_MAX_SYMTBL_SZ" "j < PAGING_MAX_SYMTBL_SZ" using k j by (simp_all add: in_region_def)
  then have "iv (regions_of (c_mm c) ! i) \<inter> iv (regions_of (c_mm c) ! j) = {}"
    using rg.regs_disjoint [OF inv, of i j] rg.regs_disjoint [OF inv, of j i] False
    by (cases "i < j") auto
  then show ?thesis using region_addr_bounds(3) [OF inv k] region_addr_bounds(3) [OF inv j] by auto
qed

lemma region_read_write:
  assumes ok: "proc_ok c" and k: "in_region c i k" and j: "in_region c j l"
    and res: "in_ram c (PAGING_PGN (region_addr c i k))" "in_ram c (PAGING_PGN (region_addr c j l))"
  shows "\<exists>c'. vm_write c 0 (int i) k v = Inr (0, c') \<and> proc_ok c' \<and> confined (area_pages c) c (area_pages c') c' \<and>
    (\<exists>u. vm_read c 0 (int j) l = Inr (0, Some u, c) \<and>
         vm_read c' 0 (int j) l = Inr (0, Some (if (i, k) = (j, l) then v else u), c'))"
proof -
  let ?a = "region_addr c i k" and ?b = "region_addr c j l"
  let ?c = "put_byte c (phys c ?a) v"
  have inv: "vm_inv c" using ok by (simp add: proc_ok_def)
  have w: "vm_write c 0 (int i) k v = Inr (0, ?c)" by (rule region_access(2) [OF ok k res(1)])
  have cf: "confined (area_pages c) c (area_pages c) ?c"
    using put_byte_confined [OF region_addr_bounds(4) [OF inv k] res(1) PAGING_OFFST_bounds] by (simp add: phys_def)
  have ph: "phys c ?a = phys c ?b \<longleftrightarrow> (i, k) = (j, l)"
  proof
    assume e: "phys c ?a = phys c ?b"
    have "?a \<in> resident c" "?b \<in> resident c"
      using region_addr_bounds(1,2) [OF inv k] region_addr_bounds(1,2) [OF inv j] res by (simp_all add: resident_def)
    then have "?a = ?b" using phys_inj [OF proc_ok_access [OF ok]] e by blast
    then show "(i, k) = (j, l)" using region_addr_distinct [OF inv k j] by blast
  qed auto
  have pb: "page_byte c (PAGING_PGN ?b) (PAGING_OFFST ?b) = storage (c_mram c) (phys c ?b)"
    using page_byte_ram [OF res(2)] by (simp add: frame_byte_def phys_def PAGING_PAGESZ_def)
  have pb': "page_byte ?c (PAGING_PGN ?b) (PAGING_OFFST ?b) = storage (c_mram ?c) (phys c ?b)"
    using page_byte_ram [of ?c "PAGING_PGN ?b"] res(2) by (simp add: frame_byte_def phys_def PAGING_PAGESZ_def)
  have same: "region_addr ?c j l = ?b" "in_region ?c j l" using j by (simp_all add: region_addr_def in_region_def)
  have "vm_read ?c 0 (int j) l = Inr (0, Some (if (i, k) = (j, l) then v else storage (c_mram c) (phys c ?b)), ?c)"
    using region_access(1) [of ?c j l] ok res(2) same pb' ph by auto
  moreover have "vm_read c 0 (int j) l = Inr (0, Some (storage (c_mram c) (phys c ?b)), c)"
    using region_access(1) [OF ok j res(2)] pb by simp
  moreover have "area_pages ?c = area_pages c" by (simp add: area_pages_def)
  ultimately show ?thesis using w ok cf by auto
qed

section \<open>pgread and pgwrite\<close>

lemma region_size_in:
  assumes inv: "vm_inv c" and k: "in_region c i k"
  shows "region_size (symrgtbl (c_mm c) ! i) = rg_end (symrgtbl (c_mm c) ! i) - rg_start (symrgtbl (c_mm c) ! i)"
    "k \<le> u32 (region_size (symrgtbl (c_mm c) ! i))" "k < 2 ^ 22"
proof -
  obtain v bs z ys where st: "vm_state c v bs z ys" using inv by (auto simp: vm_inv_def)
  let ?r = "symrgtbl (c_mm c) ! i"
  have i: "i < PAGING_MAX_SYMTBL_SZ" and se: "rg_start ?r < rg_end ?r" using k by (simp_all add: in_region_def)
  have rg: "regions_of (c_mm c) ! i = (rg_start ?r, rg_end ?r)"
    using st i by (simp add: regions_of_def vm_state_def)
  have b: "0 \<le> rg_start ?r" "rg_end ?r \<le> 2 ^ 22"
    using vm_state_live_bytes [OF st i rg se] st by (auto simp: vm_state_def)
  then show e: "region_size ?r = rg_end ?r - rg_start ?r" using se by (simp add: region_size_def)
  show "k \<le> u32 (region_size ?r)" "k < 2 ^ 22"
    using k b se unfolding e by (auto simp: in_region_def)
qed

lemma pg_rw_in_region:
  assumes ok: "proc_ok c" and k: "in_region c i k"
  shows "pgwrite c b (int i) k = vm_write c 0 (int i) k b"
    "vm_read c 0 (int i) k = Inr (0, Some u, c) \<Longrightarrow> pgread c (int i) k d = Inr (0, Some u, c)"
proof -
  have inv: "vm_inv c" and fo: "frames_ok (c_mram c)" using ok by (simp_all add: proc_ok_def devices_ok_def)
  obtain v where mm: "mmap (c_mm c) = [v]" using inv by (auto simp: vm_inv_def vm_state_def)
  have i: "i < length (symrgtbl (c_mm c))" "i < PAGING_MAX_SYMTBL_SZ"
    using k vm_inv_regions(1) [OF inv] by (simp_all add: in_region_def regions_of_def)
  have ik: "s32 (int i) = int i" "s32 k = k"
    using i(2) k region_size_in(3) [OF inv k] by (simp_all add: PAGING_MAX_SYMTBL_SZ_def in_region_def)
  note out = print_pgtbl_all [OF mm] MEMPHY_dump_ok [OF fo]
  show "pgwrite c b (int i) k = vm_write c 0 (int i) k b"
    using region_size_in(2) [OF inv k] i ik out by (simp add: pgwrite_def arr_get_def)
  show "pgread c (int i) k d = Inr (0, Some u, c)" if "vm_read c 0 (int i) k = Inr (0, Some u, c)"
    using that region_size_in(2) [OF inv k] i ik out by (simp add: pgread_def arr_get_def)
qed

lemma pg_rw_beyond:
  assumes "i < length (symrgtbl (c_mm c))" "u32 (region_size (symrgtbl (c_mm c) ! i)) < k"
  shows "pgread c (int i) k d = Inr (-1, None, c)" "pgwrite c b (int i) k = Inr (-1, c)"
  using assms by (simp_all add: pgread_def pgwrite_def arr_get_def)

lemma put_byte_frame:
  assumes "0 \<le> k" "k < 256" "0 \<le> j" "j < 256"
  shows "frame_byte (c_mram (put_byte c (g * 256 + k) b)) f j = (if f = g \<and> j = k then b else frame_byte (c_mram c) f j)"
  using frame_split [OF assms(3,4,1,2), of f g] by (auto simp: frame_byte_def PAGING_PAGESZ_def)

text \<open>Storing at the address of a present page changes that byte of that page only.\<close>

lemma put_byte_page:
  assumes ok: "devices_ok c" "map_ok M c" and p: "p \<in> M" and a: "in_ram c (PAGING_PGN a)" and j: "0 \<le> j" "j < 256"
  shows "page_byte (put_byte c (phys c a) b) p j =
    (if p = PAGING_PGN a \<and> j = PAGING_OFFST a then b else page_byte c p j)"
proof -
  note o = PAGING_OFFST_bounds [of a] and f = put_byte_frame [OF PAGING_OFFST_bounds [of a] j]
  have pb: "0 \<le> p" "p < PAGING_MAX_PGN" using ok(2) p by (auto simp: map_ok_def)
  show ?thesis
  proof (cases "in_ram c p")
    case True
    have "access_ok c" using ok by (auto simp: access_ok_def)
    then have "ram_frame c p = ram_frame c (PAGING_PGN a) \<longleftrightarrow> p = PAGING_PGN a"
      using access_ok_frames(3) [of c "PAGING_PGN a" p] PAGING_PGN_bounds [of a] a True pb by auto
    then show ?thesis using f True by (simp add: page_byte_ram phys_def)
  next
    case False
    then show ?thesis using a by (auto simp: page_byte_swp)
  qed
qed

section \<open>Any access\<close>

text \<open>
  The address \<open>vm_read\<close> and \<open>vm_write\<close> compute for any offset of a register, the page it is in,
  and the offsets that \<open>pgread\<close> and \<open>pgwrite\<close> refuse. For the bytes of a region the address is
  \<open>region_addr\<close>.
\<close>

definition access_addr :: "vmctx \<Rightarrow> nat \<Rightarrow> int \<Rightarrow> int" where
  "access_addr c i k = s32 (u64 (rg_start (symrgtbl (c_mm c) ! i) + s32 k))"

definition access_page :: "vmctx \<Rightarrow> nat \<Rightarrow> int \<Rightarrow> int" where
  "access_page c i k = PAGING_PGN (access_addr c i k)"

definition refused :: "vmctx \<Rightarrow> nat \<Rightarrow> int \<Rightarrow> bool" where
  "refused c i k \<longleftrightarrow> u32 (region_size (symrgtbl (c_mm c) ! i)) < k"

lemma access_addr_region:
  assumes "vm_inv c" "in_region c i k"
  shows "access_addr c i k = region_addr c i k" "\<not> refused c i k"
proof -
  have "s32 k = k" using region_size_in(3) [OF assms] assms(2) by (simp add: in_region_def)
  then show "access_addr c i k = region_addr c i k"
    using region_addr_bounds(1,2) [OF assms] by (simp add: access_addr_def region_addr_def)
  show "\<not> refused c i k" using region_size_in(2) [OF assms] by (simp add: refused_def)
qed

lemma access_runs:
  assumes ok: "proc_ok c" and i: "i < PAGING_MAX_SYMTBL_SZ" and k: "\<not> refused c i k"
  shows "pgwrite c b (int i) k = rbind (pg_setval c (access_addr c i k) b) (\<lambda>(_, c). Inr (0, c))"
    "pgread c (int i) k d = Inr (r, u, c') \<Longrightarrow> \<exists>x w. pg_getval c (access_addr c i k) = Inr (x, Some w, c')"
proof -
  have inv: "vm_inv c" and fo: "frames_ok (c_mram c)" using ok by (simp_all add: proc_ok_def devices_ok_def)
  obtain v where mm: "mmap (c_mm c) = [v]" using inv by (auto simp: vm_inv_def vm_state_def)
  have l: "i < length (symrgtbl (c_mm c))" using i vm_inv_regions(1) [OF inv] by (simp add: regions_of_def)
  have s: "s32 (int i) = int i" using i by (simp add: PAGING_MAX_SYMTBL_SZ_def)
  have sym: "get_symrg_byid (int i) = Some i" using i by (simp add: get_symrg_byid_def)
  note out = print_pgtbl_all [OF mm] MEMPHY_dump_ok [OF fo]
  show "pgwrite c b (int i) k = rbind (pg_setval c (access_addr c i k) b) (\<lambda>(_, c). Inr (0, c))"
    using k l s sym out mm by (simp add: pgwrite_def arr_get_def refused_def vm_write_def access_addr_def)
  show "\<exists>x w. pg_getval c (access_addr c i k) = Inr (x, Some w, c')" if "pgread c (int i) k d = Inr (r, u, c')"
    using that k l s sym mm
    by (auto simp: pgread_def arr_get_def refused_def vm_read_def access_addr_def res_simps split: option.splits)
qed

lemma access_refused:
  assumes "proc_ok c" "i < PAGING_MAX_SYMTBL_SZ" "refused c i k"
  shows "pgread c (int i) k d = Inr (-1, None, c)" "pgwrite c b (int i) k = Inr (-1, c)"
proof -
  have "vm_inv c" using assms(1) by (simp add: proc_ok_def)
  then have "i < length (symrgtbl (c_mm c))" using assms(2) vm_inv_regions(1) by (simp add: regions_of_def)
  then show "pgread c (int i) k d = Inr (-1, None, c)" "pgwrite c b (int i) k = Inr (-1, c)"
    using pg_rw_beyond assms(3) by (simp_all add: refused_def)
qed

text \<open>
  A read that returns leaves the process as it is, or it served a page fault and changed nothing
  else.
\<close>

lemma getval_cases:
  assumes ok: "devices_ok c" "map_ok M c" "PAGING_PGN a \<in> M" and run: "pg_getval c a = Inr (x, Some w, c')"
  shows "c' = c \<or> (\<exists>v f. fault_ready M c (PAGING_PGN a) v f \<and>
    page_fault c (PAGING_PGN a) (pgd (c_mm c) (PAGING_PGN a)) = Inr (0, c'))"
proof (cases "in_ram c (PAGING_PGN a)")
  case True
  then show ?thesis using getval_present [OF ok(1,2) True] run by simp
next
  case False
  let ?p = "PAGING_PGN a"
  obtain y fpn c1 where g: "pg_getpage c ?p = Inr (y, fpn, c1)" "y = 0"
      "rbind (MEMPHY_read (Some (c_mram c1)) (push_bit PAGING_ADDR_FPN_LOBIT (the fpn) + PAGING_OFFST a))
        (\<lambda>(_, v, mp). case mp of None \<Rightarrow> Inl NullDeref | Some mp \<Rightarrow> Inr (0, v, c1\<lparr>c_mram := mp\<rparr>)) = Inr (x, Some w, c')"
    using run by (auto simp: pg_getval_def Let_def res_simps split: if_splits option.splits)
  have pf: "page_fault c ?p (pgd (c_mm c) ?p) = Inr (0, c1)"
    using g(1,2) False by (auto simp: pg_getpage_def pgd_get_def in_ram_def res_simps split: if_splits)
  then obtain v f where vf: "find_victim_page (c_mm c) = Inr (1, Some v)"
      "\<exists>y sw. MEMPHY_get_freefp (c_mswp c) = Inr (y, Some f, sw)"
    using find_victim_page_result [of c]
    by (auto simp: page_fault_def Let_def res_simps split: if_splits option.splits)
  have "free_of (c_mswp c) \<noteq> [] \<and> hd (free_of (c_mswp c)) = f"
    using vf(2) ok(1) get_freefp_Cons [of "c_mswp c"]
    by (cases "free_of (c_mswp c)") (auto simp: devices_ok_def frames_ok_def get_freefp_Nil)
  then have rdy: "fault_ready M c ?p v f" using ok False vf(1) by (simp add: fault_ready_def)
  then have "rdmflg (c_mram c1)" using page_fault_spec pf by (fastforce simp: devices_ok_def)
  then have "c' = c1" using g(3) by (auto simp: MEMPHY_read_def res_simps)
  then show ?thesis using rdy pf by blast
qed

section \<open>Properties\<close>

lemma sample_proc_ok: "proc_ok sample_ctx"
proof -
  have "\<not> in_ram sample_ctx p" for p by (simp add: in_ram_def sample_ctx_def sample_mm_def)
  then have "map_ok {} sample_ctx" by (simp add: map_ok_def ram_pages_def swp_pages_def)
  moreover have "area_pages sample_ctx = {}"
    by (simp add: area_pages_def sample_ctx_def sample_mm_def pages_for_def)
  moreover have "devices_ok sample_ctx"
    by (simp add: devices_ok_def sample_ctx_def sample_dev_ok) (simp add: sample_dev_def)
  ultimately show ?thesis using sample_vm_inv by (simp add: proc_ok_def)
qed

text \<open>A process with page 0 in RAM frame 0 and page 1 in swap frame 0.\<close>

definition sample_swapped :: vmctx where
  "sample_swapped =
     \<lparr>c_mm = sample_mm\<lparr>pgd := (\<lambda>_. 0)(0 := pte_set_fpn 0 0, 1 := pte_set_swap 0 0 0), fifo_pgn := CNode 0 CNull\<rparr>,
      c_mram = sample_dev 1024 [1, 2, 3], c_mswp = sample_dev 4096 [1, 2, 3]\<rparr>"

lemma sample_swapped_ready: "fault_ready {0, 1} sample_swapped 1 0 1"
proof -
  have r: "in_ram sample_swapped p \<longleftrightarrow> p = 0" for p
    by (simp add: in_ram_def sample_swapped_def)
  then have "ram_pages {0, 1} sample_swapped = {0}" "swp_pages {0, 1} sample_swapped = {1}"
    by (auto simp: ram_pages_def swp_pages_def)
  moreover have "ram_frame sample_swapped 0 = 0" "swp_frame sample_swapped 1 = 0"
    by (simp_all add: ram_frame_def swp_frame_def sample_swapped_def FPN_pte_set_fpn SWP_pte_set_swap)
  ultimately have "map_ok {0, 1} sample_swapped"
    using r by (simp add: map_ok_def) (simp add: sample_swapped_def sample_dev_def frame_in_def PAGING_PAGESZ_def)
  moreover have "devices_ok sample_swapped"
    by (simp add: devices_ok_def sample_swapped_def sample_dev_ok) (simp add: sample_dev_def)
  ultimately show ?thesis
    using r by (simp add: fault_ready_def) (simp add: sample_swapped_def find_victim_page_def pgd_get_def)
qed

text \<open>
  C9: a page fault is transparent: when a victim and a free swap frame exist, the handler
  returns 0, the faulting page is present and the victim is not, every page of the process
  keeps its bytes, each page still has a frame of its own, and no frame outside the reach of
  the process is written.
\<close>

theorem page_fault_transparent:
  assumes "fault_ready M c pgn v f"
  shows "\<exists>c'. page_fault c pgn (pgd (c_mm c) pgn) = Inr (0, c') \<and> in_ram c' pgn \<and> \<not> in_ram c' v \<and>
    map_ok M c' \<and> confined M c M c' \<and>
    (\<forall>p \<in> M. \<forall>k \<in> {0 ..< PAGING_PAGESZ}. page_byte c' p k = page_byte c p k)"
  using page_fault_spec [OF assms] by blast

theorem page_fault_transparent_witness:
  "\<exists>c'. page_fault sample_swapped 1 (pgd (c_mm sample_swapped) 1) = Inr (0, c') \<and> in_ram c' 1 \<and> \<not> in_ram c' 0"
  using page_fault_transparent [OF sample_swapped_ready] by blast

text \<open>
  The access that caused the fault is given the frame number of the old entry, not the
  frame the page was brought into; an access after it reads the page's own bytes.
\<close>

lemma fault_returns_stale_frame:
  assumes "fault_ready M c (PAGING_PGN a) v f"
  shows "\<exists>c'. pg_getpage c (PAGING_PGN a) = Inr (0, Some (PAGING_FPN (pgd (c_mm c) (PAGING_PGN a))), c') \<and>
    pg_getval c' a = Inr (0, Some (page_byte c (PAGING_PGN a) (PAGING_OFFST a)), c')"
proof -
  obtain c' where c': "pg_getpage c (PAGING_PGN a) = Inr (0, Some (PAGING_FPN (pgd (c_mm c) (PAGING_PGN a))), c')"
      "in_ram c' (PAGING_PGN a)" "map_ok M c'" "devices_ok c'"
      "\<forall>p \<in> M. \<forall>k \<in> {0 ..< PAGING_PAGESZ}. page_byte c' p k = page_byte c p k"
    using pg_getpage_fault [OF assms] by blast
  have "PAGING_PGN a \<in> M" using assms by (simp add: fault_ready_def)
  then have "page_byte c' (PAGING_PGN a) (PAGING_OFFST a) = page_byte c (PAGING_PGN a) (PAGING_OFFST a)"
    using c'(5) PAGING_OFFST_bounds [of a] by (simp add: PAGING_PAGESZ_def)
  then show ?thesis using c'(1) getval_present [OF c'(4,3,2)] by simp
qed

lemma fault_returns_stale_frame_witness:
  "\<exists>c'. pg_getpage sample_swapped 1 = Inr (0, Some 0, c') \<and>
    pg_getval c' 300 = Inr (0, Some (page_byte sample_swapped 1 44), c')"
proof -
  have pgn: "PAGING_PGN 300 = 1" "PAGING_OFFST 300 = 44" by (simp_all add: PAGING_PGN_div PAGING_OFFST_mod)
  have "PAGING_FPN (pgd (c_mm sample_swapped) 1) = 0" by (simp add: sample_swapped_def FPN_pte_set_swap)
  then show ?thesis
    using fault_returns_stale_frame [of "{0, 1}" sample_swapped 300 0 1] sample_swapped_ready by (simp add: pgn)
qed

text \<open>
  The victim is the present page enlisted last, although the list is called
  \<open>fifo_pgn\<close>: nodes are enlisted and searched at the same end.
\<close>

lemma victim_is_latest:
  assumes "in_ram c p" "0 \<le> p" "p < PAGING_MAX_PGN"
  shows "find_victim_page ((c_mm c)\<lparr>fifo_pgn := enlist_pgn_node (fifo_pgn (c_mm c)) p\<rparr>) = Inr (1, Some p)"
  using assms by (simp add: find_victim_page_def enlist_pgn_node_def pgd_get_def in_ram_def)

lemma victim_is_latest_witness:
  "find_victim_page ((c_mm sample_swapped)\<lparr>fifo_pgn := enlist_pgn_node (fifo_pgn (c_mm sample_swapped)) 0\<rparr>) =
    Inr (1, Some 0)"
  using victim_is_latest [of sample_swapped 0] fault_ready_D(2) [OF sample_swapped_ready] by simp

text \<open>
  C12: with enough free frames an allocation keeps the process in order: its pages have
  frames of their own, the region entered is inside the area, the bytes of its pages are
  kept and no frame outside its reach is written.
\<close>

theorem alloc_keeps_order:
  assumes "proc_ok c" "i < PAGING_MAX_SYMTBL_SZ" "0 < sz" "sz \<le> area_room c"
    "nat (grow_amt (hd (mmap (c_mm c))) sz) \<le> frames_left c"
  shows "\<exists>a c'. vm_alloc c 0 (int i) sz = Inr (0, a, c') \<and> proc_ok c' \<and>
    regions_of (c_mm c') = (regions_of (c_mm c))[i := (a, a + sz)] \<and>
    confined (area_pages c) c (area_pages c') c' \<and> (\<forall>p \<in> area_pages c. page_byte c' p = page_byte c p)"
  by (rule vm_alloc_proc_ok [OF assms])

theorem alloc_keeps_order_witness:
  "\<exists>a c'. vm_alloc sample_ctx 0 2 1500 = Inr (0, a, c') \<and> proc_ok c'"
proof -
  have "nat (grow_amt (hd (mmap (c_mm sample_ctx))) 1500) \<le> frames_left sample_ctx"
    by (simp add: sample_ctx_def sample_mm_def grow_amt_def pages_for_def frames_left_def)
  then show ?thesis
    using alloc_keeps_order [OF sample_proc_ok, of 2 1500] by (auto simp: PAGING_MAX_SYMTBL_SZ_def)
qed

section \<open>Runs of a process\<close>

text \<open>
  The memory operations of a process: an allocation that gets all its frames, a release, and
  accesses at any offset. Reads include those that cause a page fault and are served; writes
  are those into a page in RAM or refused by the test of the offset. A write that causes a page
  fault is not a step: it may change another process (theory OS_Stale). Nor is an access outside the area of
  the process, which only the register's end and registers without a region allow.
\<close>

inductive mem_step :: "vmctx \<Rightarrow> vmctx \<Rightarrow> bool" where
  Alloc_step: "i < PAGING_MAX_SYMTBL_SZ \<Longrightarrow> 0 < sz \<Longrightarrow> sz \<le> area_room c \<Longrightarrow>
    nat (grow_amt (hd (mmap (c_mm c))) sz) \<le> frames_left c \<Longrightarrow>
    pgalloc c sz (int i) = Inr (r, c') \<Longrightarrow> mem_step c c'"
| Free_step: "i < PAGING_MAX_SYMTBL_SZ \<Longrightarrow> pgfree_data c (int i) = Inr (r, c') \<Longrightarrow> mem_step c c'"
| Write_step: "i < PAGING_MAX_SYMTBL_SZ \<Longrightarrow> refused c i k \<or> in_ram c (access_page c i k) \<Longrightarrow>
    pgwrite c b (int i) k = Inr (r, c') \<Longrightarrow> mem_step c c'"
| Read_step: "i < PAGING_MAX_SYMTBL_SZ \<Longrightarrow> refused c i k \<or> access_page c i k \<in> area_pages c \<Longrightarrow>
    pgread c (int i) k d = Inr (r, u, c') \<Longrightarrow> mem_step c c'"

inductive_cases mem_stepE: "mem_step c c'"

lemma same_regions_proc_ok:
  assumes "same_regions c c'" "devices_ok c'" "map_ok (area_pages c) c'" "proc_ok c"
  shows "proc_ok c'" "area_pages c' = area_pages c"
  using assms by (auto simp: same_regions_def proc_ok_def vm_inv_def vm_state_def regions_of_def area_pages_def devices_ok_def)

lemma present_write:
  assumes ok: "proc_ok c" and i: "i < PAGING_MAX_SYMTBL_SZ" "\<not> refused c i k" and r: "in_ram c (access_page c i k)"
  shows "pgwrite c b (int i) k = Inr (0, put_byte c (phys c (access_addr c i k)) b)"
proof -
  have f: "frame_in (c_mram c) (ram_frame c (access_page c i k))" "rdmflg (c_mram c)"
    using access_ok_frames(1,2) [OF proc_ok_access [OF ok] _ _ r] PAGING_PGN_bounds by (simp_all add: access_page_def)
  then show ?thesis
    using access_present(2) [of c "access_addr c i k"] r access_runs(1) [OF ok i]
    by (simp add: access_page_def put_byte_def)
qed

lemma write_step_confined:
  assumes ok: "proc_ok c" and i: "i < PAGING_MAX_SYMTBL_SZ" and k: "refused c i k \<or> in_ram c (access_page c i k)"
    and run: "pgwrite c b (int i) k = Inr (r, c')"
  shows "proc_ok c' \<and> confined (area_pages c) c (area_pages c') c'"
proof (cases "refused c i k")
  case True
  then show ?thesis using access_refused(2) [OF ok i True] run ok by (simp add: confined_refl)
next
  case False
  let ?a = "access_addr c i k" and ?c = "put_byte c (phys c (access_addr c i k)) b"
  have r: "in_ram c (PAGING_PGN ?a)" using k False by (simp add: access_page_def)
  have c': "c' = ?c" using present_write [OF ok i False] k False run by simp
  have "PAGING_PGN ?a \<in> area_pages c"
    using ok r PAGING_PGN_bounds [of ?a] by (auto simp: proc_ok_def map_ok_def)
  then have "confined (area_pages c) c (area_pages c) ?c"
    using put_byte_confined [OF _ r PAGING_OFFST_bounds] by (simp add: phys_def)
  then show ?thesis using ok c' by (simp add: area_pages_def)
qed

text \<open>A read changes the contents of no page of the process, and none of its regions.\<close>

lemma read_step_spec:
  assumes ok: "proc_ok c" and i: "i < PAGING_MAX_SYMTBL_SZ" and k: "refused c i k \<or> access_page c i k \<in> area_pages c"
    and run: "pgread c (int i) k d = Inr (r, u, c')"
  shows "proc_ok c'" "confined (area_pages c) c (area_pages c') c'" "same_regions c c'"
    "p \<in> area_pages c \<Longrightarrow> j \<in> {0 ..< PAGING_PAGESZ} \<Longrightarrow> page_byte c' p j = page_byte c p j"
proof -
  have dm: "devices_ok c" "map_ok (area_pages c) c" using ok by (simp_all add: proc_ok_def)
  consider "c' = c" | v f where "fault_ready (area_pages c) c (access_page c i k) v f"
      "page_fault c (access_page c i k) (pgd (c_mm c) (access_page c i k)) = Inr (0, c')"
  proof (cases "refused c i k")
    case True
    then show thesis using that(1) access_refused(1) [OF ok i True] run by simp
  next
    case False
    then obtain x w where "pg_getval c (access_addr c i k) = Inr (x, Some w, c')"
      using access_runs(2) [OF ok i False run] by blast
    then show thesis
      using getval_cases [OF dm] k False that unfolding access_page_def by blast
  qed
  then have "same_regions c c' \<and> devices_ok c' \<and> map_ok (area_pages c) c' \<and> confined (area_pages c) c (area_pages c) c' \<and>
      (\<forall>p \<in> area_pages c. \<forall>j \<in> {0 ..< PAGING_PAGESZ}. page_byte c' p j = page_byte c p j)"
  proof cases
    case 1
    then show ?thesis using dm by (simp add: same_regions_def confined_refl)
  next
    case (2 v f)
    then show ?thesis using page_fault_spec [OF 2(1)] by auto
  qed
  then show "proc_ok c'" "confined (area_pages c) c (area_pages c') c'" "same_regions c c'"
    "p \<in> area_pages c \<Longrightarrow> j \<in> {0 ..< PAGING_PAGESZ} \<Longrightarrow> page_byte c' p j = page_byte c p j"
    using same_regions_proc_ok [of c c'] ok by auto
qed

lemma mem_step_confined:
  assumes "mem_step c c'" "proc_ok c"
  shows "proc_ok c' \<and> confined (area_pages c) c (area_pages c') c'"
  using assms(1)
proof cases
  case (Alloc_step i sz r)
  have "s32 (int i) = int i" "s32 sz = sz"
    using Alloc_step(1-3) assms(2)
    by (auto simp: PAGING_MAX_SYMTBL_SZ_def area_room_def proc_ok_def vm_inv_def vm_state_def)
  then show ?thesis
    using vm_alloc_proc_ok [OF assms(2) Alloc_step(1-4)] Alloc_step(5) by (auto simp: pgalloc_def)
next
  case (Free_step i r)
  have "s32 (int i) = int i" using Free_step(1) by (simp add: PAGING_MAX_SYMTBL_SZ_def)
  then show ?thesis
    using vm_free_proc_ok [OF assms(2) Free_step(1), of r c'] same_pages_keeps(4) [of c c' "area_pages c"] Free_step(2)
    by (simp add: pgfree_data_def)
next
  case (Write_step i k b r)
  then show ?thesis using write_step_confined [OF assms(2)] by blast
next
  case (Read_step i k d r u)
  then show ?thesis using read_step_spec(1,2) [OF assms(2) Read_step] by blast
qed

lemma mem_steps_confined:
  assumes "mem_step\<^sup>*\<^sup>* c c'" "proc_ok c"
  shows "proc_ok c' \<and> confined (area_pages c) c (area_pages c') c'"
  using assms
proof (induction rule: rtranclp_induct)
  case base
  then show ?case by (simp add: confined_refl)
next
  case (step c1 c2)
  then show ?case using mem_step_confined [OF step(2)] confined_trans by blast
qed

text \<open>
  C4: processes are isolated as long as no write causes a page fault and every allocation gets
  its frames: however many such allocations, releases, reads (those that cause a page fault and
  are served included) and writes to pages in RAM a process performs, it stays in order, and the
  pages of any other process whose frames it could not reach at the start keep every byte and
  stay out of its reach.
\<close>

theorem processes_isolated:
  assumes "mem_step\<^sup>*\<^sup>* c c'" "proc_ok c" "apart (area_pages c) c N m"
  shows "proc_ok c' \<and> apart (area_pages c') c' N m \<and>
    (\<forall>p \<in> N. \<forall>k \<in> {0 ..< PAGING_PAGESZ}. page_byte (c'\<lparr>c_mm := m\<rparr>) p k = page_byte (c\<lparr>c_mm := m\<rparr>) p k)"
  using mem_steps_confined [OF assms(1,2)] confined_apart [OF _ assms(3)] confined_isolates [OF _ assms(3)] by blast

text \<open>A second process with one page in RAM frame 0, which is not free.\<close>

definition sample_shared :: vmctx where
  "sample_shared = sample_ctx\<lparr>c_mram := sample_dev 1024 [1, 2, 3]\<rparr>"

definition sample_other :: mm_struct where
  "sample_other = sample_mm\<lparr>pgd := (\<lambda>_. 0)(0 := pte_set_fpn 0 0)\<rparr>"

lemma sample_shared_ok: "proc_ok sample_shared"
proof -
  have "same_regions sample_ctx sample_shared" by (simp add: same_regions_def sample_shared_def)
  moreover have "devices_ok sample_shared"
    by (simp add: devices_ok_def sample_shared_def sample_ctx_def sample_dev_ok) (simp add: sample_dev_def)
  moreover have "\<not> in_ram sample_shared p" for p
    by (simp add: in_ram_def sample_shared_def sample_ctx_def sample_mm_def)
  then have "map_ok (area_pages sample_ctx) sample_shared"
    by (simp add: map_ok_def ram_pages_def swp_pages_def area_pages_def sample_ctx_def sample_mm_def pages_for_def)
  ultimately show ?thesis using same_regions_proc_ok sample_proc_ok by blast
qed

lemma sample_apart: "apart (area_pages sample_shared) sample_shared {0} sample_other"
proof -
  let ?d = "sample_shared\<lparr>c_mm := sample_other\<rparr>"
  have r: "in_ram ?d p \<longleftrightarrow> p = 0" for p by (simp add: in_ram_def sample_other_def sample_mm_def)
  then have pg: "ram_pages {0} ?d = {0}" "swp_pages {0} ?d = {}" by (auto simp: ram_pages_def swp_pages_def)
  have f: "ram_frame ?d 0 = 0" by (simp add: ram_frame_def sample_other_def FPN_pte_set_fpn)
  have "map_ok {0} ?d"
    using r pg f by (simp add: map_ok_def) (simp add: sample_shared_def sample_dev_def frame_in_def PAGING_PAGESZ_def)
  moreover have "ram_reach (area_pages sample_shared) sample_shared = {1, 2, 3}"
    by (simp add: ram_reach_def ram_pages_def area_pages_def sample_shared_def sample_ctx_def sample_mm_def pages_for_def)
  ultimately show ?thesis using pg f by (simp add: apart_def Let_def)
qed

theorem processes_isolated_witness:
  "\<exists>c'. pgalloc sample_shared 700 0 = Inr (0, c') \<and> proc_ok c' \<and>
    page_byte (c'\<lparr>c_mm := sample_other\<rparr>) 0 5 = page_byte (sample_shared\<lparr>c_mm := sample_other\<rparr>) 0 5"
proof -
  have g: "nat (grow_amt (hd (mmap (c_mm sample_shared))) 700) \<le> frames_left sample_shared" "700 \<le> area_room sample_shared"
    by (simp_all add: sample_shared_def sample_ctx_def sample_mm_def grow_amt_def pages_for_def frames_left_def area_room_def)
  then obtain a c' where c': "vm_alloc sample_shared 0 0 700 = Inr (0, a, c')"
    using vm_alloc_proc_ok [OF sample_shared_ok, of 0 700] by (auto simp: PAGING_MAX_SYMTBL_SZ_def)
  then have run: "pgalloc sample_shared 700 (int 0) = Inr (0, c')" by (simp add: pgalloc_def)
  have "mem_step sample_shared c'"
    using g run by (intro Alloc_step [of 0 700]) (simp_all add: PAGING_MAX_SYMTBL_SZ_def)
  then have "mem_step\<^sup>*\<^sup>* sample_shared c'" by (rule r_into_rtranclp)
  from processes_isolated [OF this sample_shared_ok sample_apart]
  show ?thesis using run by (simp add: PAGING_PAGESZ_def)
qed

text \<open>
  C11: reading back in RAM: when the pages of both bytes are in RAM, a byte written with
  \<open>pgwrite\<close> at an offset inside a region is the byte \<open>pgread\<close> returns there, any other byte of
  any region reads as before the write, and of all bytes of all pages of the process only the one
  addressed changes. (A write whose page is in swap is lost, see theory OS_Stale.)
\<close>

theorem pgwrite_pgread:
  assumes "proc_ok c" "in_region c i k" "in_region c j l"
    "in_ram c (PAGING_PGN (region_addr c i k))" "in_ram c (PAGING_PGN (region_addr c j l))"
  shows "\<exists>c' u. pgwrite c b (int i) k = Inr (0, c') \<and> proc_ok c' \<and>
    pgread c (int j) l d = Inr (0, Some u, c) \<and>
    pgread c' (int j) l d = Inr (0, Some (if (i, k) = (j, l) then b else u), c') \<and>
    (\<forall>p \<in> area_pages c. \<forall>x \<in> {0 ..< PAGING_PAGESZ}. page_byte c' p x =
      (if p = PAGING_PGN (region_addr c i k) \<and> x = PAGING_OFFST (region_addr c i k) then b else page_byte c p x))"
proof -
  obtain c' u where c': "vm_write c 0 (int i) k b = Inr (0, c')" "proc_ok c'" "vm_read c 0 (int j) l = Inr (0, Some u, c)"
      "vm_read c' 0 (int j) l = Inr (0, Some (if (i, k) = (j, l) then b else u), c')"
    using region_read_write [OF assms] by blast
  have e: "c' = put_byte c (phys c (region_addr c i k)) b" using region_access(2) [OF assms(1,2,4)] c'(1) by simp
  then have "in_region c' j l" using assms(3) by (simp add: in_region_def)
  moreover have "page_byte c' p x =
      (if p = PAGING_PGN (region_addr c i k) \<and> x = PAGING_OFFST (region_addr c i k) then b else page_byte c p x)"
    if "p \<in> area_pages c" "x \<in> {0 ..< PAGING_PAGESZ}" for p x
    using put_byte_page [OF _ _ that(1) assms(4), of x] assms(1) that(2) e by (simp add: proc_ok_def PAGING_PAGESZ_def)
  ultimately show ?thesis
    using pg_rw_in_region(1) [OF assms(1,2), of b] pg_rw_in_region(2) [OF assms(1,3) c'(3)]
      pg_rw_in_region(2) [OF c'(2) _ c'(4)] c'(1,2) by auto
qed

text \<open>A process with region 3 at \<open>[0, 100)\<close> and page 0 in RAM frame 0.\<close>

definition sample_ctx2 :: vmctx where
  "sample_ctx2 = sample_ctx1\<lparr>c_mm := (c_mm sample_ctx1)\<lparr>pgd := (\<lambda>_. 0)(0 := pte_set_fpn 0 0)\<rparr>,
     c_mram := sample_dev 1024 [1, 2, 3]\<rparr>"

lemma sample_ctx2_ok: "proc_ok sample_ctx2" "in_ram sample_ctx2 p \<longleftrightarrow> p = 0"
  "symrgtbl (c_mm sample_ctx2) ! 3 = \<lparr>rg_start = 0, rg_end = 100, rg_next = None\<rparr>"
proof -
  show r: "in_ram sample_ctx2 p \<longleftrightarrow> p = 0" for p by (simp add: in_ram_def sample_ctx2_def)
  show "symrgtbl (c_mm sample_ctx2) ! 3 = \<lparr>rg_start = 0, rg_end = 100, rg_next = None\<rparr>"
    by (simp add: sample_ctx2_def sample_ctx1_def sample_mm_def)
  have pg: "area_pages sample_ctx2 = {0}"
    by (auto simp: area_pages_def sample_ctx2_def sample_ctx1_def pages_for_def)
  have "ram_pages {0} sample_ctx2 = {0}" "swp_pages {0} sample_ctx2 = {}" using r by (auto simp: ram_pages_def swp_pages_def)
  moreover have "ram_frame sample_ctx2 0 = 0" by (simp add: ram_frame_def sample_ctx2_def FPN_pte_set_fpn)
  ultimately have "map_ok {0} sample_ctx2"
    using r by (simp add: map_ok_def) (simp add: sample_ctx2_def sample_dev_def frame_in_def PAGING_PAGESZ_def)
  moreover have "devices_ok sample_ctx2"
    by (simp add: devices_ok_def sample_ctx2_def sample_ctx1_def sample_ctx_def sample_dev_ok) (simp add: sample_dev_def)
  moreover have "vm_state sample_ctx2 ((hd (mmap sample_mm))\<lparr>sbrk := 100, vm_end := 256\<rparr>) [] 0 []"
    using sample_vm_state1 by (simp add: vm_state_def sample_ctx2_def regions_of_def sample_dev_ok)
  ultimately show "proc_ok sample_ctx2" using pg by (auto simp: proc_ok_def vm_inv_def)
qed

theorem pgwrite_pgread_witness:
  "\<exists>c'. pgwrite sample_ctx2 77 3 12 = Inr (0, c') \<and> pgread c' 3 12 0 = Inr (0, Some 77, c') \<and>
    page_byte c' 0 13 = page_byte sample_ctx2 0 13"
proof -
  have k: "in_region sample_ctx2 3 12" "in_ram sample_ctx2 (PAGING_PGN (region_addr sample_ctx2 3 12))"
      "PAGING_PGN (region_addr sample_ctx2 3 12) = 0" "PAGING_OFFST (region_addr sample_ctx2 3 12) = 12"
    by (simp_all add: in_region_def region_addr_def sample_ctx2_ok(2,3) PAGING_MAX_SYMTBL_SZ_def PAGING_PGN_div PAGING_OFFST_mod)
  have "PAGING_PGN (region_addr sample_ctx2 3 12) \<in> area_pages sample_ctx2"
    using region_addr_bounds(4) [OF _ k(1)] sample_ctx2_ok(1) by (simp add: proc_ok_def)
  then have "0 \<in> area_pages sample_ctx2" "(13 :: int) \<in> {0 ..< PAGING_PAGESZ}" unfolding k(3) by (simp_all add: PAGING_PAGESZ_def)
  then show ?thesis using pgwrite_pgread [OF sample_ctx2_ok(1) k(1,1,2,2), of 77 0] unfolding k(3,4) by fastforce
qed

end
