(* ===== verification/OS_Queue.thy ===== *)
theory OS_Queue
  imports OS_Types
begin

text \<open>
  \<open>src/queue.c\<close>: the bounded array queue of process pointers. A null pointer in the array
  is \<open>None\<close>. The queue type is polymorphic in what it stores. \<open>q_slot\<close> is the
  \<open>unsigned int\<close> budget the scheduler keeps with each queue.
\<close>

definition MAX_QUEUE_SIZE :: nat where "MAX_QUEUE_SIZE = 10"

record 'p queue_t =
  q_proc :: "'p option list"
  q_size :: nat
  q_slot :: nat

definition empty :: "'p queue_t option \<Rightarrow> bool" where
  "empty q = (case q of None \<Rightarrow> True | Some q \<Rightarrow> q_size q = 0)"

text \<open>No bound is checked before the store: a full queue writes past its array.\<close>

definition enqueue :: "'p queue_t \<Rightarrow> 'p \<Rightarrow> 'p queue_t res" where
  "enqueue q p =
     rbind (arr_set (q_proc q) (q_size q) (Some p)) (\<lambda>a.
     Inr (q\<lparr>q_proc := a, q_size := q_size q + 1\<rparr>))"

text \<open>The loop that moves every element one place to the front.\<close>

function dequeue_shift :: "nat \<Rightarrow> nat \<Rightarrow> 'a list \<Rightarrow> 'a list res" where
  "dequeue_shift i n a =
     (if i < n - 1 then
        rbind (arr_get a (i + 1)) (\<lambda>x.
        rbind (arr_set a i x) (\<lambda>a'.
        dequeue_shift (i + 1) n a'))
      else Inr a)"
  by pat_completeness auto
termination by (relation "measure (\<lambda>(i, n, a). n - i)") auto

declare dequeue_shift.simps [simp del]

definition dequeue :: "'p queue_t \<Rightarrow> ('p option \<times> 'p queue_t) res" where
  "dequeue q =
     (if empty (Some q) then Inr (None, q)
      else
        rbind (arr_get (q_proc q) 0) (\<lambda>temp.
        rbind (dequeue_shift 0 (q_size q) (q_proc q)) (\<lambda>a.
        rbind (arr_set a (q_size q - 1) None) (\<lambda>a.
        Inr (temp, q\<lparr>q_proc := a, q_size := q_size q - 1\<rparr>)))))"

text \<open>\<open>printQueue\<close> prints the identifier of every element; a null element faults.\<close>

fun printQueue_loop :: "('p \<Rightarrow> int) \<Rightarrow> 'p option list \<Rightarrow> nat \<Rightarrow> int list res" where
  "printQueue_loop pid_of a 0 = Inr []"
| "printQueue_loop pid_of [] (Suc n) = Inl OutOfBounds"
| "printQueue_loop pid_of (None # a) (Suc n) = Inl NullDeref"
| "printQueue_loop pid_of (Some p # a) (Suc n) =
     rbind (printQueue_loop pid_of a n) (\<lambda>out. Inr (pid_of p # out))"

definition printQueue :: "('p \<Rightarrow> int) \<Rightarrow> 'p queue_t \<Rightarrow> int list res" where
  "printQueue pid_of q = printQueue_loop pid_of (q_proc q) (q_size q)"

section \<open>Invariant and contents\<close>

definition queue_ok :: "'p queue_t \<Rightarrow> bool" where
  "queue_ok q \<longleftrightarrow>
     length (q_proc q) = MAX_QUEUE_SIZE \<and> q_size q \<le> MAX_QUEUE_SIZE \<and>
     (\<forall>x \<in> set (take (q_size q) (q_proc q)). x \<noteq> None)"

definition qlist :: "'p queue_t \<Rightarrow> 'p list" where
  "qlist q = map the (take (q_size q) (q_proc q))"

lemma length_qlist: "queue_ok q \<Longrightarrow> length (qlist q) = q_size q"
  by (simp add: queue_ok_def qlist_def)

lemma take_eq_qlist: "queue_ok q \<Longrightarrow> take (q_size q) (q_proc q) = map Some (qlist q)"
  by (auto simp: queue_ok_def qlist_def intro!: map_idI [symmetric])

lemma empty_iff_qlist: "queue_ok q \<Longrightarrow> empty (Some q) \<longleftrightarrow> qlist q = []"
  by (auto simp: empty_def queue_ok_def qlist_def MAX_QUEUE_SIZE_def)

section \<open>The shift loop\<close>

lemma dequeue_shift_correct:
  assumes "i < n" "n \<le> length a"
  shows "dequeue_shift i n a =
    Inr (take i a @ drop (Suc i) (take n a) @ drop (n - 1) a)"
  using assms
proof (induction i n a rule: dequeue_shift.induct)
  case (1 i n a)
  show ?case
  proof (cases "i < n - 1")
    case True
    let ?a = "a[i := a ! (i + 1)]"
    have step: "dequeue_shift i n a = dequeue_shift (i + 1) n ?a"
      using True 1 by (subst dequeue_shift.simps) simp
    have "dequeue_shift (i + 1) n ?a =
        Inr (take (i + 1) ?a @ drop (Suc (i + 1)) (take n ?a) @ drop (n - 1) ?a)"
      using 1 True by (intro "1.IH") auto
    moreover have "take (i + 1) ?a = take i a @ [a ! (i + 1)]"
      using 1 True by (simp add: take_Suc_conv_app_nth)
    moreover have "drop (Suc i) (take n a) = a ! (i + 1) # drop (Suc (i + 1)) (take n a)"
      using 1 True Cons_nth_drop_Suc [of "Suc i" "take n a"] by simp
    moreover have "take n ?a = (take n a)[i := a ! (i + 1)]"
      by (simp add: take_update_swap)
    ultimately show ?thesis
      using True step by simp
  next
    case False
    then have n: "n = Suc i" using "1.prems" by simp
    then have "take i a @ drop i a = a" by simp
    then show ?thesis
      using n by (subst dequeue_shift.simps) simp
  qed
qed

section \<open>The queue as an interface\<close>

text \<open>
  What the scheduler may rely on: a bounded first-in first-out queue. Enqueueing into a full
  queue is outside the contract, and the law says what the code does there.
\<close>

locale fifo_queue =
  fixes is_empty :: "'q \<Rightarrow> bool"
    and enq :: "'q \<Rightarrow> 'p \<Rightarrow> 'q res"
    and deq :: "'q \<Rightarrow> ('p option \<times> 'q) res"
    and elems :: "'q \<Rightarrow> 'p list"
    and inv :: "'q \<Rightarrow> bool"
    and cap :: nat
  assumes is_empty_iff: "inv q \<Longrightarrow> is_empty q \<longleftrightarrow> elems q = []"
    and elems_cap: "inv q \<Longrightarrow> length (elems q) \<le> cap"
    and enq_room: "inv q \<Longrightarrow> length (elems q) < cap \<Longrightarrow>
      \<exists>q'. enq q p = Inr q' \<and> inv q' \<and> elems q' = elems q @ [p]"
    and enq_full: "inv q \<Longrightarrow> length (elems q) = cap \<Longrightarrow> enq q p = Inl OutOfBounds"
    and deq_Nil: "inv q \<Longrightarrow> elems q = [] \<Longrightarrow> deq q = Inr (None, q)"
    and deq_Cons: "inv q \<Longrightarrow> elems q = x # xs \<Longrightarrow>
      \<exists>q'. deq q = Inr (Some x, q') \<and> inv q' \<and> elems q' = xs"

text \<open>Clients enqueue a batch and take a number of elements out.\<close>

primrec enq_all :: "('q \<Rightarrow> 'p \<Rightarrow> 'q res) \<Rightarrow> 'q \<Rightarrow> 'p list \<Rightarrow> 'q res" where
  "enq_all enq q [] = Inr q"
| "enq_all enq q (p # ps) = rbind (enq q p) (\<lambda>q'. enq_all enq q' ps)"

primrec deq_n :: "('q \<Rightarrow> ('p option \<times> 'q) res) \<Rightarrow> nat \<Rightarrow> 'q \<Rightarrow> ('p option list \<times> 'q) res" where
  "deq_n deq 0 q = Inr ([], q)"
| "deq_n deq (Suc n) q =
     rbind (deq q) (\<lambda>(p, q'). rbind (deq_n deq n q') (\<lambda>(ps, q''). Inr (p # ps, q'')))"

context fifo_queue
begin

lemma deq_total: "inv q \<Longrightarrow> \<exists>p q'. deq q = Inr (p, q') \<and> inv q'"
  by (cases "elems q") (auto dest: deq_Nil deq_Cons)

lemma enq_defined_iff: "inv q \<Longrightarrow> (\<exists>q'. enq q p = Inr q') \<longleftrightarrow> length (elems q) < cap"
  using enq_room [of q p] enq_full [of q p] elems_cap [of q] by (auto simp: order_le_less)

lemma enq_all_ok:
  "inv q \<Longrightarrow> length (elems q) + length ps \<le> cap \<Longrightarrow>
     \<exists>q'. enq_all enq q ps = Inr q' \<and> inv q' \<and> elems q' = elems q @ ps"
proof (induction ps arbitrary: q)
  case (Cons p ps)
  from Cons.prems obtain q1 where "enq q p = Inr q1" "inv q1" "elems q1 = elems q @ [p]"
    using enq_room [of q p] by auto
  with Cons.IH [of q1] Cons.prems show ?case by simp
qed simp

lemma deq_n_ok:
  "inv q \<Longrightarrow> elems q = ps @ rest \<Longrightarrow>
     \<exists>q'. deq_n deq (length ps) q = Inr (map Some ps, q') \<and> inv q' \<and> elems q' = rest"
proof (induction ps arbitrary: q)
  case (Cons p ps)
  from Cons.prems obtain q1 where "deq q = Inr (Some p, q1)" "inv q1" "elems q1 = ps @ rest"
    using deq_Cons [of q p "ps @ rest"] by auto
  with Cons.IH [of q1] show ?case by auto
qed simp

lemma fifo_order:
  assumes "inv q" "length (elems q) + length ps \<le> cap"
  shows "\<exists>q1 q2. enq_all enq q ps = Inr q1 \<and>
    deq_n deq (length (elems q) + length ps) q1 = Inr (map Some (elems q @ ps), q2) \<and>
    inv q2 \<and> elems q2 = []"
proof -
  obtain q1 where q1: "enq_all enq q ps = Inr q1" "inv q1" "elems q1 = elems q @ ps"
    using enq_all_ok assms by blast
  with deq_n_ok [of q1 "elems q @ ps" "[]"] show ?thesis by auto
qed

end

section \<open>The code's queue satisfies the interface\<close>

lemma enqueue_room:
  assumes "queue_ok q" "length (qlist q) < MAX_QUEUE_SIZE"
  shows "\<exists>q'. enqueue q p = Inr q' \<and> queue_ok q' \<and> qlist q' = qlist q @ [p] \<and> q_slot q' = q_slot q"
  using assms length_qlist [of q]
  by (auto simp: enqueue_def queue_ok_def qlist_def take_Suc_conv_app_nth)

lemma enqueue_full:
  "queue_ok q \<Longrightarrow> length (qlist q) = MAX_QUEUE_SIZE \<Longrightarrow> enqueue q p = Inl OutOfBounds"
  using length_qlist [of q] by (simp add: enqueue_def queue_ok_def arr_set_def)

lemma dequeue_Nil: "queue_ok q \<Longrightarrow> qlist q = [] \<Longrightarrow> dequeue q = Inr (None, q)"
  by (simp add: dequeue_def empty_iff_qlist)

lemma dequeue_Cons:
  assumes ok: "queue_ok q" and q: "qlist q = x # xs"
  shows "\<exists>q'. dequeue q = Inr (Some x, q') \<and> queue_ok q' \<and> qlist q' = xs \<and> q_slot q' = q_slot q"
proof -
  let ?a = "q_proc q" and ?n = "q_size q"
  have n: "?n = Suc (length xs)" "?n \<le> length ?a" "length ?a = MAX_QUEUE_SIZE"
    using ok q length_qlist [of q] by (simp_all add: queue_ok_def)
  have tk: "take ?n ?a = Some x # map Some xs"
    using take_eq_qlist [OF ok] q by simp
  then have hd: "?a ! 0 = Some x"
    using n nth_take [of 0 ?n ?a] by simp
  have sh: "dequeue_shift 0 ?n ?a = Inr (map Some xs @ drop (length xs) ?a)"
    using dequeue_shift_correct [of 0 ?n ?a] n tk by simp
  have "dequeue q = Inr (Some x, q\<lparr>q_proc := (map Some xs @ drop (length xs) ?a)[length xs := None],
      q_size := length xs\<rparr>)"
    using n hd sh by (auto simp: dequeue_def empty_def)
  moreover have "take (length xs) ((map Some xs @ drop (length xs) ?a)[length xs := None]) = map Some xs"
    by simp
  ultimately show ?thesis
    using n by (auto simp: queue_ok_def qlist_def)
qed

interpretation q: fifo_queue "\<lambda>q. empty (Some q)" enqueue dequeue qlist queue_ok MAX_QUEUE_SIZE
proof unfold_locales
  fix q :: "'a queue_t" assume ok: "queue_ok q"
  show "empty (Some q) \<longleftrightarrow> qlist q = []" by (rule empty_iff_qlist [OF ok])
  show "length (qlist q) \<le> MAX_QUEUE_SIZE"
    using ok length_qlist [OF ok] by (simp add: queue_ok_def)
next
  fix q :: "'a queue_t" and p
  assume "queue_ok q" "length (qlist q) < MAX_QUEUE_SIZE"
  then show "\<exists>q'. enqueue q p = Inr q' \<and> queue_ok q' \<and> qlist q' = qlist q @ [p]"
    using enqueue_room [of q p] by auto
next
  fix q :: "'a queue_t" and x xs
  assume "queue_ok q" "qlist q = x # xs"
  then show "\<exists>q'. dequeue q = Inr (Some x, q') \<and> queue_ok q' \<and> qlist q' = xs"
    using dequeue_Cons [of q x xs] by auto
qed (simp_all add: enqueue_full dequeue_Nil)

section \<open>Properties\<close>

text \<open>
  With room for them, processes leave the queue in the order in which they entered it,
  after the ones already queued, and none is lost.
\<close>

lemma queue_fifo:
  assumes "queue_ok q" "length (qlist q) + length ps \<le> MAX_QUEUE_SIZE"
  shows "\<exists>q1 q2. enq_all enqueue q ps = Inr q1 \<and>
    deq_n dequeue (length (qlist q) + length ps) q1 = Inr (map Some (qlist q @ ps), q2) \<and>
    queue_ok q2 \<and> qlist q2 = []"
  by (rule q.fifo_order [OF assms])

lemma queue_fifo_witness:
  "\<exists>q1 q2. enq_all enqueue \<lparr>q_proc = replicate 10 None, q_size = 0, q_slot = 0\<rparr> [3, 1, 2 :: nat] = Inr q1 \<and>
    deq_n dequeue 3 q1 = Inr ([Some 3, Some 1, Some 2], q2) \<and> qlist q2 = []"
  using queue_fifo [of "\<lparr>q_proc = replicate 10 None, q_size = 0, q_slot = 0\<rparr>" "[3, 1, 2 :: nat]"]
  by (auto simp: queue_ok_def qlist_def MAX_QUEUE_SIZE_def numeral_3_eq_3)

text \<open>
  On a well-formed queue \<open>enqueue\<close> succeeds exactly when fewer than ten processes wait;
  at ten it writes past the array, since nothing checks the size.
\<close>

lemma enqueue_bound:
  assumes "queue_ok q"
  shows "if length (qlist q) < MAX_QUEUE_SIZE
    then \<exists>q'. enqueue q p = Inr q' \<and> queue_ok q' \<and> qlist q' = qlist q @ [p] \<and> q_slot q' = q_slot q
    else enqueue q p = Inl OutOfBounds"
  using enqueue_room [OF assms] enqueue_full [OF assms] q.elems_cap [OF assms] by auto

end
