(* ===== verification/OS_Sched.thy ===== *)
theory OS_Sched
  imports OS_Queue
begin

text \<open>
  \<open>src/sched.c\<close> as configured (\<open>MLQ_SCHED\<close> is defined by \<open>os-cfg.h\<close> and \<open>sched.h\<close>): one
  bounded queue per priority, each with a budget of dispatches (\<open>slot\<close>). The definitions
  are the code run without interference from another CPU; the lock operations around their
  critical sections are then no-ops. Theory OS_Race has the interleavings.
\<close>

definition MAX_PRIO :: nat where "MAX_PRIO = 140"

record sched =
  mlq :: "pcb_t queue_t list"
  ready_queue :: "pcb_t queue_t"
  run_queue :: "pcb_t queue_t"

text \<open>The zero-initialised static objects.\<close>

definition static_queue :: "'p queue_t" where
  "static_queue = \<lparr>q_proc = replicate MAX_QUEUE_SIZE None, q_size = 0, q_slot = 0\<rparr>"

definition static_sched :: sched where
  "static_sched =
     \<lparr>mlq = replicate MAX_PRIO static_queue, ready_queue = static_queue, run_queue = static_queue\<rparr>"

definition queue_empty :: "sched \<Rightarrow> bool" where
  "queue_empty s =
     (if list_ex (\<lambda>q. \<not> empty (Some q)) (mlq s) then False
      else empty (Some (ready_queue s)) \<and> empty (Some (run_queue s)))"

definition init_scheduler :: "sched \<Rightarrow> sched" where
  "init_scheduler s =
     s\<lparr>mlq := map (\<lambda>(i, q). q\<lparr>q_size := 0, q_slot := MAX_PRIO - i\<rparr>) (enumerate 0 (mlq s)),
       ready_queue := (ready_queue s)\<lparr>q_size := 0\<rparr>,
       run_queue := (run_queue s)\<lparr>q_size := 0\<rparr>\<rparr>"

definition resetSlot :: "sched \<Rightarrow> sched" where
  "resetSlot s =
     s\<lparr>mlq := map (\<lambda>(i, q). q\<lparr>q_slot := MAX_PRIO - i\<rparr>) (enumerate 0 (mlq s))\<rparr>"

definition printReadyQueue :: "(pcb_t \<Rightarrow> int) \<Rightarrow> sched \<Rightarrow> int list list res" where
  "printReadyQueue pid_of s =
     foldr (\<lambda>q out. rbind (printQueue pid_of q) (\<lambda>l. rbind out (\<lambda>ls. Inr (l # ls)))) (mlq s) (Inr [])"

text \<open>\<open>slot--\<close> on an \<open>unsigned int\<close>.\<close>

definition u32_dec :: "nat \<Rightarrow> nat" where
  "u32_dec n = (n + 2 ^ 32 - 1) mod 2 ^ 32"

lemma length_resetSlot [simp]: "length (mlq (resetSlot s)) = length (mlq s)"
  by (simp add: resetSlot_def)

lemma nth_resetSlot [simp]:
  "i < length (mlq s) \<Longrightarrow> mlq (resetSlot s) ! i = (mlq s ! i)\<lparr>q_slot := MAX_PRIO - i\<rparr>"
  by (simp add: resetSlot_def nth_enumerate_eq)

text \<open>
  The scan of \<open>get_mlq_proc\<close>. At the last priority with its budget spent, the code resets
  the budgets and sets \<open>prio_select = 0\<close>, so that the increment of the loop resumes the scan
  at priority 1. The scan ends: after the reset the last queue has a budget.
\<close>

function get_mlq_loop :: "nat \<Rightarrow> sched \<Rightarrow> (pcb_t option \<times> sched) res" where
  "get_mlq_loop i s =
     (if i < MAX_PRIO then
        rbind (arr_get (mlq s) i) (\<lambda>q.
          if empty (Some q) then
            get_mlq_loop (i + 1) (if i = MAX_PRIO - 1 then resetSlot s else s)
          else if q_slot q > 0 then
            rbind (dequeue q) (\<lambda>(p, q').
            Inr (p, s\<lparr>mlq := (mlq s)[i := q'\<lparr>q_slot := u32_dec (q_slot q')\<rparr>]\<rparr>))
          else if i = MAX_PRIO - 1 then get_mlq_loop 1 (resetSlot s)
          else get_mlq_loop (i + 1) s)
      else Inr (None, s))"
  by pat_completeness auto
termination
  by (relation "measures [\<lambda>(i, s). if q_slot (mlq s ! 139) = 0 then 1 else 0, \<lambda>(i, s). 140 - i]")
    (auto simp: MAX_PRIO_def arr_get_eq_Inr)

declare get_mlq_loop.simps [simp del]

definition get_mlq_proc :: "sched \<Rightarrow> (pcb_t option \<times> sched) res" where
  "get_mlq_proc s = (if queue_empty s then Inr (None, s) else get_mlq_loop 0 s)"

definition put_mlq_proc :: "sched \<Rightarrow> pcb_t \<Rightarrow> sched res" where
  "put_mlq_proc s p =
     rbind (arr_get (mlq s) (nat (prio p))) (\<lambda>q.
     rbind (enqueue q p) (\<lambda>q'.
     Inr (s\<lparr>mlq := (mlq s)[nat (prio p) := q']\<rparr>)))"

definition add_mlq_proc :: "sched \<Rightarrow> pcb_t \<Rightarrow> sched res" where
  "add_mlq_proc s p =
     rbind (arr_get (mlq s) (nat (prio p))) (\<lambda>q.
     rbind (enqueue q p) (\<lambda>q'.
     Inr (s\<lparr>mlq := (mlq s)[nat (prio p) := q']\<rparr>)))"

definition get_proc :: "sched \<Rightarrow> (pcb_t option \<times> sched) res" where
  "get_proc s = get_mlq_proc s"

definition put_proc :: "sched \<Rightarrow> pcb_t \<Rightarrow> sched res" where
  "put_proc s p = put_mlq_proc s p"

definition add_proc :: "sched \<Rightarrow> pcb_t \<Rightarrow> sched res" where
  "add_proc s p = add_mlq_proc s p"

section \<open>The policy the scheduler implements\<close>

text \<open>
  The abstract scheduler: a process list and a budget per priority. Serve the most urgent
  priority that has a process and a budget. When there is none, restore the budgets; then,
  if the least urgent priority has a process, serve the most urgent waiting priority other
  than 0, otherwise serve nobody this time.
\<close>

type_synonym 'p levels = "nat \<Rightarrow> 'p list"
type_synonym budgets = "nat \<Rightarrow> nat"

definition full_budget :: budgets where
  "full_budget i = (if i < MAX_PRIO then MAX_PRIO - i else 0)"

definition serve :: "nat \<Rightarrow> 'p levels \<Rightarrow> budgets \<Rightarrow> 'p option \<times> 'p levels \<times> budgets" where
  "serve k Q B = (Some (hd (Q k)), Q(k := tl (Q k)), B(k := B k - 1))"

definition mlq_policy :: "'p levels \<Rightarrow> budgets \<Rightarrow> 'p option \<times> 'p levels \<times> budgets" where
  "mlq_policy Q B =
     (if list_all (\<lambda>i. Q i = []) [0..<MAX_PRIO] then (None, Q, B)
      else case filter (\<lambda>i. Q i \<noteq> [] \<and> 0 < B i) [0..<MAX_PRIO] of
        k # _ \<Rightarrow> serve k Q B
      | [] \<Rightarrow>
          (if Q (MAX_PRIO - 1) = [] then (None, Q, full_budget)
           else serve (hd (filter (\<lambda>i. Q i \<noteq> []) [1..<MAX_PRIO])) Q full_budget))"

text \<open>The abstraction of a concrete state.\<close>

definition lv :: "sched \<Rightarrow> pcb_t levels" where
  "lv s i = (if i < MAX_PRIO then qlist (mlq s ! i) else [])"

definition bud :: "sched \<Rightarrow> budgets" where
  "bud s i = (if i < MAX_PRIO then q_slot (mlq s ! i) else 0)"

definition sched_ok :: "sched \<Rightarrow> bool" where
  "sched_ok s \<longleftrightarrow>
     length (mlq s) = MAX_PRIO \<and>
     (\<forall>i < MAX_PRIO. queue_ok (mlq s ! i) \<and> q_slot (mlq s ! i) \<le> MAX_PRIO - i) \<and>
     queue_ok (ready_queue s) \<and> q_size (ready_queue s) = 0 \<and>
     queue_ok (run_queue s) \<and> q_size (run_queue s) = 0"

section \<open>Abstraction of the state updates\<close>

lemma sched_ok_length: "sched_ok s \<Longrightarrow> length (mlq s) = MAX_PRIO"
  by (simp add: sched_ok_def)

lemma sched_ok_queue: "sched_ok s \<Longrightarrow> i < MAX_PRIO \<Longrightarrow> queue_ok (mlq s ! i)"
  by (simp add: sched_ok_def)

lemma sched_ok_bud: "sched_ok s \<Longrightarrow> bud s i \<le> full_budget i"
  by (simp add: sched_ok_def bud_def full_budget_def)

lemma lv_Nil_iff: "sched_ok s \<Longrightarrow> i < MAX_PRIO \<Longrightarrow> empty (Some (mlq s ! i)) \<longleftrightarrow> lv s i = []"
  by (simp add: lv_def sched_ok_queue q.is_empty_iff)

lemma queue_ok_slot [simp]: "queue_ok (q\<lparr>q_slot := n\<rparr>) = queue_ok q"
  by (simp add: queue_ok_def)

lemma qlist_slot [simp]: "qlist (q\<lparr>q_slot := n\<rparr>) = qlist q"
  by (simp add: qlist_def)

lemma sched_update:
  assumes "sched_ok s" "i < MAX_PRIO" "queue_ok q'" "q_slot q' \<le> MAX_PRIO - i"
  shows "sched_ok (s\<lparr>mlq := (mlq s)[i := q']\<rparr>)"
    and "lv (s\<lparr>mlq := (mlq s)[i := q']\<rparr>) = (lv s)(i := qlist q')"
    and "bud (s\<lparr>mlq := (mlq s)[i := q']\<rparr>) = (bud s)(i := q_slot q')"
  using assms by (auto simp: sched_ok_def nth_list_update lv_def bud_def fun_eq_iff)

lemma sched_reset:
  assumes "sched_ok s"
  shows "sched_ok (resetSlot s)" and "lv (resetSlot s) = lv s" and "bud (resetSlot s) = full_budget"
proof -
  have "sched.ready_queue (resetSlot s) = ready_queue s" "sched.run_queue (resetSlot s) = run_queue s"
    by (simp_all add: resetSlot_def)
  then show "sched_ok (resetSlot s)" "lv (resetSlot s) = lv s" "bud (resetSlot s) = full_budget"
    using assms by (auto simp: sched_ok_def lv_def bud_def full_budget_def fun_eq_iff)
qed

lemma u32_dec_pos: "0 < n \<Longrightarrow> n \<le> 2 ^ 32 \<Longrightarrow> u32_dec n = n - 1"
  by (cases n) (simp_all add: u32_dec_def)

section \<open>The scan\<close>

lemma get_mlq_loop_serve:
  assumes "sched_ok s" "i \<le> k" "k < MAX_PRIO" "lv s k \<noteq> []" "0 < bud s k"
    and "\<And>j. i \<le> j \<Longrightarrow> j < k \<Longrightarrow> lv s j = [] \<or> bud s j = 0"
  shows "\<exists>s'. get_mlq_loop i s = Inr (Some (hd (lv s k)), s') \<and> sched_ok s' \<and>
    lv s' = (lv s)(k := tl (lv s k)) \<and> bud s' = (bud s)(k := bud s k - 1)"
  using assms(2) assms(6)
proof (induction "k - i" arbitrary: i)
  case 0
  then have [simp]: "i = k" by simp
  let ?q = "mlq s ! k"
  have len: "length (mlq s) = MAX_PRIO" and ok: "queue_ok ?q"
    using assms by (simp_all add: sched_ok_length sched_ok_queue)
  have ne: "\<not> empty (Some ?q)" using assms by (simp add: lv_Nil_iff)
  have slot: "0 < q_slot ?q" "q_slot ?q \<le> MAX_PRIO - k"
    using assms sched_ok_bud [of s k] by (simp_all add: bud_def full_budget_def)
  have q: "qlist ?q = hd (lv s k) # tl (lv s k)"
    using assms by (simp add: lv_def)
  obtain q' where q': "dequeue ?q = Inr (Some (hd (lv s k)), q')" "queue_ok q'"
      "qlist q' = tl (lv s k)" "q_slot q' = q_slot ?q"
    using dequeue_Cons [OF ok q] by blast
  have dec: "u32_dec (q_slot ?q) = q_slot ?q - 1"
    using slot by (intro u32_dec_pos) (simp_all add: MAX_PRIO_def)
  let ?q'' = "q'\<lparr>q_slot := q_slot ?q - 1\<rparr>"
  have "get_mlq_loop i s = Inr (Some (hd (lv s k)), s\<lparr>mlq := (mlq s)[k := ?q'']\<rparr>)"
    using len ne slot q' dec assms(3) by (subst get_mlq_loop.simps) simp
  moreover have "q_slot ?q'' \<le> MAX_PRIO - k" "bud s k = q_slot ?q"
    using slot assms(3) by (simp_all add: bud_def)
  ultimately show ?case
    using sched_update [of s k ?q''] assms(1,3) q' by (simp add: fun_upd_def)
next
  case (Suc n)
  then have lt: "i < k" by simp
  let ?q = "mlq s ! i"
  have "lv s i = [] \<or> bud s i = 0" using Suc.prems lt by simp
  then have "empty (Some ?q) \<or> q_slot ?q = 0"
    using assms(1,3) lt by (auto simp: lv_Nil_iff bud_def)
  then have "get_mlq_loop i s = get_mlq_loop (i + 1) s"
    using lt assms(1,3) by (subst get_mlq_loop.simps) (auto simp: sched_ok_length)
  with Suc.hyps(1) [of "i + 1"] Suc.hyps(2) Suc.prems lt show ?case by simp
qed

lemma get_mlq_loop_miss:
  assumes "sched_ok s" "i < MAX_PRIO"
    and "\<And>j. i \<le> j \<Longrightarrow> j < MAX_PRIO \<Longrightarrow> lv s j = [] \<or> bud s j = 0"
  shows "get_mlq_loop i s =
    (if lv s (MAX_PRIO - 1) = [] then Inr (None, resetSlot s) else get_mlq_loop 1 (resetSlot s))"
  using assms(2,3)
proof (induction "MAX_PRIO - i" arbitrary: i)
  case 0
  then show ?case by simp
next
  case (Suc n)
  let ?q = "mlq s ! i"
  have len: "length (mlq s) = MAX_PRIO" using assms by (simp add: sched_ok_length)
  have i: "lv s i = [] \<or> bud s i = 0" using Suc.prems by simp
  have e: "empty (Some ?q) \<longleftrightarrow> lv s i = []" using assms Suc.prems by (simp add: lv_Nil_iff)
  have b: "bud s i = q_slot ?q" using Suc.prems by (simp add: bud_def)
  show ?case
  proof (cases "i = MAX_PRIO - 1")
    case True
    have "get_mlq_loop (i + 1) (resetSlot s) = Inr (None, resetSlot s)"
      using True by (subst get_mlq_loop.simps) (simp add: MAX_PRIO_def)
    then show ?thesis
      using True len i e b Suc.prems(1) by (subst get_mlq_loop.simps) auto
  next
    case False
    then have "get_mlq_loop i s = get_mlq_loop (i + 1) s"
      using len i e b Suc.prems(1) by (subst get_mlq_loop.simps) auto
    moreover have "i + 1 < MAX_PRIO" using False Suc.prems by simp
    ultimately show ?thesis
      using Suc.hyps(1) [of "i + 1"] Suc.hyps(2) Suc.prems by simp
  qed
qed

section \<open>Refinement of the policy\<close>

lemma queue_empty_iff:
  assumes "sched_ok s"
  shows "queue_empty s \<longleftrightarrow> (\<forall>i < MAX_PRIO. lv s i = [])"
proof -
  have "list_ex (\<lambda>q. \<not> empty (Some q)) (mlq s) \<longleftrightarrow> (\<exists>i < MAX_PRIO. lv s i \<noteq> [])"
    using lv_Nil_iff [OF assms] by (auto simp: list_ex_length sched_ok_length [OF assms])
  moreover have "empty (Some (ready_queue s))" "empty (Some (run_queue s))"
    using assms by (simp_all add: sched_ok_def empty_def)
  ultimately show ?thesis by (auto simp: queue_empty_def)
qed

lemma full_budget_pos: "i < MAX_PRIO \<Longrightarrow> 0 < full_budget i"
  by (simp add: full_budget_def)

lemma get_mlq_loop_after_reset:
  assumes ok: "sched_ok s" and last: "lv s (MAX_PRIO - 1) \<noteq> []"
  shows "\<exists>s' k. get_mlq_loop 1 (resetSlot s) = Inr (Some (hd (lv s k)), s') \<and> sched_ok s' \<and>
    filter (\<lambda>i. lv s i \<noteq> []) [1..<MAX_PRIO] \<noteq> [] \<and>
    k = hd (filter (\<lambda>i. lv s i \<noteq> []) [1..<MAX_PRIO]) \<and>
    lv s' = (lv s)(k := tl (lv s k)) \<and> bud s' = full_budget(k := full_budget k - 1)"
proof -
  have "filter (\<lambda>i. lv s i \<noteq> []) [1..<MAX_PRIO] \<noteq> []"
    unfolding filter_upt_Nil using last
    by (auto simp: MAX_PRIO_def intro!: exI [of _ "139 :: nat"])
  then obtain k r where f: "filter (\<lambda>i. lv s i \<noteq> []) [1..<MAX_PRIO] = k # r"
    by (auto simp: neq_Nil_conv)
  note k = filter_upt_Cons [OF f]
  show ?thesis
    using get_mlq_loop_serve [of "resetSlot s" 1 k] sched_reset [OF ok] k full_budget_pos [OF k(2)] f
    by auto
qed

lemma get_mlq_proc_policy:
  assumes ok: "sched_ok s"
  shows "\<exists>p s'. get_mlq_proc s = Inr (p, s') \<and> sched_ok s' \<and>
    (p, lv s', bud s') = mlq_policy (lv s) (bud s)"
proof (cases "queue_empty s")
  case True
  then show ?thesis
    using ok by (auto simp: get_mlq_proc_def mlq_policy_def queue_empty_iff list_all_iff)
next
  case False
  then have start: "get_mlq_proc s = get_mlq_loop 0 s"
    and ne: "\<not> list_all (\<lambda>i. lv s i = []) [0..<MAX_PRIO]"
    using ok by (auto simp: get_mlq_proc_def queue_empty_iff list_all_iff)
  let ?el = "filter (\<lambda>i. lv s i \<noteq> [] \<and> 0 < bud s i) [0..<MAX_PRIO]"
  show ?thesis
  proof (cases ?el)
    case (Cons k r)
    note k = filter_upt_Cons [OF Cons]
    then show ?thesis
      using get_mlq_loop_serve [OF ok, of 0 k] start ne Cons
      by (auto simp: mlq_policy_def serve_def)
  next
    case Nil
    then have "get_mlq_loop 0 s =
        (if lv s (MAX_PRIO - 1) = [] then Inr (None, resetSlot s) else get_mlq_loop 1 (resetSlot s))"
      unfolding filter_upt_Nil by (intro get_mlq_loop_miss [OF ok]) (auto simp: MAX_PRIO_def)
    then show ?thesis
      using start ne Nil sched_reset [OF ok] get_mlq_loop_after_reset [OF ok]
      by (auto simp: mlq_policy_def serve_def)
  qed
qed

section \<open>Putting a process into its queue\<close>

lemma put_mlq_proc_room:
  assumes "sched_ok s" "nat (prio p) < MAX_PRIO" "length (lv s (nat (prio p))) < MAX_QUEUE_SIZE"
  shows "\<exists>s'. put_mlq_proc s p = Inr s' \<and> sched_ok s' \<and>
    lv s' = (lv s)(nat (prio p) := lv s (nat (prio p)) @ [p]) \<and> bud s' = bud s"
proof -
  let ?i = "nat (prio p)"
  have i: "?i < MAX_PRIO" "?i < length (mlq s)"
    using assms by (auto simp: sched_ok_length)
  have qi: "lv s ?i = qlist (mlq s ! ?i)" using i by (simp add: lv_def)
  obtain q' where q': "enqueue (mlq s ! ?i) p = Inr q'" "queue_ok q'"
      "qlist q' = lv s ?i @ [p]" "q_slot q' = q_slot (mlq s ! ?i)"
    using enqueue_room [of "mlq s ! ?i" p] assms i qi by (auto simp: sched_ok_queue)
  have "q_slot q' \<le> MAX_PRIO - ?i" "bud s = (bud s)(?i := q_slot q')"
    using sched_ok_bud [OF assms(1), of ?i] i q' by (auto simp: bud_def full_budget_def)
  then show ?thesis
    using sched_update [OF assms(1) i(1) q'(2)] q' i by (auto simp: put_mlq_proc_def)
qed

lemma put_mlq_proc_full:
  assumes "sched_ok s" "nat (prio p) < MAX_PRIO" "length (lv s (nat (prio p))) = MAX_QUEUE_SIZE"
  shows "put_mlq_proc s p = Inl OutOfBounds"
proof -
  let ?i = "nat (prio p)"
  have "?i < MAX_PRIO" "?i < length (mlq s)"
    using assms by (auto simp: sched_ok_length)
  then show ?thesis
    using assms q.enq_full [of "mlq s ! ?i" p]
    by (auto simp: put_mlq_proc_def lv_def sched_ok_queue)
qed

lemma put_mlq_proc_bad_prio:
  "sched_ok s \<Longrightarrow> MAX_PRIO \<le> nat (prio p) \<Longrightarrow> put_mlq_proc s p = Inl OutOfBounds"
  by (auto simp: put_mlq_proc_def arr_get_def sched_ok_length)

lemma add_eq_put: "add_mlq_proc s p = put_mlq_proc s p"
  by (simp add: add_mlq_proc_def put_mlq_proc_def)

section \<open>The ready queue as an interface\<close>

text \<open>
  What the CPU and loader threads rely on: a pool that neither loses nor duplicates a
  process. A history is a sequence of calls, in the order in which they take the lock.
\<close>

datatype 'p pool_ev = Get | Put 'p

primrec pool_run ::
  "('s \<Rightarrow> ('p option \<times> 's) res) \<Rightarrow> ('s \<Rightarrow> 'p \<Rightarrow> 's res) \<Rightarrow> 'p pool_ev list \<Rightarrow> 's \<Rightarrow>
   ('p option list \<times> 's) res" where
  "pool_run get put [] s = Inr ([], s)"
| "pool_run get put (e # es) s =
     (case e of
        Get \<Rightarrow> rbind (get s) (\<lambda>(p, s1). rbind (pool_run get put es s1) (\<lambda>(ps, s2). Inr (p # ps, s2)))
      | Put p \<Rightarrow> rbind (put s p) (\<lambda>s1. pool_run get put es s1))"

primrec puts_of :: "'p pool_ev list \<Rightarrow> 'p multiset" where
  "puts_of [] = {#}"
| "puts_of (e # es) = (case e of Get \<Rightarrow> puts_of es | Put p \<Rightarrow> add_mset p (puts_of es))"

definition opt_mset :: "'p option \<Rightarrow> 'p multiset" where
  "opt_mset p = (case p of None \<Rightarrow> {#} | Some x \<Rightarrow> {#x#})"

primrec got :: "'p option list \<Rightarrow> 'p multiset" where
  "got [] = {#}"
| "got (p # ps) = opt_mset p + got ps"

locale ready_pool =
  fixes get :: "'s \<Rightarrow> ('p option \<times> 's) res"
    and put :: "'s \<Rightarrow> 'p \<Rightarrow> 's res"
    and pool :: "'s \<Rightarrow> 'p multiset"
    and inv :: "'s \<Rightarrow> bool"
  assumes get_total: "inv s \<Longrightarrow> \<exists>p s'. get s = Inr (p, s') \<and> inv s' \<and> pool s = opt_mset p + pool s'"
    and get_none: "inv s \<Longrightarrow> pool s = {#} \<Longrightarrow> get s = Inr (None, s)"
    and put_keeps: "inv s \<Longrightarrow> put s p = Inr s' \<Longrightarrow> inv s' \<and> pool s' = add_mset p (pool s)"
begin

lemma get_keeps:
  assumes "inv s" "get s = Inr (p, s')"
  shows "inv s'" "pool s = opt_mset p + pool s'"
  using get_total [OF assms(1)] assms(2) by auto

lemma run_conserves:
  "inv s \<Longrightarrow> pool_run get put es s = Inr (outs, s') \<Longrightarrow>
     inv s' \<and> pool s + puts_of es = got outs + pool s'"
proof (induction es arbitrary: s outs)
  case (Cons e es)
  show ?case
  proof (cases e)
    case Get
    with Cons.prems obtain p s1 ps where g: "get s = Inr (p, s1)"
        "pool_run get put es s1 = Inr (ps, s')" "outs = p # ps"
      by (auto simp: rbind_eq_Inr)
    with Cons.IH [of s1 ps] get_keeps [OF Cons.prems(1) g(1)] Get show ?thesis
      by (simp add: ac_simps)
  next
    case (Put p)
    with Cons.prems obtain s1 where g: "put s p = Inr s1" "pool_run get put es s1 = Inr (outs, s')"
      by (auto simp: rbind_eq_Inr)
    with Cons.IH [of s1 outs] put_keeps [OF Cons.prems(1) g(1)] Put show ?thesis
      by simp
  qed
qed simp

end

text \<open>
  A pool with a waiting discipline: \<open>waiting s p\<close> says that \<open>p\<close> is next in its line, and
  every call to \<open>get\<close> that does not return it brings it closer by \<open>rank\<close>.
\<close>

locale bounded_wait = ready_pool +
  fixes waiting :: "'a \<Rightarrow> 'b \<Rightarrow> bool"
    and rank :: "'a \<Rightarrow> nat"
  assumes get_progress: "inv s \<Longrightarrow> waiting s p \<Longrightarrow> get s = Inr (x, s') \<Longrightarrow>
      x = Some p \<or> waiting s' p \<and> rank s' < rank s"
    and put_waits: "inv s \<Longrightarrow> waiting s p \<Longrightarrow> put s r = Inr s' \<Longrightarrow>
      waiting s' p \<and> rank s' = rank s"
begin

lemma served_within_rank:
  "inv s \<Longrightarrow> waiting s p \<Longrightarrow> pool_run get put es s = Inr (outs, s') \<Longrightarrow> rank s < length outs \<Longrightarrow>
     Some p \<in> set (take (rank s + 1) outs)"
proof (induction es arbitrary: s outs)
  case (Cons e es)
  show ?case
  proof (cases e)
    case Get
    with Cons.prems obtain x s1 xs where g: "get s = Inr (x, s1)"
        "pool_run get put es s1 = Inr (xs, s')" "outs = x # xs"
      by (auto simp: rbind_eq_Inr)
    show ?thesis
    proof (cases "x = Some p")
      case False
      then have w: "waiting s1 p" "rank s1 < rank s"
        using get_progress [OF Cons.prems(1,2) g(1)] by auto
      then have "Some p \<in> set (take (rank s1 + 1) xs)"
        using Cons.IH [of s1 xs] get_keeps [OF Cons.prems(1) g(1)] g Cons.prems(4) by simp
      moreover have "rank s1 + 1 \<le> rank s" using w by simp
      ultimately have "Some p \<in> set (take (rank s) xs)"
        using set_take_subset_set_take [of "rank s1 + 1" "rank s" xs] by auto
      then show ?thesis using g by simp
    qed (use g in simp)
  next
    case (Put r)
    with Cons.prems obtain s1 where g: "put s r = Inr s1" "pool_run get put es s1 = Inr (outs, s')"
      by (auto simp: rbind_eq_Inr)
    with Cons.IH [of s1 outs] Cons.prems put_keeps [OF Cons.prems(1) g(1)]
      put_waits [OF Cons.prems(1,2) g(1)]
    show ?thesis by simp
  qed
qed simp

end

section \<open>The scheduler satisfies the interface\<close>

lemma mlq_policy_cases:
  assumes "(p, Q', B') = mlq_policy Q B"
  obtains (idle) "\<forall>i < MAX_PRIO. Q i = []" "p = None" "Q' = Q" "B' = B"
  | (serve) k where "k < MAX_PRIO" "Q k \<noteq> []" "0 < B k" "\<forall>j < k. Q j = [] \<or> B j = 0"
      "p = Some (hd (Q k))" "Q' = Q(k := tl (Q k))" "B' = B(k := B k - 1)"
  | (skip) "\<forall>j < MAX_PRIO. Q j = [] \<or> B j = 0" "p = None" "Q' = Q" "B' = full_budget"
  | (reset) k where "1 \<le> k" "k < MAX_PRIO" "Q k \<noteq> []" "\<forall>j < MAX_PRIO. Q j = [] \<or> B j = 0"
      "\<forall>j. 1 \<le> j \<and> j < k \<longrightarrow> Q j = []" "p = Some (hd (Q k))" "Q' = Q(k := tl (Q k))"
      "B' = full_budget(k := full_budget k - 1)"
proof (cases "list_all (\<lambda>i. Q i = []) [0..<MAX_PRIO]")
  case True
  then show ?thesis using assms by (intro idle) (auto simp: mlq_policy_def list_all_iff)
next
  case ne: False
  let ?el = "filter (\<lambda>i. Q i \<noteq> [] \<and> 0 < B i) [0..<MAX_PRIO]"
  let ?w = "filter (\<lambda>i. Q i \<noteq> []) [1..<MAX_PRIO]"
  show ?thesis
  proof (cases ?el)
    case (Cons k r)
    with filter_upt_Cons [OF Cons] show ?thesis
      using ne assms by (intro serve [of k]) (auto simp: mlq_policy_def serve_def)
  next
    case Nil
    then have none: "\<forall>j < MAX_PRIO. Q j = [] \<or> B j = 0" by (auto simp: filter_upt_Nil)
    show ?thesis
    proof (cases "Q (MAX_PRIO - 1) = []")
      case True
      then show ?thesis using Nil none ne assms by (intro skip) (auto simp: mlq_policy_def)
    next
      case False
      then have "?w \<noteq> []"
        unfolding filter_upt_Nil by (auto simp: MAX_PRIO_def intro!: exI [of _ "139 :: nat"])
      then obtain k r where w: "?w = k # r" by (auto simp: neq_Nil_conv)
      with filter_upt_Cons [OF w] show ?thesis
        using Nil none False ne assms
        by (intro reset [of k]) (auto simp: mlq_policy_def serve_def)
    qed
  qed
qed

lemma mlq_policy_none:
  assumes "\<not> list_all (\<lambda>i. Q i = []) [0..<MAX_PRIO]"
  shows "fst (mlq_policy Q B) = None \<longleftrightarrow> (\<forall>i < MAX_PRIO. Q i \<noteq> [] \<longrightarrow> B i = 0) \<and> Q (MAX_PRIO - 1) = []"
proof (cases "filter (\<lambda>i. Q i \<noteq> [] \<and> 0 < B i) [0..<MAX_PRIO]")
  case Nil
  then show ?thesis using assms by (auto simp: mlq_policy_def serve_def filter_upt_Nil)
next
  case (Cons k r)
  with filter_upt_Cons [OF Cons] show ?thesis using assms by (auto simp: mlq_policy_def serve_def)
qed

lemma mlq_policy_none_keeps:
  "\<not> list_all (\<lambda>i. Q i = []) [0..<MAX_PRIO] \<Longrightarrow> mlq_policy Q B = (None, Q', B') \<Longrightarrow> Q' = Q \<and> B' = full_budget"
  by (auto simp: mlq_policy_def serve_def split: list.splits if_splits)

definition level_mset :: "'p levels \<Rightarrow> 'p multiset" where
  "level_mset Q = (\<Sum>i < MAX_PRIO. mset (Q i))"

definition queued :: "sched \<Rightarrow> pcb_t multiset" where
  "queued s = level_mset (lv s)"

lemma level_mset_upd:
  assumes "k < MAX_PRIO"
  shows "level_mset (Q(k := xs)) + mset (Q k) = level_mset Q + mset xs"
proof -
  let ?r = "\<Sum>i \<in> {..<MAX_PRIO} - {k}. mset (Q i)"
  have "level_mset (Q(k := xs)) = mset xs + ?r" "level_mset Q = mset (Q k) + ?r"
    using assms unfolding level_mset_def by (subst sum.remove [of _ k]; auto)+
  then show ?thesis by simp
qed

lemma level_mset_serve:
  assumes "k < MAX_PRIO" "Q k \<noteq> []"
  shows "level_mset Q = {#hd (Q k)#} + level_mset (Q(k := tl (Q k)))"
proof -
  have "mset (Q k) = add_mset (hd (Q k)) (mset (tl (Q k)))"
    using assms(2) by (cases "Q k") simp_all
  then show ?thesis
    using level_mset_upd [OF assms(1), of Q "tl (Q k)"] by simp
qed

lemma level_mset_empty: "level_mset Q = {#} \<longleftrightarrow> (\<forall>i < MAX_PRIO. Q i = [])"
proof -
  have "set_mset (level_mset Q) = (\<Union>i < MAX_PRIO. set (Q i))"
    unfolding level_mset_def by (subst set_mset_sum) auto
  then show ?thesis by (auto simp flip: set_mset_eq_empty_iff)
qed

definition head_at :: "nat \<Rightarrow> sched \<Rightarrow> pcb_t \<Rightarrow> bool" where
  "head_at k s p \<longleftrightarrow> k < MAX_PRIO \<and> lv s k \<noteq> [] \<and> hd (lv s k) = p"

definition wait_bound :: "nat \<Rightarrow> sched \<Rightarrow> nat" where
  "wait_bound k s =
     (if 0 < bud s k then \<Sum>i < k. bud s i
      else (\<Sum>i < MAX_PRIO. bud s i) + 1 + (\<Sum>i < k. full_budget i))"

lemma get_proc_policy:
  assumes "sched_ok s" "get_proc s = Inr (p, s')"
  shows "sched_ok s'" "(p, lv s', bud s') = mlq_policy (lv s) (bud s)"
  using get_mlq_proc_policy [OF assms(1)] assms(2) by (auto simp: get_proc_def)

lemma put_proc_Inr:
  assumes "sched_ok s" "put_proc s p = Inr s'"
  shows "sched_ok s'" "bud s' = bud s" "nat (prio p) < MAX_PRIO"
    "lv s' = (lv s)(nat (prio p) := lv s (nat (prio p)) @ [p])"
proof -
  let ?i = "nat (prio p)"
  have i: "?i < MAX_PRIO"
    using assms put_mlq_proc_bad_prio [of s p] by (force simp: put_proc_def)
  have "length (lv s ?i) < MAX_QUEUE_SIZE"
    using q.elems_cap [OF sched_ok_queue [OF assms(1) i]] put_mlq_proc_full [OF assms(1) i] assms(2) i
    by (auto simp: lv_def put_proc_def order_le_less)
  then show "sched_ok s'" "bud s' = bud s" "?i < MAX_PRIO"
      "lv s' = (lv s)(?i := lv s ?i @ [p])"
    using put_mlq_proc_room [OF assms(1) i] assms(2) i by (auto simp: put_proc_def)
qed

lemma queued_put:
  assumes "sched_ok s" "put_proc s p = Inr s'"
  shows "queued s' = add_mset p (queued s)"
  using put_proc_Inr [OF assms] level_mset_upd [of "nat (prio p)" "lv s" "lv s (nat (prio p)) @ [p]"]
  by (simp add: queued_def)

lemma queued_get:
  assumes "sched_ok s" "get_proc s = Inr (p, s')"
  shows "queued s = opt_mset p + queued s'"
  using get_proc_policy(2) [OF assms]
  by (cases rule: mlq_policy_cases) (simp_all add: queued_def opt_mset_def level_mset_serve)

lemma sum_lessThan_upd_dec:
  fixes B :: budgets
  assumes "j < n" "0 < B j"
  shows "sum (B(j := B j - 1)) {..<n} < sum B {..<n}"
  using assms by (intro sum_strict_mono_ex1) auto

lemma wait_bound_get:
  assumes ok: "sched_ok s" and h: "head_at k s p" and g: "get_proc s = Inr (x, s')"
  shows "x = Some p \<or> head_at k s' p \<and> wait_bound k s' < wait_bound k s"
  using get_proc_policy(2) [OF ok g]
proof (cases rule: mlq_policy_cases)
  case idle
  then show ?thesis using h by (auto simp: head_at_def)
next
  case (serve j)
  have "k = j \<or> j < k \<or> k < j \<and> bud s k = 0"
    using serve(4) h by (cases k j rule: linorder_cases) (auto simp: head_at_def)
  then show ?thesis
    using serve h sum_lessThan_upd_dec [of j k "bud s"] sum_lessThan_upd_dec [of j MAX_PRIO "bud s"]
    by (auto simp: head_at_def wait_bound_def)
next
  case skip
  then show ?thesis
    using h by (auto simp: head_at_def wait_bound_def full_budget_def)
next
  case (reset j)
  have "k = j \<or> j < k \<or> k = 0"
    using reset(5) [rule_format, of k] h by (fastforce simp: head_at_def)
  moreover have "bud s k = 0" using reset h by (auto simp: head_at_def)
  moreover have "0 < full_budget k" "0 < full_budget j"
    using reset h by (auto simp: head_at_def full_budget_pos)
  ultimately show ?thesis
    using reset h sum_lessThan_upd_dec [of j k full_budget]
    by (auto simp: head_at_def wait_bound_def)
qed

lemma wait_bound_put:
  assumes "sched_ok s" "head_at k s p" "put_proc s r = Inr s'"
  shows "head_at k s' p \<and> wait_bound k s' = wait_bound k s"
  using put_proc_Inr [OF assms(1,3)] assms(2) by (auto simp: head_at_def wait_bound_def)

interpretation pool: ready_pool get_proc put_proc queued sched_ok
proof unfold_locales
  fix s assume ok: "sched_ok s"
  then obtain p s' where "get_proc s = Inr (p, s')"
    using get_mlq_proc_policy [OF ok] by (auto simp: get_proc_def)
  then show "\<exists>p s'. get_proc s = Inr (p, s') \<and> sched_ok s' \<and> queued s = opt_mset p + queued s'"
    using get_proc_policy(1) [OF ok] queued_get [OF ok] by blast
next
  fix s assume "sched_ok s" "queued s = {#}"
  then show "get_proc s = Inr (None, s)"
    by (simp add: get_proc_def get_mlq_proc_def queue_empty_iff queued_def level_mset_empty)
qed (simp add: put_proc_Inr queued_put)

interpretation wait: bounded_wait get_proc put_proc queued sched_ok "head_at k" "wait_bound k" for k
  by unfold_locales (use wait_bound_get wait_bound_put in blast)+

section \<open>The initial scheduler\<close>

lemma init_queue:
  "i < MAX_PRIO \<Longrightarrow> mlq (init_scheduler static_sched) ! i = static_queue\<lparr>q_slot := MAX_PRIO - i\<rparr>"
  by (simp add: init_scheduler_def static_sched_def nth_enumerate_eq static_queue_def)

lemma init_sched_ok: "sched_ok (init_scheduler static_sched)"
proof -
  have "length (mlq (init_scheduler static_sched)) = MAX_PRIO"
    by (simp add: init_scheduler_def static_sched_def)
  moreover have "queue_ok (static_queue :: pcb_t queue_t)" by (simp add: static_queue_def queue_ok_def)
  ultimately show ?thesis
    by (simp add: sched_ok_def init_queue) (simp add: init_scheduler_def static_sched_def static_queue_def queue_ok_def)
qed

lemma init_lv [simp]: "lv (init_scheduler static_sched) k = []"
  by (simp add: lv_def init_queue qlist_def static_queue_def)

lemma init_bud [simp]: "bud (init_scheduler static_sched) = full_budget"
  by (simp add: fun_eq_iff bud_def full_budget_def init_queue)

text \<open>A process that only computes, at priority \<open>k\<close>.\<close>

definition sample_pcb :: "int \<Rightarrow> int \<Rightarrow> pcb_t" where
  "sample_pcb i k =
     \<lparr>pid = i, priority = k,
      code = \<lparr>code_text = [\<lparr>opcode = CALC, arg_0 = 0, arg_1 = 0, arg_2 = 0\<rparr>], code_size = 1\<rparr>,
      regs = replicate 10 0, pc = 0, prio = k, p_mm = None,
      page_table = \<lparr>pt_table = [], pt_size = 0\<rparr>, bp = PAGE_SIZE\<rparr>"

lemma prio_sample [simp]: "prio (sample_pcb i k) = k"
  by (simp add: sample_pcb_def)

text \<open>The scheduler after one process was added.\<close>

lemma init_put:
  assumes "nat (prio p) < MAX_PRIO"
  obtains s where "put_proc (init_scheduler static_sched) p = Inr s" "sched_ok s"
    "lv s = (\<lambda>_. [])(nat (prio p) := [p])" "bud s = full_budget"
  using put_mlq_proc_room [OF init_sched_ok assms] that
  by (auto simp: put_proc_def MAX_QUEUE_SIZE_def fun_upd_def cong: if_cong)

text \<open>A process of the highest priority, put alone, is returned by the next \<open>get_proc\<close>.\<close>

lemma put_get_alone:
  assumes ok: "sched_ok s" and q: "queued s = {#}" and b: "0 < bud s 0" and p: "prio p = 0"
  obtains s1 s2 where "put_proc s p = Inr s1" "get_proc s1 = Inr (Some p, s2)" "sched_ok s2" "queued s2 = {#}"
    "bud s2 0 = bud s 0 - 1"
proof -
  have l: "lv s i = []" if "i < MAX_PRIO" for i using q that by (simp add: queued_def level_mset_empty)
  have z: "nat (prio p) = 0" "0 < MAX_PRIO" using p by (simp_all add: MAX_PRIO_def)
  obtain s1 where s1: "put_proc s p = Inr s1" "sched_ok s1" "lv s1 = (lv s)(0 := [p])" "bud s1 = bud s"
    using put_mlq_proc_room [OF ok, of p] z l by (auto simp: put_proc_def MAX_QUEUE_SIZE_def)
  obtain x s2 where g: "get_proc s1 = Inr (x, s2)" using pool.get_total [OF s1(2)] by blast
  have x: "x = Some p" "bud s2 0 = bud s 0 - 1"
    using get_proc_policy(2) [OF s1(2) g] s1(3,4) b z(2) by (cases rule: mlq_policy_cases; fastforce)+
  have "queued s1 = {#p#}" using queued_put [OF ok s1(1)] q by simp
  then have "queued s2 = {#}" using queued_get [OF s1(2) g] x by (simp add: opt_mset_def)
  then show thesis using that [OF s1(1) g [unfolded x(1)]] x(2) get_proc_policy(1) [OF s1(2) g] by simp
qed

section \<open>Properties\<close>

text \<open>
  C1: \<open>get_mlq_proc\<close> implements the multi-level policy: from every well-formed state it
  returns, keeps the state well formed, and its result, the queues and the budgets are
  those of the abstract policy.
\<close>

theorem scheduler_refines_policy:
  assumes "sched_ok s"
  shows "\<exists>p s'. get_mlq_proc s = Inr (p, s') \<and> sched_ok s' \<and> (p, lv s', bud s') = mlq_policy (lv s) (bud s)"
  by (rule get_mlq_proc_policy [OF assms])

theorem scheduler_refines_policy_witness:
  "\<exists>p s'. get_mlq_proc (init_scheduler static_sched) = Inr (p, s') \<and> sched_ok s' \<and>
    (p, lv s', bud s') = mlq_policy (\<lambda>_. []) full_budget"
  using scheduler_refines_policy [OF init_sched_ok] by (simp add: init_lv [abs_def])

text \<open>
  No process is lost or duplicated: for every sequence of \<open>get_proc\<close> and \<open>put_proc\<close>
  calls, the processes queued before plus the ones put are the ones handed out plus the
  ones queued after.
\<close>

lemma scheduler_conserves:
  assumes "sched_ok s" "pool_run get_proc put_proc es s = Inr (outs, s')"
  shows "sched_ok s' \<and> queued s + puts_of es = got outs + queued s'"
  by (rule pool.run_conserves [OF assms])

lemma scheduler_conserves_witness:
  "\<exists>outs s'. pool_run get_proc put_proc [Put (sample_pcb 1 3), Get] (init_scheduler static_sched) = Inr (outs, s') \<and>
    queued (init_scheduler static_sched) + {#sample_pcb 1 3#} = got outs + queued s'"
proof -
  obtain s where s: "put_proc (init_scheduler static_sched) (sample_pcb 1 3) = Inr s" "sched_ok s"
    using init_put [of "sample_pcb 1 3"] by (auto simp: MAX_PRIO_def)
  obtain p s' where g: "get_proc s = Inr (p, s')" using pool.get_total [OF s(2)] by blast
  have run: "pool_run get_proc put_proc [Put (sample_pcb 1 3), Get] (init_scheduler static_sched) = Inr ([p], s')"
    using s(1) g by simp
  show ?thesis using scheduler_conserves [OF init_sched_ok run] run by auto
qed

text \<open>
  C24: no starvation: at most \<open>wait_bound\<close> calls of \<open>get_proc\<close> come before the one that returns a
  process at the head of its queue, whatever is put in between.
\<close>

theorem head_is_served:
  assumes "sched_ok s" "head_at k s p" "pool_run get_proc put_proc es s = Inr (outs, s')"
    "wait_bound k s < length outs"
  shows "Some p \<in> set (take (wait_bound k s + 1) outs)"
  by (rule wait.served_within_rank [OF assms])

theorem head_is_served_witness:
  "\<exists>s outs s'. put_proc (init_scheduler static_sched) (sample_pcb 1 0) = Inr s \<and>
    pool_run get_proc put_proc [Get] s = Inr (outs, s') \<and> Some (sample_pcb 1 0) \<in> set (take 1 outs)"
proof -
  obtain s where s: "put_proc (init_scheduler static_sched) (sample_pcb 1 0) = Inr s" "sched_ok s"
      "lv s = (\<lambda>_. [])(0 := [sample_pcb 1 0])" "bud s = full_budget"
    using init_put [of "sample_pcb 1 0"] by (auto simp: MAX_PRIO_def)
  obtain p s' where g: "get_proc s = Inr (p, s')" using pool.get_total [OF s(2)] by blast
  have "head_at 0 s (sample_pcb 1 0)" "wait_bound 0 s = 0"
    using s(3,4) by (simp_all add: head_at_def wait_bound_def full_budget_def MAX_PRIO_def)
  then have "Some (sample_pcb 1 0) \<in> set (take (wait_bound 0 s + 1) [p])"
    using g by (intro head_is_served [OF s(2), of 0 _ "[Get]" _ s']) auto
  then show ?thesis using s(1) g \<open>wait_bound 0 s = 0\<close> by auto
qed

text \<open>
  C36: \<open>put_proc\<close> and \<open>add_proc\<close> append the process to the queue of its priority when the
  priority is below 140 and the queue has room; in every other case they write outside an
  array, since neither is checked.
\<close>

theorem put_proc_outcome:
  assumes "sched_ok s"
  shows "add_proc s p = put_proc s p \<and>
    (if nat (prio p) < MAX_PRIO \<and> length (lv s (nat (prio p))) < MAX_QUEUE_SIZE
     then \<exists>s'. put_proc s p = Inr s' \<and> sched_ok s' \<and> bud s' = bud s \<and>
       lv s' = (lv s)(nat (prio p) := lv s (nat (prio p)) @ [p])
     else put_proc s p = Inl OutOfBounds)"
proof -
  have cap: "length (lv s (nat (prio p))) \<le> MAX_QUEUE_SIZE"
    using q.elems_cap [OF sched_ok_queue [OF assms]] by (simp add: lv_def)
  consider "MAX_PRIO \<le> nat (prio p)"
    | "nat (prio p) < MAX_PRIO" "length (lv s (nat (prio p))) = MAX_QUEUE_SIZE"
    | "nat (prio p) < MAX_PRIO" "length (lv s (nat (prio p))) < MAX_QUEUE_SIZE" using cap by linarith
  then show ?thesis
    using put_mlq_proc_room [OF assms, of p] put_mlq_proc_full [OF assms, of p] put_mlq_proc_bad_prio [OF assms, of p]
    by cases (auto simp: put_proc_def add_proc_def add_eq_put)
qed

theorem put_proc_outcome_witness:
  "put_proc (init_scheduler static_sched) (sample_pcb 1 140) = Inl OutOfBounds"
  using put_proc_outcome [OF init_sched_ok, of "sample_pcb 1 140"] by (simp add: MAX_PRIO_def)

text \<open>
  C37: while processes wait, a call returns none exactly when every waiting priority has spent
  its budget and the least urgent queue is empty: it only restores the budgets then. The call
  after it returns a process, so that no CPU idles for more than one slot while some wait.
\<close>

theorem idle_while_waiting:
  assumes "sched_ok s" and "queued s \<noteq> {#}" and "get_proc s = Inr (p, s')"
  shows "(p = None \<longleftrightarrow> (\<forall>i < MAX_PRIO. lv s i \<noteq> [] \<longrightarrow> bud s i = 0) \<and> lv s (MAX_PRIO - 1) = []) \<and>
    (p = None \<longrightarrow> queued s' = queued s \<and> bud s' = full_budget \<and> (\<exists>q s''. get_proc s' = Inr (Some q, s'')))"
proof -
  have g: "sched_ok s'" "(p, lv s', bud s') = mlq_policy (lv s) (bud s)" by (rule get_proc_policy [OF assms(1,3)])+
  have w: "\<not> list_all (\<lambda>i. lv s i = []) [0..<MAX_PRIO]"
    using assms(2) by (auto simp: queued_def level_mset_empty list_all_iff)
  have none: "p = None \<longleftrightarrow> (\<forall>i < MAX_PRIO. lv s i \<noteq> [] \<longrightarrow> bud s i = 0) \<and> lv s (MAX_PRIO - 1) = []"
    using mlq_policy_none [OF w] g(2) by (metis fst_conv)
  show ?thesis
  proof (cases "p = None")
    case True
    then have s': "lv s' = lv s" "bud s' = full_budget"
      using mlq_policy_none_keeps [OF w, of "bud s" "lv s'" "bud s'"] g(2) by simp_all
    obtain i where i: "i < MAX_PRIO" "lv s i \<noteq> []" using w by (auto simp: list_all_iff)
    then have "\<not> (lv s i \<noteq> [] \<longrightarrow> full_budget i = 0)" using full_budget_pos [OF i(1)] by simp
    then have n: "fst (mlq_policy (lv s') (bud s')) \<noteq> None"
      unfolding s' mlq_policy_none [OF w] using i(1) by blast
    obtain q s'' where q: "get_proc s' = Inr (q, s'')" using pool.get_total [OF g(1)] by blast
    then have "q \<noteq> None" using n get_proc_policy(2) [OF g(1) q] by (metis fst_conv)
    then have "\<exists>q s''. get_proc s' = Inr (Some q, s'')" using q by auto
    then show ?thesis using none True s' by (auto simp: queued_def)
  qed (use none in blast)
qed

theorem idle_while_waiting_witness:
  "\<exists>s s'. sched_ok s \<and> queued s = {#sample_pcb 1 5#} \<and> get_proc s = Inr (None, s') \<and> queued s' = queued s \<and>
     (\<exists>q s''. get_proc s' = Inr (Some q, s''))"
proof -
  let ?q = "\<lparr>q_proc = Some (sample_pcb 1 5) # replicate 9 None, q_size = 1, q_slot = 0\<rparr>"
  let ?i = "init_scheduler static_sched"
  let ?s = "?i\<lparr>mlq := (mlq ?i)[5 := ?q]\<rparr>"
  have "queue_ok ?q" "qlist ?q = [sample_pcb 1 5]" by (simp_all add: queue_ok_def qlist_def MAX_QUEUE_SIZE_def)
  then have s: "sched_ok ?s" "lv ?s = (\<lambda>_. [])(5 := [sample_pcb 1 5])" "bud ?s = full_budget(5 := 0)"
    using sched_update [OF init_sched_ok, of 5 ?q] by (simp_all add: MAX_PRIO_def init_lv [abs_def])
  then have q: "queued ?s = {#sample_pcb 1 5#}"
    using level_mset_upd [of 5 "\<lambda>_. []" "[sample_pcb 1 5]"]
    by (simp add: queued_def MAX_PRIO_def level_mset_empty [THEN iffD2])
  have "\<forall>i < MAX_PRIO. lv ?s i \<noteq> [] \<longrightarrow> bud ?s i = 0" "lv ?s (MAX_PRIO - 1) = []" "queued ?s \<noteq> {#}"
    unfolding s(2,3) q by (simp_all add: MAX_PRIO_def)
  moreover obtain p s' where g: "get_proc ?s = Inr (p, s')" using get_mlq_proc_policy [OF s(1)] by (auto simp: get_proc_def)
  ultimately show ?thesis using idle_while_waiting [OF s(1) _ g] s(1) q by blast
qed

end
