(* ===== verification/OS_CPU.thy ===== *)
theory OS_CPU
  imports OS_Access OS_Sched
begin

text \<open>
  \<open>src/cpu.c\<close> as configured (\<open>MM_PAGING\<close> is defined by \<open>os-cfg.h\<close>): the execution of one
  instruction of a process. The memory operations work on the memory description of the
  process and on the two devices all processes share. The operations of the build without
  paging are in theory OS_Mem.
\<close>

definition calc :: "pcb_t \<Rightarrow> int" where
  "calc proc = 0"

text \<open>
  Calling a memory operation for the process: \<open>caller->mm\<close> is dereferenced, and the
  operation leaves its changes in the description and in the devices.
\<close>

definition caller_ctx :: "mm_struct \<Rightarrow> memphy_struct \<Rightarrow> memphy_struct \<Rightarrow> vmctx" where
  "caller_ctx m ram sw = \<lparr>c_mm = m, c_mram = ram, c_mswp = sw\<rparr>"

type_synonym cpu_res = "(int \<times> pcb_t \<times> memphy_struct \<times> memphy_struct) res"

definition on_mm :: "pcb_t \<Rightarrow> memphy_struct \<Rightarrow> memphy_struct \<Rightarrow> (vmctx \<Rightarrow> (int \<times> vmctx) res) \<Rightarrow> cpu_res" where
  "on_mm proc ram sw f =
     (case p_mm proc of
        None \<Rightarrow> Inl NullDeref
      | Some m \<Rightarrow>
          rbind (f (caller_ctx m ram sw)) (\<lambda>(stat, c).
          Inr (stat, proc\<lparr>p_mm := Some (c_mm c)\<rparr>, c_mram c, c_mswp c)))"

text \<open>
  The memory operation of an instruction. \<open>ALLOC\<close> and \<open>FREE\<close> print the page table afterwards;
  the data of \<open>WRITE\<close> is converted to a byte.
\<close>

definition exec_mem :: "inst_t \<Rightarrow> vmctx \<Rightarrow> (int \<times> vmctx) res" where
  "exec_mem ins c =
     (case opcode ins of
        CALC \<Rightarrow> Inr (0, c)
      | ALLOC \<Rightarrow>
          rbind (pgalloc c (arg_0 ins) (arg_1 ins)) (\<lambda>(stat, c).
          rbind (print_pgtbl (c_mm c) 0 (-1)) (\<lambda>_. Inr (stat, c)))
      | FREE \<Rightarrow>
          rbind (pgfree_data c (arg_0 ins)) (\<lambda>(stat, c).
          rbind (print_pgtbl (c_mm c) 0 (-1)) (\<lambda>_. Inr (stat, c)))
      | READ \<Rightarrow> rbind (pgread c (arg_0 ins) (arg_1 ins) (arg_2 ins)) (\<lambda>(stat, _, c). Inr (stat, c))
      | WRITE \<Rightarrow> pgwrite c (word_of_int (arg_0 ins)) (arg_1 ins) (arg_2 ins))"

definition run :: "pcb_t \<Rightarrow> memphy_struct \<Rightarrow> memphy_struct \<Rightarrow> cpu_res" where
  "run proc ram sw =
     (if pc proc \<ge> code_size (code proc) then
        rbind (MEMPHY_dump ram) (\<lambda>_. Inr (1, proc, ram, sw))
      else
        rbind (arr_get (code_text (code proc)) (nat (pc proc))) (\<lambda>ins.
        (let proc = proc\<lparr>pc := u32 (pc proc + 1)\<rparr>
         in if opcode ins = CALC then Inr (calc proc, proc, ram, sw)
            else on_mm proc ram sw (exec_mem ins))))"

section \<open>Well-formed processes\<close>

text \<open>The code segment as the loader builds it: \<open>code_size\<close> instructions, \<open>pc\<close> at most there.\<close>

definition code_ok :: "pcb_t \<Rightarrow> bool" where
  "code_ok p \<longleftrightarrow> code_size (code p) = int (length (code_text (code p))) \<and> code_size (code p) < 2 ^ 32 \<and>
     0 \<le> pc p \<and> pc p \<le> code_size (code p)"

lemma code_ok_step:
  assumes "code_ok p" "pc p < code_size (code p)"
  shows "u32 (pc p + 1) = pc p + 1" "nat (pc p) < length (code_text (code p))"
    "code_ok (p\<lparr>pc := pc p + 1, p_mm := m\<rparr>)"
  using assms by (auto simp: code_ok_def)

text \<open>
  The instructions whose effect is given by \<open>instr_effect\<close> below: an allocation into a register
  of the process, of a positive size that fits the address space, for which the free frames
  suffice; a release of a register; an access inside a region to a page in RAM. Other
  instructions also run: an allocation without enough frames (theory OS_VM) or an access that causes
  a page fault (theory OS_Stale) succeeds with another effect.
\<close>

definition instr_ready :: "inst_t \<Rightarrow> vmctx \<Rightarrow> bool" where
  "instr_ready ins c =
     (case opcode ins of
        CALC \<Rightarrow> True
      | ALLOC \<Rightarrow> 0 \<le> arg_1 ins \<and> arg_1 ins < int PAGING_MAX_SYMTBL_SZ \<and> 0 < arg_0 ins \<and> arg_0 ins \<le> area_room c \<and>
          nat (grow_amt (hd (mmap (c_mm c))) (arg_0 ins)) \<le> frames_left c
      | FREE \<Rightarrow> 0 \<le> arg_0 ins \<and> arg_0 ins < int PAGING_MAX_SYMTBL_SZ
      | READ \<Rightarrow> 0 \<le> arg_0 ins \<and> in_region c (nat (arg_0 ins)) (arg_1 ins) \<and>
          in_ram c (PAGING_PGN (region_addr c (nat (arg_0 ins)) (arg_1 ins)))
      | WRITE \<Rightarrow> 0 \<le> arg_1 ins \<and> in_region c (nat (arg_1 ins)) (arg_2 ins) \<and>
          in_ram c (PAGING_PGN (region_addr c (nat (arg_1 ins)) (arg_2 ins))))"

text \<open>
  What an instruction does to the memory of its process, stated without the code: an
  allocation enters a region of the size asked for and keeps the bytes of all pages; a release
  clears the register and makes exactly its bytes free; a write changes the byte addressed and
  no other; the other instructions change nothing.
\<close>

definition instr_effect :: "inst_t \<Rightarrow> vmctx \<Rightarrow> vmctx \<Rightarrow> bool" where
  "instr_effect ins c c' =
     (case opcode ins of
        CALC \<Rightarrow> c' = c
      | ALLOC \<Rightarrow> (\<exists>a. regions_of (c_mm c') = (regions_of (c_mm c))[nat (arg_1 ins) := (a, a + arg_0 ins)]) \<and>
          (\<forall>p \<in> area_pages c. page_byte c' p = page_byte c p)
      | FREE \<Rightarrow> regions_of (c_mm c') = (regions_of (c_mm c))[nat (arg_0 ins) := (0, 0)] \<and> same_pages c c' \<and>
          (\<exists>ys ys'. free_list c ys \<and> free_list c' ys' \<and>
            bytes ys' = bytes ys \<union> iv (regions_of (c_mm c) ! nat (arg_0 ins)))
      | READ \<Rightarrow> c' = c
      | WRITE \<Rightarrow> c_mm c' = c_mm c \<and> c_mswp c' = c_mswp c \<and>
          (let a = region_addr c (nat (arg_1 ins)) (arg_2 ins)
           in \<forall>p \<in> area_pages c. \<forall>k \<in> {0 ..< PAGING_PAGESZ}. page_byte c' p k =
             (if p = PAGING_PGN a \<and> k = PAGING_OFFST a then word_of_int (arg_0 ins) else page_byte c p k)))"

text \<open>
  The instructions that keep a process in order and to itself, if they return. Against
  \<open>instr_ready\<close> accesses may be at any offset: reads of any page of the area, in RAM or in swap,
  writes to any page in RAM, and those the test of the offset refuses. Excluded are allocations
  that do not get their frames, writes that cause a page fault, and accesses
  outside the area.
\<close>

definition instr_safe :: "inst_t \<Rightarrow> vmctx \<Rightarrow> bool" where
  "instr_safe ins c =
     (case opcode ins of
        CALC \<Rightarrow> True
      | ALLOC \<Rightarrow> instr_ready ins c
      | FREE \<Rightarrow> True
      | READ \<Rightarrow> 0 \<le> arg_0 ins \<and>
          (refused c (nat (arg_0 ins)) (arg_1 ins) \<or> access_page c (nat (arg_0 ins)) (arg_1 ins) \<in> area_pages c)
      | WRITE \<Rightarrow> 0 \<le> arg_1 ins \<and>
          (refused c (nat (arg_1 ins)) (arg_2 ins) \<or> in_ram c (access_page c (nat (arg_1 ins)) (arg_2 ins))))"

lemma instr_ready_safe:
  assumes "proc_ok c" "instr_ready ins c"
  shows "instr_safe ins c"
proof -
  have "vm_inv c" using assms(1) by (simp add: proc_ok_def)
  then show ?thesis
    using assms(2) access_addr_region(1) region_addr_bounds(4)
    by (auto simp: instr_safe_def instr_ready_def access_page_def split: ins_opcode_t.splits)
qed

lemma proc_ok_prints:
  assumes "proc_ok c"
  obtains out where "print_pgtbl (c_mm c) 0 (-1) = Inr out"
proof -
  obtain v where "mmap (c_mm c) = [v]" using assms by (auto simp: proc_ok_def vm_inv_def vm_state_def)
  then show thesis using print_pgtbl_all that by blast
qed

lemma exec_alloc:
  assumes ok: "proc_ok c" and rdy: "instr_ready ins c" and op: "opcode ins = ALLOC"
  shows "\<exists>c'. exec_mem ins c = Inr (0, c') \<and> mem_step c c' \<and> instr_effect ins c c'"
proof -
  let ?i = "nat (arg_1 ins)"
  have g: "?i < PAGING_MAX_SYMTBL_SZ" "0 < arg_0 ins" "arg_0 ins \<le> area_room c"
      "nat (grow_amt (hd (mmap (c_mm c))) (arg_0 ins)) \<le> frames_left c" "int ?i = arg_1 ins"
    using rdy op by (auto simp: instr_ready_def)
  obtain a c' where c': "vm_alloc c 0 (int ?i) (arg_0 ins) = Inr (0, a, c')" "proc_ok c'"
      "regions_of (c_mm c') = (regions_of (c_mm c))[?i := (a, a + arg_0 ins)]" "\<forall>p \<in> area_pages c. page_byte c' p = page_byte c p"
    using vm_alloc_proc_ok [OF ok g(1-4)] by blast
  have "s32 (arg_1 ins) = arg_1 ins" using rdy op by (simp add: instr_ready_def PAGING_MAX_SYMTBL_SZ_def)
  moreover have "s32 (arg_0 ins) = arg_0 ins"
    using g(2,3) ok by (auto simp: area_room_def proc_ok_def vm_inv_def vm_state_def)
  ultimately have run: "pgalloc c (arg_0 ins) (int ?i) = Inr (0, c')" using c'(1) g(5) by (simp add: pgalloc_def)
  obtain out where "print_pgtbl (c_mm c') 0 (-1) = Inr out" using proc_ok_prints [OF c'(2)] .
  then have "exec_mem ins c = Inr (0, c')" using run g(5) op by (simp add: exec_mem_def)
  then show ?thesis using Alloc_step [OF g(1-4) run] c'(3,4) op by (auto simp: instr_effect_def)
qed

lemma exec_free:
  assumes ok: "proc_ok c" and rdy: "instr_ready ins c" and op: "opcode ins = FREE"
  shows "free_clash c (nat (arg_0 ins)) \<Longrightarrow> exec_mem ins c = Inl WildDeref"
    "\<not> free_clash c (nat (arg_0 ins)) \<Longrightarrow> \<exists>c'. exec_mem ins c = Inr (0, c') \<and> instr_effect ins c c'"
proof -
  let ?i = "nat (arg_0 ins)"
  have g: "?i < PAGING_MAX_SYMTBL_SZ" "int ?i = arg_0 ins" using rdy op by (auto simp: instr_ready_def)
  have "s32 (arg_0 ins) = arg_0 ins" using rdy op by (simp add: instr_ready_def PAGING_MAX_SYMTBL_SZ_def)
  then have run: "pgfree_data c (arg_0 ins) = vm_free c 0 (int ?i)" using g(2) by (simp add: pgfree_data_def)
  have inv: "vm_inv c" using ok by (simp add: proc_ok_def)
  show "exec_mem ins c = Inl WildDeref" if "free_clash c ?i"
    using free_region_clash [OF inv g(1) that] run op by (simp add: exec_mem_def)
  show "\<exists>c'. exec_mem ins c = Inr (0, c') \<and> instr_effect ins c c'" if nc: "\<not> free_clash c ?i"
  proof -
    obtain c' ys ys' where c': "vm_free c 0 (int ?i) = Inr (0, c')"
        "regions_of (c_mm c') = (regions_of (c_mm c))[?i := (0, 0)]" "same_pages c c'" "free_list c ys" "free_list c' ys'"
        "bytes ys' = bytes ys \<union> iv (regions_of (c_mm c) ! ?i)"
      using free_region_ok [OF inv g(1) nc] by blast
    have "proc_ok c'" using vm_free_proc_ok(1) [OF ok g(1) c'(1)] .
    then have "exec_mem ins c = Inr (0, c')" using c'(1) run op by (auto simp: exec_mem_def elim: proc_ok_prints)
    then show ?thesis using c'(2-6) op by (auto simp: instr_effect_def)
  qed
qed

lemma exec_access:
  assumes ok: "proc_ok c" and rdy: "instr_ready ins c"
  shows "opcode ins = READ \<Longrightarrow> exec_mem ins c = Inr (0, c)"
    "opcode ins = WRITE \<Longrightarrow> \<exists>c'. exec_mem ins c = Inr (0, c') \<and> instr_effect ins c c'"
proof -
  assume op: "opcode ins = READ"
  let ?i = "nat (arg_0 ins)"
  have g: "in_region c ?i (arg_1 ins)" "in_ram c (PAGING_PGN (region_addr c ?i (arg_1 ins)))" "int ?i = arg_0 ins"
    using rdy op by (auto simp: instr_ready_def)
  show "exec_mem ins c = Inr (0, c)"
    using pg_rw_in_region(2) [OF ok g(1) region_access(1) [OF ok g(1,2)], of "arg_2 ins"] g(3) op by (simp add: exec_mem_def)
next
  assume op: "opcode ins = WRITE"
  let ?i = "nat (arg_1 ins)" and ?b = "word_of_int (arg_0 ins) :: byte"
  have g: "in_region c ?i (arg_2 ins)" "in_ram c (PAGING_PGN (region_addr c ?i (arg_2 ins)))" "int ?i = arg_1 ins"
    using rdy op by (auto simp: instr_ready_def)
  let ?c = "put_byte c (phys c (region_addr c ?i (arg_2 ins))) ?b"
  have dm: "devices_ok c" "map_ok (area_pages c) c" using ok by (simp_all add: proc_ok_def)
  have "exec_mem ins c = Inr (0, ?c)"
    using region_access(2) [OF ok g(1,2)] pg_rw_in_region(1) [OF ok g(1)] g(3) op by (simp add: exec_mem_def)
  moreover have "instr_effect ins c ?c"
    using put_byte_page [OF dm _ g(2)] op by (simp add: instr_effect_def Let_def PAGING_PAGESZ_def del: if_split)
  ultimately show "\<exists>c'. exec_mem ins c = Inr (0, c') \<and> instr_effect ins c c'" by blast
qed

lemma exec_mem_effect:
  assumes "proc_ok c" "instr_ready ins c"
  shows "if opcode ins = FREE \<and> free_clash c (nat (arg_0 ins)) then exec_mem ins c = Inl WildDeref
    else \<exists>c'. exec_mem ins c = Inr (0, c') \<and> instr_effect ins c c'"
proof (cases "opcode ins")
  case ALLOC
  then show ?thesis using exec_alloc [OF assms] by auto
next
  case FREE
  then show ?thesis using exec_free [OF assms] by simp
next
  case WRITE
  then show ?thesis using exec_access(2) [OF assms] by simp
qed (use exec_access(1) [OF assms] in \<open>simp_all add: exec_mem_def instr_effect_def\<close>)

text \<open>A safe instruction that returns is a step of the process.\<close>

lemma exec_free_step:
  assumes ok: "proc_ok c" and run: "pgfree_data c a = Inr (r, c')"
  shows "mem_step\<^sup>*\<^sup>* c c'"
proof -
  have l: "length (symrgtbl (c_mm c)) = PAGING_MAX_SYMTBL_SZ"
    using vm_inv_regions(1) ok by (simp add: regions_of_def proc_ok_def)
  consider "s32 a < 0 \<or> s32 a > int PAGING_MAX_SYMTBL_SZ" | "s32 a = int PAGING_MAX_SYMTBL_SZ"
    | i where "s32 a = int i" "i < PAGING_MAX_SYMTBL_SZ"
    by (metis linorder_not_less nat_less_iff nat_0_le order_le_less)
  then show ?thesis
  proof cases
    case 1
    then show ?thesis using run by (auto simp: pgfree_data_def vm_free_def)
  next
    case 2
    then show ?thesis using run l by (simp add: pgfree_data_def vm_free_def get_symrg_byid_def arr_get_def)
  next
    case (3 i)
    then have "pgfree_data c (int i) = Inr (r, c')" using run by (simp add: pgfree_data_def PAGING_MAX_SYMTBL_SZ_def)
    then show ?thesis using Free_step [OF 3(2)] by blast
  qed
qed

lemma exec_safe:
  assumes ok: "proc_ok c" and safe: "instr_safe ins c" and run: "exec_mem ins c = Inr (r, c')"
  shows "mem_step\<^sup>*\<^sup>* c c'"
proof -
  have l: "length (symrgtbl (c_mm c)) = PAGING_MAX_SYMTBL_SZ"
    using vm_inv_regions(1) ok by (simp add: regions_of_def proc_ok_def)
  show ?thesis
  proof (cases "opcode ins")
    case CALC
    then show ?thesis using run by (simp add: exec_mem_def)
  next
    case ALLOC
    then show ?thesis using exec_alloc [OF ok _ ALLOC] safe run by (auto simp: instr_safe_def)
  next
    case FREE
    then show ?thesis using exec_free_step [OF ok] run by (auto simp: exec_mem_def res_simps)
  next
    case READ
    let ?i = "nat (arg_0 ins)"
    obtain u where u: "pgread c (int ?i) (arg_1 ins) (arg_2 ins) = Inr (r, u, c')"
      using READ run safe by (auto simp: exec_mem_def instr_safe_def res_simps)
    then have "?i < PAGING_MAX_SYMTBL_SZ" using l by (auto simp: pgread_def arr_get_def res_simps split: if_splits)
    then show ?thesis using Read_step [OF _ _ u] READ safe by (auto simp: instr_safe_def)
  next
    case WRITE
    let ?i = "nat (arg_1 ins)"
    have w: "pgwrite c (word_of_int (arg_0 ins)) (int ?i) (arg_2 ins) = Inr (r, c')"
      using WRITE run safe by (simp add: exec_mem_def instr_safe_def)
    then have "?i < PAGING_MAX_SYMTBL_SZ" using l by (auto simp: pgwrite_def arr_get_def res_simps split: if_splits)
    then show ?thesis using Write_step [OF _ _ w] WRITE safe by (auto simp: instr_safe_def)
  qed
qed

lemma run_finished:
  assumes "pc p \<ge> code_size (code p)" "frames_ok ram"
  shows "run p ram sw = Inr (1, p, ram, sw)"
  using assms MEMPHY_dump_ok [OF assms(2)] by (simp add: run_def)

lemma caller_ctx_fields [simp]:
  "caller_ctx (c_mm c) (c_mram c) (c_mswp c) = c" "c_mm (caller_ctx m ram sw) = m"
  "c_mram (caller_ctx m ram sw) = ram" "c_mswp (caller_ctx m ram sw) = sw"
  by (simp_all add: caller_ctx_def)

text \<open>
  One call of \<open>run\<close> on a process that has not finished performs the instruction at \<open>pc\<close> on the
  memory of the process and advances \<open>pc\<close>.
\<close>

lemma run_exec:
  assumes ok: "code_ok p" "p_mm p = Some m" and lt: "pc p < code_size (code p)"
  shows "run p ram sw = rbind (exec_mem (code_text (code p) ! nat (pc p)) (caller_ctx m ram sw))
    (\<lambda>(r, c). Inr (r, p\<lparr>pc := pc p + 1, p_mm := Some (c_mm c)\<rparr>, c_mram c, c_mswp c))"
proof -
  note st = code_ok_step [OF ok(1) lt]
  show ?thesis
    using lt st ok(2) by (simp add: run_def arr_get_def Let_def calc_def on_mm_def exec_mem_def)
qed

lemma run_safe:
  assumes ok: "code_ok p" "p_mm p = Some m" "proc_ok (caller_ctx m ram sw)" and lt: "pc p < code_size (code p)"
    and safe: "instr_safe (code_text (code p) ! nat (pc p)) (caller_ctx m ram sw)"
    and run: "run p ram sw = Inr (r, p', ram', sw')"
  obtains c' where "p' = p\<lparr>pc := pc p + 1, p_mm := Some (c_mm c')\<rparr>" "ram' = c_mram c'" "sw' = c_mswp c'"
    "mem_step\<^sup>*\<^sup>* (caller_ctx m ram sw) c'"
  using that exec_safe [OF ok(3) safe] run run_exec [OF ok(1,2) lt, of ram sw] by (auto simp: res_simps)

section \<open>Running a program\<close>

primrec run_times :: "nat \<Rightarrow> pcb_t \<Rightarrow> memphy_struct \<Rightarrow> memphy_struct \<Rightarrow> (pcb_t \<times> memphy_struct \<times> memphy_struct) res" where
  "run_times 0 p ram sw = Inr (p, ram, sw)"
| "run_times (Suc n) p ram sw = rbind (run p ram sw) (\<lambda>(_, p, ram, sw). run_times n p ram sw)"

lemma run_calc:
  assumes "code_ok p" "pc p < code_size (code p)" "opcode (code_text (code p) ! nat (pc p)) = CALC"
  shows "run p ram sw = Inr (0, p\<lparr>pc := pc p + 1\<rparr>, ram, sw)"
  using assms code_ok_step [OF assms(1,2)] by (simp add: run_def arr_get_def Let_def calc_def)

lemma run_times_calc:
  assumes "list_all (\<lambda>i. opcode i = CALC) (code_text (code p))"
  shows "code_ok p \<Longrightarrow> int n = code_size (code p) - pc p \<Longrightarrow>
     run_times n p ram sw = Inr (p\<lparr>pc := code_size (code p)\<rparr>, ram, sw)"
  using assms
proof (induction n arbitrary: p)
  case (Suc n)
  have lt: "pc p < code_size (code p)" using Suc.prems(2) by simp
  note st = code_ok_step [OF Suc.prems(1) lt]
  have "opcode (code_text (code p) ! nat (pc p)) = CALC"
    using Suc.prems(3) st(2) by (simp add: list_all_length)
  moreover have "code_ok (p\<lparr>pc := pc p + 1\<rparr>)" using Suc.prems(1) lt by (simp add: code_ok_def)
  ultimately show ?case
    using run_calc [OF Suc.prems(1) lt] Suc.IH [of "p\<lparr>pc := pc p + 1\<rparr>"] Suc.prems by simp
qed simp

section \<open>Properties\<close>

text \<open>
  C14: one call of \<open>run\<close> on a process in good order performs the instruction at \<open>pc\<close>. A finished
  process is left as it is and reported with 1. Otherwise, for the instructions described by
  \<open>instr_ready\<close>, a release uses a freed node exactly when the free region that begins at the end of
  its region is directly followed in the free list by the one that ends at its start; in every other case
  \<open>run\<close> returns 0, \<open>pc\<close> advances by one, the memory of the process changes as the instruction
  says, the rest of the control block is kept, the process stays in good order and no frame
  outside its reach is written.
\<close>

theorem run_one_instruction:
  assumes "code_ok p" "p_mm p = Some m" "proc_ok (caller_ctx m ram sw)"
    "pc p < code_size (code p) \<longrightarrow> instr_ready (code_text (code p) ! nat (pc p)) (caller_ctx m ram sw)"
  shows "if pc p = code_size (code p) then run p ram sw = Inr (1, p, ram, sw)
    else (let ins = code_text (code p) ! nat (pc p); c = caller_ctx m ram sw
      in if opcode ins = FREE \<and> free_clash c (nat (arg_0 ins)) then run p ram sw = Inl WildDeref
         else \<exists>m' ram' sw'. run p ram sw = Inr (0, p\<lparr>pc := pc p + 1, p_mm := Some m'\<rparr>, ram', sw') \<and>
           instr_effect ins c (caller_ctx m' ram' sw') \<and> proc_ok (caller_ctx m' ram' sw') \<and>
           confined (area_pages c) c (area_pages (caller_ctx m' ram' sw')) (caller_ctx m' ram' sw'))"
proof (cases "pc p = code_size (code p)")
  case True
  have "frames_ok ram" using assms(3) by (simp add: proc_ok_def devices_ok_def)
  then show ?thesis using True run_finished by simp
next
  case False
  let ?ins = "code_text (code p) ! nat (pc p)" and ?c = "caller_ctx m ram sw"
  have lt: "pc p < code_size (code p)" using False assms(1) by (simp add: code_ok_def)
  then have rdy: "instr_ready ?ins ?c" using assms(4) by blast
  note run = run_exec [OF assms(1,2) lt, of ram sw] and ex = exec_mem_effect [OF assms(3) rdy]
  show ?thesis
  proof (cases "opcode ?ins = FREE \<and> free_clash ?c (nat (arg_0 ?ins))")
    case True
    then show ?thesis using False run ex by simp
  next
    case no: False
    then obtain c' where c': "exec_mem ?ins ?c = Inr (0, c')" "instr_effect ?ins ?c c'"
      using ex by (simp only: if_False) blast
    have "proc_ok c' \<and> confined (area_pages ?c) ?c (area_pages c') c'"
      by (rule mem_steps_confined [OF exec_safe [OF assms(3) instr_ready_safe [OF assms(3) rdy] c'(1)] assms(3)])
    then have "\<exists>m' ram' sw'. run p ram sw = Inr (0, p\<lparr>pc := pc p + 1, p_mm := Some m'\<rparr>, ram', sw') \<and>
        instr_effect ?ins ?c (caller_ctx m' ram' sw') \<and> proc_ok (caller_ctx m' ram' sw') \<and>
        confined (area_pages ?c) ?c (area_pages (caller_ctx m' ram' sw')) (caller_ctx m' ram' sw')"
      using run c' by (intro exI [of _ "c_mm c'"] exI [of _ "c_mram c'"] exI [of _ "c_mswp c'"]) simp
    then show ?thesis using False no by (simp only: Let_def if_False)
  qed
qed

definition sample_prog :: "inst_t list \<Rightarrow> pcb_t" where
  "sample_prog is = (sample_pcb 1 0)\<lparr>code := \<lparr>code_text = is, code_size = int (length is)\<rparr>, p_mm := Some sample_mm\<rparr>"

theorem run_one_instruction_witness:
  "\<exists>m' ram' sw' a. run (sample_prog [\<lparr>opcode = ALLOC, arg_0 = 300, arg_1 = 4, arg_2 = 0\<rparr>])
      (sample_dev 1024 [0, 1, 2, 3]) (sample_dev 4096 [0, 1, 2, 3]) =
    Inr (0, (sample_prog [\<lparr>opcode = ALLOC, arg_0 = 300, arg_1 = 4, arg_2 = 0\<rparr>])\<lparr>pc := 1, p_mm := Some m'\<rparr>, ram', sw') \<and>
    regions_of m' ! 4 = (a, a + 300) \<and> proc_ok (caller_ctx m' ram' sw')"
proof -
  let ?p = "sample_prog [\<lparr>opcode = ALLOC, arg_0 = 300, arg_1 = 4, arg_2 = 0\<rparr>]"
  have c: "caller_ctx sample_mm (sample_dev 1024 [0, 1, 2, 3]) (sample_dev 4096 [0, 1, 2, 3]) = sample_ctx"
    by (simp add: caller_ctx_def sample_ctx_def)
  have p: "code_ok ?p" "p_mm ?p = Some sample_mm" "pc ?p = 0" "code_size (code ?p) = 1"
      "code_text (code ?p) ! 0 = \<lparr>opcode = ALLOC, arg_0 = 300, arg_1 = 4, arg_2 = 0\<rparr>"
    by (simp_all add: sample_prog_def code_ok_def sample_pcb_def)
  have rdy: "pc ?p < code_size (code ?p) \<longrightarrow> instr_ready (code_text (code ?p) ! nat (pc ?p)) sample_ctx"
    by (simp add: instr_ready_def sample_prog_def sample_pcb_def sample_ctx_def sample_mm_def grow_amt_def pages_for_def
        frames_left_def PAGING_MAX_SYMTBL_SZ_def area_room_def)
  obtain m' ram' sw' where r: "run ?p (sample_dev 1024 [0, 1, 2, 3]) (sample_dev 4096 [0, 1, 2, 3]) =
        Inr (0, ?p\<lparr>pc := 1, p_mm := Some m'\<rparr>, ram', sw')" "proc_ok (caller_ctx m' ram' sw')"
      "instr_effect \<lparr>opcode = ALLOC, arg_0 = 300, arg_1 = 4, arg_2 = 0\<rparr> sample_ctx (caller_ctx m' ram' sw')"
    using run_one_instruction [of ?p sample_mm "sample_dev 1024 [0, 1, 2, 3]" "sample_dev 4096 [0, 1, 2, 3]",
        unfolded c, OF p(1,2) sample_proc_ok rdy] p(3-5) by (auto simp: Let_def)
  have "4 < length (regions_of (c_mm sample_ctx))" by (simp add: sample_ctx_def sample_mm_def regions_of_def PAGING_MAX_SYMTBL_SZ_def)
  then have "\<exists>a. regions_of m' ! 4 = (a, a + 300)" using r(3) by (auto simp: instr_effect_def)
  then show ?thesis using r(1,2) by blast
qed

text \<open>
  A process that only computes ends: after as many calls of \<open>run\<close> as instructions are
  left its \<open>pc\<close> is at the end, and neither its memory nor the devices changed.
\<close>

lemma calc_program_ends:
  assumes "code_ok p" "list_all (\<lambda>i. opcode i = CALC) (code_text (code p))" "int n = code_size (code p) - pc p"
  shows "run_times n p ram sw = Inr (p\<lparr>pc := code_size (code p)\<rparr>, ram, sw)"
  by (rule run_times_calc [OF assms(2,1,3)])

lemma calc_program_ends_witness:
  "run_times 1 (sample_pcb 1 0) (sample_dev 1024 []) (sample_dev 1024 []) =
    Inr ((sample_pcb 1 0)\<lparr>pc := 1\<rparr>, sample_dev 1024 [], sample_dev 1024 [])"
  using calc_program_ends [of "sample_pcb 1 0" 1 "sample_dev 1024 []" "sample_dev 1024 []"]
  by (simp add: sample_pcb_def code_ok_def)

end
