(* ===== verification/OS_Scan.thy ===== *)
theory OS_Scan
  imports OS_Prelude
begin

text \<open>
  The part of \<open>fscanf\<close> the loader and the configuration reader use: the conversions
  \<open>%u\<close>, \<open>%d\<close>, \<open>%lu\<close> and \<open>%s\<close>, each of which skips white space first, and white space in the
  format, which skips white space in the input. A conversion that fails stores nothing and
  ends the call. A number that its object cannot represent is undefined behaviour. The input
  is the rest of the file.
\<close>

definition is_space :: "char \<Rightarrow> bool" where
  "is_space c \<longleftrightarrow> c \<in> {CHR '' '', CHR 0x09, CHR 0x0A, CHR 0x0B, CHR 0x0C, CHR 0x0D}"

definition is_digit :: "char \<Rightarrow> bool" where
  "is_digit c \<longleftrightarrow> 48 \<le> (of_char c :: nat) \<and> (of_char c :: nat) \<le> 57"

definition skip_ws :: "string \<Rightarrow> string" where
  "skip_ws s = dropWhile is_space s"

definition digit_val :: "char \<Rightarrow> int" where
  "digit_val c = of_char c - 48"

definition digits_val :: "string \<Rightarrow> int" where
  "digits_val ds = foldl (\<lambda>a c. a * 10 + digit_val c) 0 ds"

text \<open>An optional sign: the factor it stands for and the rest.\<close>

definition scan_sign :: "string \<Rightarrow> int \<times> string" where
  "scan_sign s = (case s of
     c # r \<Rightarrow> if c = CHR ''-'' then (-1, r) else if c = CHR ''+'' then (1, r) else (1, s)
   | [] \<Rightarrow> (1, s))"

text \<open>\<open>conv\<close> is the conversion to the type of the object, \<open>None\<close> out of its range.\<close>

definition scan_num :: "(int \<Rightarrow> int option) \<Rightarrow> string \<Rightarrow> (int option \<times> string) res" where
  "scan_num conv s =
     (let (sg, s1) = scan_sign (skip_ws s); ds = takeWhile is_digit s1; rest = dropWhile is_digit s1
      in if ds = [] then Inr (None, s1)
         else case conv (sg * digits_val ds) of None \<Rightarrow> Inl BadConversion | Some v \<Rightarrow> Inr (Some v, rest))"

definition conv_u :: "int \<Rightarrow> int option" where
  "conv_u x = (if \<bar>x\<bar> < 2 ^ 32 then Some (u32 x) else None)"

definition conv_lu :: "int \<Rightarrow> int option" where
  "conv_lu x = (if \<bar>x\<bar> < 2 ^ 64 then Some (u64 x) else None)"

definition conv_d :: "int \<Rightarrow> int option" where
  "conv_d x = (if - (2 ^ 31) \<le> x \<and> x < 2 ^ 31 then Some x else None)"

text \<open>\<open>n\<close> conversions in one call: the values stored, fewer when one fails.\<close>

primrec scan_nums :: "(int \<Rightarrow> int option) \<Rightarrow> nat \<Rightarrow> string \<Rightarrow> (int list \<times> string) res" where
  "scan_nums conv 0 s = Inr ([], s)"
| "scan_nums conv (Suc n) s =
     rbind (scan_num conv s) (\<lambda>(v, s1).
       case v of
         None \<Rightarrow> Inr ([], s1)
       | Some x \<Rightarrow> rbind (scan_nums conv n s1) (\<lambda>(xs, s2). Inr (x # xs, s2)))"

text \<open>The same with a newline at the end of the format.\<close>

definition scan_line :: "(int \<Rightarrow> int option) \<Rightarrow> nat \<Rightarrow> string \<Rightarrow> (int list \<times> string) res" where
  "scan_line conv n s =
     rbind (scan_nums conv n s) (\<lambda>(xs, s1). Inr (xs, if length xs = n then skip_ws s1 else s1))"

text \<open>\<open>%s\<close>: the next word, \<open>None\<close> at the end of the file.\<close>

definition scan_word :: "string \<Rightarrow> string option \<times> string" where
  "scan_word s =
     (let s1 = skip_ws s; w = takeWhile (\<lambda>c. \<not> is_space c) s1
      in if w = [] then (None, s1) else (Some w, dropWhile (\<lambda>c. \<not> is_space c) s1))"

text \<open>The string a C function sees in a buffer: up to the first null byte.\<close>

definition c_str :: "string \<Rightarrow> string" where
  "c_str s = takeWhile (\<lambda>c. c \<noteq> CHR 0x00) s"

section \<open>Printing numbers and words\<close>

definition digit_char :: "nat \<Rightarrow> char" where
  "digit_char d = char_of (48 + d)"

fun print_nat :: "nat \<Rightarrow> string" where
  "print_nat n = (if n < 10 then [digit_char n] else print_nat (n div 10) @ [digit_char (n mod 10)])"

declare print_nat.simps [simp del]

lemma of_digit_char: "d < 10 \<Longrightarrow> (of_char (digit_char d) :: nat) = 48 + d"
  by (simp add: digit_char_def)

lemma of_digit_char_int: "d < 10 \<Longrightarrow> (of_char (digit_char d) :: int) = 48 + int d"
  using of_digit_char [of d] by (metis of_nat_add of_nat_numeral of_nat_of_char)

lemma digit_char_neq: "d < 10 \<Longrightarrow> (of_char c :: nat) < 48 \<Longrightarrow> digit_char d \<noteq> c"
  using of_digit_char [of d] by auto

lemma digit_char [simp]:
  assumes "d < 10"
  shows "is_digit (digit_char d)" "digit_val (digit_char d) = int d" "\<not> is_space (digit_char d)"
    "digit_char d \<noteq> CHR ''-''" "digit_char d \<noteq> CHR ''+''"
proof -
  show "is_digit (digit_char d)" using assms by (simp add: is_digit_def of_digit_char)
  show "digit_val (digit_char d) = int d" using assms by (simp add: digit_val_def of_digit_char_int)
  show "\<not> is_space (digit_char d)" "digit_char d \<noteq> CHR ''-''" "digit_char d \<noteq> CHR ''+''"
    by (auto simp: is_space_def dest!: digit_char_neq [OF assms, THEN notE, rotated])
qed

lemma print_nat_small: "n < 10 \<Longrightarrow> print_nat n = [digit_char n]"
  by (subst print_nat.simps) simp

lemma print_nat_large: "\<not> n < 10 \<Longrightarrow> print_nat n = print_nat (n div 10) @ [digit_char (n mod 10)]"
  by (subst print_nat.simps) simp

lemma print_nat_digits: "list_all is_digit (print_nat n) \<and> print_nat n \<noteq> []"
proof (induction n rule: print_nat.induct)
  case (1 n)
  then show ?case by (cases "n < 10") (simp_all add: print_nat_small print_nat_large)
qed

lemma digits_val_snoc: "digits_val (ds @ [c]) = digits_val ds * 10 + digit_val c"
  by (simp add: digits_val_def)

lemma digits_print_nat: "digits_val (print_nat n) = int n"
proof (induction n rule: print_nat.induct)
  case (1 n)
  show ?case
  proof (cases "n < 10")
    case True
    then show ?thesis by (simp add: print_nat_small digits_val_def)
  next
    case False
    then have "digits_val (print_nat n) = int (n div 10) * 10 + int (n mod 10)"
      using 1 by (simp add: print_nat_large digits_val_snoc)
    moreover have "int n = int (n div 10) * 10 + int (n mod 10)" by (metis div_mult_mod_eq of_nat_add of_nat_mult of_nat_numeral)
    ultimately show ?thesis by simp
  qed
qed

lemma print_nat_head:
  obtains d r where "print_nat n = digit_char d # r" "d < 10"
proof (induction n rule: print_nat.induct)
  case (1 n)
  show ?case
  proof (cases "n < 10")
    case True
    then show ?thesis using 1(2) [of n "[]"] by (simp add: print_nat_small)
  next
    case False
    then show ?thesis using 1 by (metis append_Cons print_nat_large)
  qed
qed

text \<open>White space in front of a word or number is skipped.\<close>

lemma skip_ws_spaces: "list_all is_space ws \<Longrightarrow> skip_ws (ws @ s) = skip_ws s"
  by (induction ws) (auto simp: skip_ws_def)

lemma digit_not_space: "is_digit c \<Longrightarrow> \<not> is_space c"
  by (auto simp: is_digit_def is_space_def)

lemma takeWhile_prefix:
  "list_all P xs \<Longrightarrow> (ys = [] \<or> \<not> P (hd ys)) \<Longrightarrow> takeWhile P (xs @ ys) = xs \<and> dropWhile P (xs @ ys) = ys"
  by (induction xs) (cases ys; auto)+

lemma scan_num_print:
  assumes "list_all is_space ws" "rest = [] \<or> is_space (hd rest)" "conv (int n) = Some v"
  shows "scan_num conv (ws @ print_nat n @ rest) = Inr (Some v, rest)"
proof -
  obtain d r where d: "print_nat n = digit_char d # r" "d < 10" using print_nat_head .
  have "skip_ws (print_nat n @ rest) = print_nat n @ rest" using d by (simp add: skip_ws_def)
  moreover have "scan_sign (print_nat n @ rest) = (1, print_nat n @ rest)" using d by (simp add: scan_sign_def)
  moreover have "takeWhile is_digit (print_nat n @ rest) = print_nat n \<and> dropWhile is_digit (print_nat n @ rest) = rest"
    using assms(2) digit_not_space by (intro takeWhile_prefix) (auto simp: print_nat_digits)
  ultimately show ?thesis
    using assms(1,3) print_nat_digits [of n] by (simp add: scan_num_def skip_ws_spaces Let_def digits_print_nat)
qed

lemma scan_word_print:
  assumes "list_all is_space ws" "w \<noteq> []" "list_all (\<lambda>c. \<not> is_space c) w" "rest = [] \<or> is_space (hd rest)"
  shows "scan_word (ws @ w @ rest) = (Some w, rest)"
proof -
  have "skip_ws (w @ rest) = w @ rest" using assms(2,3) by (cases w) (auto simp: skip_ws_def)
  moreover have "takeWhile (\<lambda>c. \<not> is_space c) (w @ rest) = w \<and> dropWhile (\<lambda>c. \<not> is_space c) (w @ rest) = rest"
    using assms(3,4) by (intro takeWhile_prefix) auto
  ultimately show ?thesis using assms(1,2) by (simp add: scan_word_def skip_ws_spaces Let_def)
qed

text \<open>A conversion sees the input from its first character that is not white space.\<close>

lemma skip_ws_idem [simp]: "skip_ws (skip_ws s) = skip_ws s"
  by (induction s) (auto simp: skip_ws_def)

lemma scan_word_skip: "skip_ws s = skip_ws t \<Longrightarrow> scan_word s = scan_word t"
  by (simp add: scan_word_def)

text \<open>Numbers printed one after the other, each behind a blank.\<close>

definition print_args :: "nat list \<Rightarrow> string" where
  "print_args ns = concat (map (\<lambda>n. CHR '' '' # print_nat n) ns)"

lemma is_space_blank [simp]: "is_space (CHR '' '')" "is_space (CHR 0x0A)"
  by (simp_all add: is_space_def)

lemma print_args_front: "rest = [] \<or> is_space (hd rest) \<Longrightarrow> print_args ns @ rest = [] \<or> is_space (hd (print_args ns @ rest))"
  by (cases ns) (auto simp: print_args_def)

lemma scan_nums_print:
  assumes "\<And>n. n \<in> set ns \<Longrightarrow> conv (int n) = Some (int n)" "rest = [] \<or> is_space (hd rest)"
  shows "scan_nums conv (length ns) (print_args ns @ rest) = Inr (map int ns, rest)"
  using assms(1)
proof (induction ns)
  case Nil
  then show ?case by (simp add: print_args_def)
next
  case (Cons n ns)
  have "print_args (n # ns) @ rest = [CHR '' ''] @ print_nat n @ (print_args ns @ rest)" by (simp add: print_args_def)
  then have "scan_num conv (print_args (n # ns) @ rest) = Inr (Some (int n), print_args ns @ rest)"
    using scan_num_print [of "[CHR '' '']" "print_args ns @ rest" conv n "int n"] Cons.prems print_args_front [OF assms(2)]
    by simp
  then show ?case using Cons by simp
qed

lemma conv_u_id [simp]: "int n < 2 ^ 32 \<Longrightarrow> conv_u (int n) = Some (int n)"
  by (simp add: conv_u_def)

lemma conv_u_bounds: "conv_u x = Some v \<Longrightarrow> 0 \<le> v \<and> v < 2 ^ 32"
  using u32_bounds [of x] by (auto simp: conv_u_def split: if_splits)

lemma scan_nums_range:
  assumes "scan_nums conv n s = Inr (vs, s')"
  shows "length vs \<le> n \<and> (\<forall>v \<in> set vs. \<exists>x. conv x = Some v)"
  using assms
proof (induction n arbitrary: s vs)
  case (Suc n)
  then show ?case
    by (fastforce simp: scan_num_def Let_def res_simps split: prod.splits option.splits if_splits)
qed simp

lemma scan_num_skip: "skip_ws s = skip_ws t \<Longrightarrow> scan_num conv s = scan_num conv t"
  by (simp add: scan_num_def)

lemma scan_num_arg:
  assumes "conv (int n) = Some (int n)" "rest = [] \<or> is_space (hd rest)"
  shows "scan_num conv (print_args [n] @ rest) = Inr (Some (int n), rest)"
  using scan_num_print [of "[CHR '' '']" rest conv n] assms by (simp add: print_args_def)

lemma newline_skip [simp]: "skip_ws (CHR 0x0A # s) = skip_ws s" "skip_ws (CHR '' '' # s) = skip_ws s"
  by (simp_all add: skip_ws_def)

lemma conv_lu_id [simp]: "int n < 2 ^ 64 \<Longrightarrow> conv_lu (int n) = Some (int n)"
  by (simp add: conv_lu_def)

lemma conv_d_id [simp]: "int n < 2 ^ 31 \<Longrightarrow> conv_d (int n) = Some (int n)"
  by (simp add: conv_d_def)

end
