(* ===== verification/OS_Loader.thy ===== *)
theory OS_Loader
  imports OS_CPU OS_Scan
begin

text \<open>
  \<open>src/loader.c\<close>: a program file becomes a process control block. A file system is a
  function from paths to contents. What \<open>malloc\<close> leaves in a new control block and in a new
  instruction array are arguments, so that a field the loader does not store keeps an
  arbitrary value; the loader's own reads of such values are errors.
\<close>

definition opt_calc :: string where "opt_calc = ''calc''"
definition opt_alloc :: string where "opt_alloc = ''alloc''"
definition opt_free :: string where "opt_free = ''free''"
definition opt_read :: string where "opt_read = ''read''"
definition opt_write :: string where "opt_write = ''write''"

lemmas opt_defs = opt_calc_def opt_alloc_def opt_free_def opt_read_def opt_write_def

definition get_opcode :: "string \<Rightarrow> ins_opcode_t res" where
  "get_opcode opt =
     (if c_str opt = opt_calc then Inr CALC
      else if c_str opt = opt_alloc then Inr ALLOC
      else if c_str opt = opt_free then Inr FREE
      else if c_str opt = opt_read then Inr READ
      else if c_str opt = opt_write then Inr WRITE
      else Inl (Exit 1))"

text \<open>
  The buffer \<open>opcode\<close> of 10 bytes, \<open>None\<close> while indeterminate. At the end of the file the
  conversion fails and leaves it as it was.
\<close>

definition opcode_cap :: nat where "opcode_cap = 10"

definition read_opcode :: "string option \<Rightarrow> string \<Rightarrow> (string option \<times> string) res" where
  "read_opcode buf s =
     (case scan_word s of
        (None, s1) \<Rightarrow> Inr (buf, s1)
      | (Some w, s1) \<Rightarrow> if length w < opcode_cap then Inr (Some w, s1) else Inl OutOfBounds)"

text \<open>The number of arguments each case of the switch reads, and where they go.\<close>

fun num_args :: "ins_opcode_t \<Rightarrow> nat" where
  "num_args CALC = 0"
| "num_args ALLOC = 2"
| "num_args FREE = 1"
| "num_args READ = 3"
| "num_args WRITE = 3"

definition store_args :: "int list \<Rightarrow> inst_t \<Rightarrow> inst_t" where
  "store_args vs ins =
     ins\<lparr>arg_0 := (if 0 < length vs then vs ! 0 else arg_0 ins),
         arg_1 := (if 1 < length vs then vs ! 1 else arg_1 ins),
         arg_2 := (if 2 < length vs then vs ! 2 else arg_2 ins)\<rparr>"

definition read_args :: "inst_t \<Rightarrow> string \<Rightarrow> (inst_t \<times> string) res" where
  "read_args ins s =
     (case opcode ins of
        CALC \<Rightarrow> Inr (ins, s)
      | _ \<Rightarrow> rbind (scan_line conv_u (num_args (opcode ins)) s) (\<lambda>(vs, s1). Inr (store_args vs ins, s1)))"

text \<open>One pass of the loop: slot \<open>ins\<close> of the text is filled.\<close>

definition load_instr :: "inst_t \<Rightarrow> string option \<Rightarrow> string \<Rightarrow> (inst_t \<times> string option \<times> string) res" where
  "load_instr ins buf s =
     rbind (read_opcode buf s) (\<lambda>(buf1, s1).
     case buf1 of
       None \<Rightarrow> Inl UninitRead
     | Some w \<Rightarrow>
         rbind (get_opcode w) (\<lambda>op.
         rbind (read_args (ins\<lparr>opcode := op\<rparr>) s1) (\<lambda>(ins1, s2). Inr (ins1, buf1, s2))))"

text \<open>\<open>load_loop text0 k i\<close> fills the \<open>k\<close> slots from index \<open>i\<close> on.\<close>

primrec load_loop :: "(nat \<Rightarrow> inst_t) \<Rightarrow> nat \<Rightarrow> nat \<Rightarrow> string option \<Rightarrow> string \<Rightarrow> inst_t list res" where
  "load_loop text0 0 i buf s = Inr []"
| "load_loop text0 (Suc k) i buf s =
     rbind (load_instr (text0 i) buf s) (\<lambda>(ins, buf1, s1).
     rbind (load_loop text0 k (Suc i) buf1 s1) (\<lambda>rest. Inr (ins # rest)))"

text \<open>The process and the next value of \<open>avail_pid\<close>.\<close>

definition load :: "(string \<Rightarrow> string option) \<Rightarrow> pcb_t \<Rightarrow> (nat \<Rightarrow> inst_t) \<Rightarrow> int \<Rightarrow> string \<Rightarrow> (pcb_t \<times> int) res" where
  "load fs proc0 text0 avail_pid path =
     (let proc = proc0\<lparr>pid := avail_pid, bp := PAGE_SIZE, pc := 0\<rparr>;
          avail_pid' = u32 (avail_pid + 1)
      in case fs path of
           None \<Rightarrow> Inl (Exit 1)
         | Some file \<Rightarrow>
             rbind (scan_nums conv_u 2 file) (\<lambda>(vs, s).
             if length vs < 2 then Inl UninitRead
             else rbind (load_loop text0 (nat (vs ! 1)) 0 None s) (\<lambda>insts.
               Inr (proc\<lparr>priority := vs ! 0, code := \<lparr>code_text = insts, code_size = vs ! 1\<rparr>\<rparr>, avail_pid'))))"

section \<open>Printing a program\<close>

fun print_opcode :: "ins_opcode_t \<Rightarrow> string" where
  "print_opcode CALC = opt_calc"
| "print_opcode ALLOC = opt_alloc"
| "print_opcode FREE = opt_free"
| "print_opcode READ = opt_read"
| "print_opcode WRITE = opt_write"

text \<open>The arguments each instruction has in the program text.\<close>

definition inst_args :: "inst_t \<Rightarrow> int list" where
  "inst_args ins = (case opcode ins of
     CALC \<Rightarrow> []
   | ALLOC \<Rightarrow> [arg_0 ins, arg_1 ins]
   | FREE \<Rightarrow> [arg_0 ins]
   | READ \<Rightarrow> [arg_0 ins, arg_1 ins, arg_2 ins]
   | WRITE \<Rightarrow> [arg_0 ins, arg_1 ins, arg_2 ins])"

definition print_inst :: "inst_t \<Rightarrow> string" where
  "print_inst ins = print_opcode (opcode ins) @ print_args (map nat (inst_args ins)) @ [CHR 0x0A]"

definition print_prog :: "nat \<Rightarrow> inst_t list \<Rightarrow> string" where
  "print_prog p insts = print_args [p, length insts] @ [CHR 0x0A] @ concat (map print_inst insts)"

definition inst_ok :: "inst_t \<Rightarrow> bool" where
  "inst_ok ins \<longleftrightarrow> list_all (\<lambda>a. 0 \<le> a \<and> a < 2 ^ 32) (inst_args ins)"

text \<open>The same instruction, up to the arguments it does not have.\<close>

definition same_inst :: "inst_t \<Rightarrow> inst_t \<Rightarrow> bool" where
  "same_inst a b \<longleftrightarrow> opcode a = opcode b \<and> inst_args a = inst_args b"

lemma print_opcode_word [simp]:
  "print_opcode op \<noteq> []" "length (print_opcode op) < opcode_cap" "list_all (\<lambda>c. \<not> is_space c) (print_opcode op)"
  "get_opcode (print_opcode op) = Inr op"
  by (cases op; simp add: opt_defs opcode_cap_def is_space_def get_opcode_def c_str_def)+

lemma length_inst_args [simp]: "length (inst_args ins) = num_args (opcode ins)"
  by (cases "opcode ins") (simp_all add: inst_args_def)

lemma store_args_inst_args:
  "length vs = num_args (opcode ins) \<Longrightarrow> inst_args (store_args vs ins) = vs"
  by (cases "opcode ins") (auto simp: inst_args_def store_args_def length_Suc_conv numeral_2_eq_2 numeral_3_eq_3)

lemma opcode_store_args [simp]: "opcode (store_args vs ins) = opcode ins"
  by (simp add: store_args_def)

lemma read_args_print:
  assumes "inst_ok ins" "opcode slot = opcode ins"
  shows "\<exists>out s. read_args slot (print_args (map nat (inst_args ins)) @ CHR 0x0A # rest) = Inr (out, s) \<and>
    same_inst ins out \<and> skip_ws s = skip_ws rest"
proof -
  have a: "map int (map nat (inst_args ins)) = inst_args ins"
    using assms(1) by (auto simp: inst_ok_def list_all_iff intro!: map_idI)
  have "conv_u (int n) = Some (int n)" if "n \<in> set (map nat (inst_args ins))" for n
    using that assms(1) by (auto simp: inst_ok_def list_all_iff conv_u_def)
  then have "scan_nums conv_u (num_args (opcode ins)) (print_args (map nat (inst_args ins)) @ CHR 0x0A # rest) =
      Inr (inst_args ins, CHR 0x0A # rest)"
    using scan_nums_print [of "map nat (inst_args ins)" conv_u "CHR 0x0A # rest"] unfolding a by simp
  then have *: "scan_line conv_u (num_args (opcode ins)) (print_args (map nat (inst_args ins)) @ CHR 0x0A # rest) =
      Inr (inst_args ins, skip_ws rest)"
    using skip_ws_spaces [of "[CHR 0x0A]" rest] by (simp add: scan_line_def)
  show ?thesis
  proof (cases "opcode ins")
    case CALC
    then show ?thesis using assms(2) skip_ws_spaces [of "[CHR 0x0A]" rest]
      by (simp add: read_args_def same_inst_def inst_args_def print_args_def)
  qed (use * assms(2) in \<open>simp_all add: read_args_def same_inst_def store_args_inst_args\<close>)
qed

lemma load_instr_print:
  assumes "inst_ok ins" "skip_ws s = skip_ws (print_inst ins @ rest)"
  shows "\<exists>out s'. load_instr slot buf s = Inr (out, Some (print_opcode (opcode ins)), s') \<and> same_inst ins out \<and>
    skip_ws s' = skip_ws rest"
proof -
  let ?t = "print_args (map nat (inst_args ins)) @ CHR 0x0A # rest"
  have "?t = [] \<or> is_space (hd ?t)" by (rule print_args_front) simp
  then have "scan_word s = (Some (print_opcode (opcode ins)), ?t)"
    using scan_word_print [of "[]" "print_opcode (opcode ins)" ?t] scan_word_skip [OF assms(2)]
    by (simp add: print_inst_def)
  then have "read_opcode buf s = Inr (Some (print_opcode (opcode ins)), ?t)" by (simp add: read_opcode_def)
  then show ?thesis
    using read_args_print [OF assms(1), of "slot\<lparr>opcode := opcode ins\<rparr>" rest] by (auto simp: load_instr_def)
qed

text \<open>
  The instructions at the front of the input are loaded, and the loop goes on behind them
  with the last opcode in its buffer.
\<close>

lemma load_loop_prefix:
  assumes "list_all inst_ok insts" "skip_ws s = skip_ws (concat (map print_inst insts) @ rest)"
  obtains out s' where "list_all2 same_inst insts out" "skip_ws s' = skip_ws rest"
    "\<And>m. load_loop text0 (length insts + m) i buf s =
      rbind (load_loop text0 m (i + length insts)
        (if insts = [] then buf else Some (print_opcode (opcode (last insts)))) s') (\<lambda>r. Inr (out @ r))"
  using assms
proof (induction insts arbitrary: i buf s thesis)
  case Nil
  show ?case by (rule Nil.prems(1) [of "[]" s]) (use Nil.prems in \<open>simp_all add: rbind_def split: sum.splits\<close>)
next
  case (Cons ins insts)
  obtain o1 s1 where 1: "load_instr (text0 i) buf s = Inr (o1, Some (print_opcode (opcode ins)), s1)" "same_inst ins o1"
      "skip_ws s1 = skip_ws (concat (map print_inst insts) @ rest)"
    using Cons.prems load_instr_print [of ins s "concat (map print_inst insts) @ rest" "text0 i" buf] by auto
  obtain out s' where 2: "list_all2 same_inst insts out" "skip_ws s' = skip_ws rest"
    "\<And>m. load_loop text0 (length insts + m) (Suc i) (Some (print_opcode (opcode ins))) s1 =
      rbind (load_loop text0 m (Suc i + length insts) (if insts = [] then Some (print_opcode (opcode ins))
        else Some (print_opcode (opcode (last insts)))) s') (\<lambda>r. Inr (out @ r))"
    using Cons.IH [where s = s1 and i = "Suc i" and buf = "Some (print_opcode (opcode ins))"] 1(3) Cons.prems(2) by auto
  show ?case
    by (rule Cons.prems(1) [of "o1 # out" s']) (use 1 2 in \<open>auto simp: rbind_def split: sum.splits\<close>)
qed

text \<open>Behind the end of the file every slot gets the opcode the buffer holds, and no arguments.\<close>

lemma load_instr_end:
  assumes "skip_ws s = []"
  shows "load_instr slot (Some (print_opcode op)) s = Inr (slot\<lparr>opcode := op\<rparr>, Some (print_opcode op), s) \<or>
    load_instr slot (Some (print_opcode op)) s = Inr (slot\<lparr>opcode := op\<rparr>, Some (print_opcode op), [])"
proof -
  have "scan_num conv_u [] = Inr (None, [])" by (simp add: scan_num_def skip_ws_def scan_sign_def)
  then have "scan_line conv_u (Suc n) [] = Inr ([], [])" for n by (simp add: scan_line_def)
  then have "read_args ins [] = Inr (ins, [])" for ins
    by (cases "opcode ins") (simp_all add: read_args_def numeral_2_eq_2 numeral_3_eq_3 store_args_def)
  then show ?thesis using assms by (simp add: load_instr_def read_opcode_def scan_word_def)
qed

lemma load_loop_end:
  assumes "skip_ws s = []"
  shows "load_loop text0 m i (Some (print_opcode op)) s = Inr (map (\<lambda>j. (text0 j)\<lparr>opcode := op\<rparr>) [i..<i + m])"
  using assms
proof (induction m arbitrary: i s)
  case (Suc m)
  have "skip_ws [] = []" by (simp add: skip_ws_def)
  then show ?case using load_instr_end [OF Suc.prems, of "text0 i" op] Suc.IH [of s "Suc i"] Suc.IH [of "[]" "Suc i"] Suc.prems
    by (auto simp: upt_conv_Cons simp del: upt_Suc)
qed simp

lemma load_header:
  assumes "int p < 2 ^ 32" "int n < 2 ^ 32" "fs path = Some (print_args [p, n] @ CHR 0x0A # body)"
  shows "load fs proc0 text0 avail_pid path = rbind (load_loop text0 n 0 None (CHR 0x0A # body)) (\<lambda>insts.
    Inr (proc0\<lparr>pid := avail_pid, bp := PAGE_SIZE, pc := 0, priority := int p,
      code := \<lparr>code_text = insts, code_size = int n\<rparr>\<rparr>, u32 (avail_pid + 1)))"
proof -
  have "scan_nums conv_u 2 (print_args [p, n] @ CHR 0x0A # body) = Inr ([int p, int n], CHR 0x0A # body)"
    using scan_nums_print [of "[p, n]" conv_u "CHR 0x0A # body"] assms(1,2) by (force simp: numeral_2_eq_2)
  then show ?thesis using assms(3) by (simp add: load_def)
qed

lemma load_loop_length: "load_loop text0 k i buf s = Inr out \<Longrightarrow> length out = k"
  by (induction k arbitrary: i buf s out) (auto simp: res_simps split: prod.splits)

lemma load_well_formed:
  assumes "load fs proc0 text0 avail_pid path = Inr (proc, next_pid)"
  shows "code_ok proc \<and> pc proc = 0 \<and> pid proc = avail_pid \<and> next_pid = u32 (avail_pid + 1)"
proof -
  obtain content vs s insts where l: "scan_nums conv_u 2 content = Inr (vs, s)" "\<not> length vs < 2"
      "load_loop text0 (nat (vs ! 1)) 0 None s = Inr insts"
      "proc = proc0\<lparr>pid := avail_pid, bp := PAGE_SIZE, pc := 0, priority := vs ! 0,
         code := \<lparr>code_text = insts, code_size = vs ! 1\<rparr>\<rparr>" "next_pid = u32 (avail_pid + 1)"
    using assms by (auto simp: load_def Let_def res_simps split: option.splits if_splits)
  have "vs ! 1 \<in> set vs" using l(2) by simp
  then have "0 \<le> vs ! 1 \<and> vs ! 1 < 2 ^ 32" using scan_nums_range [OF l(1)] conv_u_bounds by blast
  then show ?thesis using l(4,5) load_loop_length [OF l(3)] by (simp add: code_ok_def)
qed

section \<open>The properties\<close>

definition sample_insts :: "inst_t list" where
  "sample_insts =
     [\<lparr>opcode = CALC, arg_0 = 0, arg_1 = 0, arg_2 = 0\<rparr>, \<lparr>opcode = ALLOC, arg_0 = 300, arg_1 = 4, arg_2 = 0\<rparr>,
      \<lparr>opcode = WRITE, arg_0 = 100, arg_1 = 1, arg_2 = 20\<rparr>]"

text \<open>
  C22: printing a program and loading the file gives the program back: the process has a fresh
  pid, starts at its first instruction, and its code is the printed instruction list, each
  with the arguments it uses, whatever the allocated memory held before.
\<close>

theorem load_print_prog:
  assumes "int p < 2 ^ 32" and "int (length insts) < 2 ^ 32" and "list_all inst_ok insts"
    and "fs path = Some (print_prog p insts)"
  shows "\<exists>proc. load fs proc0 text0 avail_pid path = Inr (proc, u32 (avail_pid + 1)) \<and>
    pid proc = avail_pid \<and> priority proc = int p \<and> pc proc = 0 \<and> code_ok proc \<and>
    list_all2 same_inst insts (code_text (code proc))"
proof -
  let ?body = "concat (map print_inst insts)"
  obtain out s' where out: "list_all2 same_inst insts out"
      "load_loop text0 (length insts) 0 None (CHR 0x0A # ?body) = Inr out"
    using load_loop_prefix [OF assms(3), of "CHR 0x0A # ?body" "[]" text0 0 None] by (metis (no_types, lifting)
      add.right_neutral append.right_neutral load_loop.simps(1) newline_skip rbind_Inr)
  then show ?thesis
    using load_header [OF assms(1,2), of fs path ?body] assms(2,4) load_loop_length [OF out(2)]
    by (simp add: print_prog_def code_ok_def)
qed

theorem load_print_prog_witness:
  "\<exists>proc. load (\<lambda>_. Some (print_prog 1 sample_insts)) (sample_pcb 0 0) (\<lambda>_. hd sample_insts) 1 ''p0s'' = Inr (proc, 2) \<and>
    list_all2 same_inst sample_insts (code_text (code proc))"
  using load_print_prog [of 1 sample_insts "\<lambda>_. Some (print_prog 1 sample_insts)" "''p0s''" "sample_pcb 0 0"
      "\<lambda>_. hd sample_insts" 1]
  by (auto simp: sample_insts_def inst_ok_def inst_args_def)

text \<open>
  C39: a program the loader cannot represent ends the simulator or worse: a missing file and a
  word that is no opcode call \<open>exit(1)\<close>, and a word of ten or more characters where an opcode
  is expected overruns the ten-byte buffer, also behind any number of good instructions.
\<close>

theorem load_rejects:
  assumes "int p < 2 ^ 32" and "int (Suc (length insts + m)) < 2 ^ 32" and "list_all inst_ok insts"
    and "fs good = Some (print_args [p, Suc (length insts + m)] @ CHR 0x0A # concat (map print_inst insts) @ w @ rest)"
    and "w \<noteq> []" and "list_all (\<lambda>c. \<not> is_space c) w" and "rest = [] \<or> is_space (hd rest)"
    and "\<forall>op. c_str w \<noteq> print_opcode op"
    and "fs missing = None"
  shows "load fs proc0 text0 avail_pid missing = Inl (Exit 1) \<and>
    load fs proc0 text0 avail_pid good = Inl (if length w < 10 then Exit 1 else OutOfBounds)"
proof -
  let ?body = "concat (map print_inst insts) @ w @ rest"
  obtain out s' where s': "skip_ws s' = skip_ws (w @ rest)"
    "\<And>m. load_loop text0 (length insts + m) 0 None (CHR 0x0A # ?body) =
      rbind (load_loop text0 m (0 + length insts)
        (if insts = [] then None else Some (print_opcode (opcode (last insts)))) s') (\<lambda>r. Inr (out @ r))"
    using load_loop_prefix [OF assms(3), of "CHR 0x0A # ?body" "w @ rest" text0 0 None thesis] by simp
  have "scan_word s' = (Some w, rest)"
    using scan_word_print [of "[]" w rest] scan_word_skip [OF s'(1)] assms(5-7) by simp
  moreover have "get_opcode w = Inl (Exit 1)"
    using assms(8) [rule_format, of CALC] assms(8) [rule_format, of ALLOC] assms(8) [rule_format, of FREE]
      assms(8) [rule_format, of READ] assms(8) [rule_format, of WRITE] by (simp add: get_opcode_def)
  ultimately have "load_instr slot buf s' = Inl (if length w < 10 then Exit 1 else OutOfBounds)" for slot buf
    by (simp add: load_instr_def read_opcode_def opcode_cap_def)
  then show ?thesis
    using load_header [OF assms(1,2), of fs good ?body] s'(2) [of "Suc m"] assms(4,9) by (simp add: load_def)
qed

theorem load_rejects_witness:
  "load [''p'' \<mapsto> print_args [1, 1] @ CHR 0x0A # ''calculation''] (sample_pcb 0 0) (\<lambda>_. hd sample_insts) 1 ''p'' =
     Inl OutOfBounds"
proof -
  have "c_str ''calculation'' \<noteq> print_opcode op" for op by (cases op) (simp_all add: c_str_def opt_defs)
  then show ?thesis
    using load_rejects [of 1 "[]" 0 "[''p'' \<mapsto> print_args [1, 1] @ CHR 0x0A # ''calculation'']" "''p''" "''calculation''" "[]"
        "''q''" "sample_pcb 0 0" "\<lambda>_. hd sample_insts" 1]
    by (simp add: is_space_def)
qed

text \<open>
  The result of \<open>fscanf\<close> is not checked: a file that ends before the announced number of
  instructions is accepted, and the missing ones repeat the last opcode with whatever
  arguments the allocated memory holds.
\<close>

lemma load_truncated:
  assumes "int p < 2 ^ 32" and "int (length insts + m) < 2 ^ 32" and "list_all inst_ok insts" and "insts \<noteq> []"
    and "fs path = Some (print_args [p, length insts + m] @ CHR 0x0A # concat (map print_inst insts))"
  shows "\<exists>proc out. load fs proc0 text0 avail_pid path = Inr (proc, u32 (avail_pid + 1)) \<and> code_ok proc \<and>
    list_all2 same_inst insts out \<and>
    code_text (code proc) =
      out @ map (\<lambda>j. (text0 j)\<lparr>opcode := opcode (last insts)\<rparr>) [length insts..<length insts + m]"
proof -
  let ?body = "concat (map print_inst insts)"
  obtain out s' where s': "list_all2 same_inst insts out" "skip_ws s' = []"
    "\<And>m. load_loop text0 (length insts + m) 0 None (CHR 0x0A # ?body) =
      rbind (load_loop text0 m (0 + length insts)
        (if insts = [] then None else Some (print_opcode (opcode (last insts)))) s') (\<lambda>r. Inr (out @ r))"
    using load_loop_prefix [OF assms(3), of "CHR 0x0A # ?body" "[]" text0 0 None thesis] by (simp add: skip_ws_def)
  then show ?thesis
    using load_header [OF assms(1,2), of fs path ?body] assms(2,4,5) list_all2_lengthD [OF s'(1)]
    by (simp add: load_loop_end code_ok_def)
qed

lemma load_truncated_witness:
  "\<exists>proc out. load (\<lambda>_. Some (print_args [1, 2] @ CHR 0x0A # print_inst (hd sample_insts))) (sample_pcb 0 0)
      (\<lambda>_. last sample_insts) 1 ''p'' = Inr (proc, 2) \<and>
    code_text (code proc) = out @ [(last sample_insts)\<lparr>opcode := CALC\<rparr>]"
  using load_truncated [of 1 "[hd sample_insts]" 1 "\<lambda>_. Some (print_args [1, 2] @ CHR 0x0A # print_inst (hd sample_insts))"
      "''p''" "sample_pcb 0 0" "\<lambda>_. last sample_insts" 1]
  by (auto simp: sample_insts_def inst_ok_def inst_args_def numeral_2_eq_2)

end
