(* ===== verification/OS_Config.thy ===== *)
theory OS_Config
  imports OS_Types OS_Scan
begin

text \<open>
  \<open>read_config\<close> of \<open>src/os.c\<close>: the configuration file. The scalars are static objects, so
  one that a conversion does not reach is 0; the entries of the allocated arrays and the
  buffer \<open>proc\<close> are indeterminate until they are stored.
\<close>

text \<open>One entry of \<open>ld_processes\<close>; \<open>ld_prio\<close> is \<open>None\<close> where \<open>prio[i]\<close> was never stored.\<close>

record ld_args =
  ld_path :: string
  ld_start_time :: int
  ld_prio :: "int option"

record os_config =
  time_slot :: int
  num_cpus :: int
  num_processes :: int
  memramsz :: int
  memswpsz :: "int list"
  ld_processes :: "ld_args list"

definition path_cap :: nat where "path_cap = 100"

definition proc_dir :: string where "proc_dir = ''input/proc/''"
definition input_dir :: string where "input_dir = ''input/''"

definition nth_or_0 :: "int list \<Rightarrow> nat \<Rightarrow> int" where
  "nth_or_0 vs i = (if i < length vs then vs ! i else 0)"

text \<open>
  \<open>strcat(dst, src)\<close> into a buffer of 100 bytes: the text and its terminator have to fit.
\<close>

definition strcat_path :: "string \<Rightarrow> string \<Rightarrow> string res" where
  "strcat_path dst src = (if length dst + length (c_str src) < path_cap then Inr (dst @ c_str src) else Inl OutOfBounds)"

text \<open>The sizes of the swap devices, each in a call of its own.\<close>

primrec read_swpsz :: "nat \<Rightarrow> string \<Rightarrow> (int list \<times> string) res" where
  "read_swpsz 0 s = Inr ([], s)"
| "read_swpsz (Suc n) s =
     rbind (scan_num conv_d s) (\<lambda>(v, s1).
     rbind (read_swpsz n s1) (\<lambda>(vs, s2).
     Inr ((case v of Some x \<Rightarrow> x | None \<Rightarrow> 0) # vs, s2)))"

text \<open>One pass of the loop over the processes.\<close>

definition read_proc :: "string \<Rightarrow> (ld_args \<times> string) res" where
  "read_proc s =
     rbind (scan_num conv_lu s) (\<lambda>(st, s1).
     case st of
       None \<Rightarrow> Inl UninitRead
     | Some start \<Rightarrow>
         (case scan_word s1 of
            (None, s2) \<Rightarrow> Inl UninitRead
          | (Some proc, s2) \<Rightarrow>
              if length proc < path_cap then
                rbind (scan_num conv_lu s2) (\<lambda>(pr, s3).
                rbind (strcat_path proc_dir proc) (\<lambda>path.
                Inr (\<lparr>ld_path = path, ld_start_time = start, ld_prio = pr\<rparr>,
                     if pr = None then s3 else skip_ws s3)))
              else Inl OutOfBounds))"

primrec read_procs :: "nat \<Rightarrow> string \<Rightarrow> ld_args list res" where
  "read_procs 0 s = Inr []"
| "read_procs (Suc n) s =
     rbind (read_proc s) (\<lambda>(p, s1). rbind (read_procs n s1) (\<lambda>ps. Inr (p # ps)))"

definition read_config :: "(string \<Rightarrow> string option) \<Rightarrow> string \<Rightarrow> os_config res" where
  "read_config fs path =
     (case fs path of
        None \<Rightarrow> Inl (Exit 1)
      | Some content \<Rightarrow>
          rbind (scan_line conv_d 3 content) (\<lambda>(vs, s).
          rbind (scan_line conv_d 1 s) (\<lambda>(ram, s).
          rbind (read_swpsz PAGING_MAX_MMSWP s) (\<lambda>(swp, s).
          rbind (read_procs (nat (nth_or_0 vs 2)) (skip_ws s)) (\<lambda>ps.
          Inr \<lparr>time_slot = nth_or_0 vs 0, num_cpus = nth_or_0 vs 1, num_processes = nth_or_0 vs 2,
               memramsz = nth_or_0 ram 0, memswpsz = swp, ld_processes = ps\<rparr>)))))"

section \<open>Printing a configuration\<close>

text \<open>A configuration file as the program expects it: the path without the directory.\<close>

definition print_entry :: "nat \<times> string \<times> nat \<Rightarrow> string" where
  "print_entry e = (case e of (start, name, pr) \<Rightarrow>
     print_args [start] @ CHR '' '' # name @ print_args [pr] @ [CHR 0x0A])"

definition print_config :: "nat \<Rightarrow> nat \<Rightarrow> nat \<Rightarrow> nat list \<Rightarrow> (nat \<times> string \<times> nat) list \<Rightarrow> string" where
  "print_config slot cpus ram swp es =
     print_args [slot, cpus, length es] @ CHR 0x0A # print_args (ram # swp) @ CHR 0x0A # concat (map print_entry es)"

definition entry_ok :: "nat \<times> string \<times> nat \<Rightarrow> bool" where
  "entry_ok e = (case e of (start, name, pr) \<Rightarrow>
     int start < 2 ^ 64 \<and> int pr < 2 ^ 64 \<and> name \<noteq> [] \<and> length name < 89 \<and>
     list_all (\<lambda>c. \<not> is_space c \<and> c \<noteq> CHR 0x00) name)"

definition entry_args :: "nat \<times> string \<times> nat \<Rightarrow> ld_args" where
  "entry_args e = (case e of (start, name, pr) \<Rightarrow>
     \<lparr>ld_path = proc_dir @ name, ld_start_time = int start, ld_prio = Some (int pr)\<rparr>)"

lemma c_str_id: "list_all (\<lambda>c. c \<noteq> CHR 0x00) s \<Longrightarrow> c_str s = s"
  by (simp add: c_str_def takeWhile_eq_all_conv list_all_iff)

lemma read_proc_print:
  assumes "entry_ok e" "skip_ws s = skip_ws (print_entry e @ rest)"
  shows "\<exists>s'. read_proc s = Inr (entry_args e, s') \<and> skip_ws s' = skip_ws rest"
proof -
  obtain start name pr where e: "e = (start, name, pr)" by (cases e)
  have ok: "int start < 2 ^ 64" "int pr < 2 ^ 64" "name \<noteq> []" "length name < 89"
      "list_all (\<lambda>c. \<not> is_space c) name" "c_str name = name"
    using assms(1) c_str_id [of name] by (auto simp: entry_ok_def e list_all_iff)
  let ?t = "print_args [pr] @ CHR 0x0A # rest"
  have "scan_num conv_lu s = Inr (Some (int start), CHR '' '' # name @ ?t)"
    using scan_num_arg [of conv_lu start "CHR '' '' # name @ ?t"] ok(1)
      scan_num_skip [OF assms(2), of conv_lu] by (simp add: print_entry_def e)
  moreover have "scan_word (CHR '' '' # name @ ?t) = (Some name, ?t)"
    using scan_word_print [of "[CHR '' '']" name ?t] ok(3,5) print_args_front [of "CHR 0x0A # rest" "[pr]"] by simp
  moreover have "scan_num conv_lu ?t = Inr (Some (int pr), CHR 0x0A # rest)"
    using scan_num_arg [of conv_lu pr "CHR 0x0A # rest"] ok(2) by simp
  ultimately show ?thesis
    using ok(4,6) by (simp add: read_proc_def e entry_args_def strcat_path_def path_cap_def proc_dir_def)
qed

lemma read_procs_print:
  assumes "list_all entry_ok es" "skip_ws s = skip_ws (concat (map print_entry es))"
  shows "read_procs (length es) s = Inr (map entry_args es)"
  using assms
proof (induction es arbitrary: s)
  case (Cons e es)
  then obtain s' where "read_proc s = Inr (entry_args e, s')" "skip_ws s' = skip_ws (concat (map print_entry es))"
    using read_proc_print [of e s "concat (map print_entry es)"] by auto
  then show ?case using Cons by simp
qed simp

lemma read_swpsz_print:
  assumes "list_all (\<lambda>n. int n < 2 ^ 31) swp"
  shows "read_swpsz (length swp) (print_args swp @ CHR 0x0A # rest) = Inr (map int swp, CHR 0x0A # rest)"
  using assms
proof (induction swp)
  case (Cons n swp)
  have "print_args (n # swp) @ CHR 0x0A # rest = print_args [n] @ (print_args swp @ CHR 0x0A # rest)"
    by (simp add: print_args_def)
  then have "scan_num conv_d (print_args (n # swp) @ CHR 0x0A # rest) = Inr (Some (int n), print_args swp @ CHR 0x0A # rest)"
    using scan_num_arg [of conv_d n "print_args swp @ CHR 0x0A # rest"] Cons.prems
      print_args_front [of "CHR 0x0A # rest" swp] by simp
  then show ?case using Cons by simp
qed (simp add: print_args_def)

lemma read_swpsz_skip: "skip_ws s = skip_ws t \<Longrightarrow> read_swpsz (Suc n) s = read_swpsz (Suc n) t"
  using scan_num_skip [of s t conv_d] by simp

section \<open>Properties\<close>

text \<open>
  C23: a configuration that is printed and read back is the same: the time slice, the number
  of CPUs, the memory sizes and, in order, the start time, path and priority of every
  process.
\<close>

theorem read_config_print:
  assumes "int slot < 2 ^ 31" and "int cpus < 2 ^ 31" and "int (length es) < 2 ^ 31" and "int ram < 2 ^ 31"
    and "length swp = PAGING_MAX_MMSWP" and "list_all (\<lambda>n. int n < 2 ^ 31) swp" and "list_all entry_ok es"
    and "fs path = Some (print_config slot cpus ram swp es)"
  shows "read_config fs path = Inr \<lparr>time_slot = int slot, num_cpus = int cpus, num_processes = int (length es),
    memramsz = int ram, memswpsz = map int swp, ld_processes = map entry_args es\<rparr>"
proof -
  let ?procs = "concat (map print_entry es)"
  let ?mem = "print_args (ram # swp) @ CHR 0x0A # ?procs"
  have "scan_nums conv_d 3 (print_config slot cpus ram swp es) =
      Inr ([int slot, int cpus, int (length es)], CHR 0x0A # ?mem)"
    using scan_nums_print [of "[slot, cpus, length es]" conv_d "CHR 0x0A # ?mem"] assms(1-3)
    by (force simp: print_config_def numeral_3_eq_3)
  then have 1: "scan_line conv_d 3 (print_config slot cpus ram swp es) =
      Inr ([int slot, int cpus, int (length es)], skip_ws ?mem)"
    by (simp add: scan_line_def)
  have swp: "print_args (ram # swp) = print_args [ram] @ print_args swp" by (simp add: print_args_def)
  obtain sw where sw: "print_args swp @ CHR 0x0A # ?procs = CHR '' '' # sw"
    using assms(5) by (cases swp) (auto simp: print_args_def PAGING_MAX_MMSWP_def)
  have "scan_num conv_d (skip_ws ?mem) = Inr (Some (int ram), print_args swp @ CHR 0x0A # ?procs)"
    using scan_num_arg [of conv_d ram "print_args swp @ CHR 0x0A # ?procs"] assms(4) sw
      scan_num_skip [of "skip_ws ?mem" ?mem conv_d] by (simp add: swp)
  then have 2: "scan_line conv_d 1 (skip_ws ?mem) = Inr ([int ram], skip_ws (print_args swp @ CHR 0x0A # ?procs))"
    by (simp add: scan_line_def)
  have 3: "read_swpsz PAGING_MAX_MMSWP (skip_ws (print_args swp @ CHR 0x0A # ?procs)) = Inr (map int swp, CHR 0x0A # ?procs)"
    using read_swpsz_skip [of "skip_ws (print_args swp @ CHR 0x0A # ?procs)" "print_args swp @ CHR 0x0A # ?procs" 3]
      read_swpsz_print [OF assms(6), of ?procs] assms(5) by (simp add: PAGING_MAX_MMSWP_def)
  have "read_procs (length es) (skip_ws (CHR 0x0A # ?procs)) = Inr (map entry_args es)"
    by (rule read_procs_print [OF assms(7)]) simp
  then show ?thesis using 1 2 3 assms(8) by (simp add: read_config_def nth_or_0_def)
qed

theorem read_config_print_witness:
  "read_config (\<lambda>_. Some (print_config 6 2 1048576 [16777216, 0, 0, 0] [(0, ''p0s'', 0), (2, ''p1s'', 15)])) ''input/os'' =
    Inr \<lparr>time_slot = 6, num_cpus = 2, num_processes = 2, memramsz = 1048576, memswpsz = [16777216, 0, 0, 0],
      ld_processes = [\<lparr>ld_path = ''input/proc/p0s'', ld_start_time = 0, ld_prio = Some 0\<rparr>,
        \<lparr>ld_path = ''input/proc/p1s'', ld_start_time = 2, ld_prio = Some 15\<rparr>]\<rparr>"
  using read_config_print [of 6 2 "[(0, ''p0s'', 0), (2, ''p1s'', 15)]" 1048576 "[16777216, 0, 0, 0]"
      "\<lambda>_. Some (print_config 6 2 1048576 [16777216, 0, 0, 0] [(0, ''p0s'', 0), (2, ''p1s'', 15)])" "''input/os''"]
  by (simp add: entry_ok_def entry_args_def proc_dir_def is_space_def PAGING_MAX_MMSWP_def)

lemma read_config_num_processes:
  assumes "read_config fs path = Inr cfg"
  shows "num_processes cfg < 2 ^ 31"
proof -
  obtain content vs s where v: "scan_line conv_d 3 content = Inr (vs, s)" "num_processes cfg = nth_or_0 vs 2"
    using assms by (auto simp: read_config_def res_simps split: option.splits)
  obtain s1 where s1: "scan_nums conv_d 3 content = Inr (vs, s1)" using v(1) by (auto simp: scan_line_def res_simps)
  have "x < 2 ^ 31" if "x \<in> set vs" for x
    using scan_nums_range [OF s1] that by (auto simp: conv_d_def split: if_splits)
  then show ?thesis using v(2) by (auto simp: nth_or_0_def)
qed

lemma sample_config_text:
  "read_config (\<lambda>_. Some ''2 1 0 1024 4096 0 0 0'') path =
    Inr \<lparr>time_slot = 2, num_cpus = 1, num_processes = 0, memramsz = 1024, memswpsz = [4096, 0, 0, 0], ld_processes = []\<rparr>"
proof -
  have "read_config (\<lambda>_. Some ''2 1 0 1024 4096 0 0 0'') '''' =
      Inr \<lparr>time_slot = 2, num_cpus = 1, num_processes = 0, memramsz = 1024, memswpsz = [4096, 0, 0, 0], ld_processes = []\<rparr>"
    by code_simp
  then show ?thesis by (simp add: read_config_def)
qed

lemma read_swpsz_length: "read_swpsz n s = Inr (vs, s') \<Longrightarrow> length vs = n"
  by (induction n arbitrary: s vs) (auto simp: res_simps)

lemma read_config_swaps:
  assumes "read_config fs path = Inr cfg"
  shows "length (memswpsz cfg) = PAGING_MAX_MMSWP"
  using assms read_swpsz_length by (auto simp: read_config_def res_simps split: option.splits)

end
