(* ===== verification/OS_Threads.thy ===== *)
theory OS_Threads
  imports OS_Loader OS_Config
begin

text \<open>
  The thread bodies of \<open>src/os.c\<close>. The code of a thread between two calls of \<open>next_slot\<close> is one
  function: it starts where \<open>next_slot\<close> returned and ends at the next call or at the end of
  the thread. A control block belongs to one queue, one CPU or the loader at a time, so it
  is a value that moves between them.
\<close>

section \<open>Shared state\<close>

text \<open>
  \<open>m_swp\<close> is \<open>mswp[0]\<close>, the active swap device of every process; \<open>m_idle_swp\<close> are the other
  swap devices, which are initialised and never used.
\<close>

record machine =
  m_sched :: sched
  m_ram :: memphy_struct
  m_swp :: memphy_struct
  m_idle_swp :: "memphy_struct list"
  m_done :: bool

datatype slot_end = Next_slot | Thread_end

section \<open>\<open>cpu_routine\<close>\<close>

record cpu_state =
  cpu_proc :: "pcb_t option"
  time_left :: int

definition cpu_start :: cpu_state where
  "cpu_start = \<lparr>cpu_proc = None, time_left = 0\<rparr>"

type_synonym cpu_slot_res = "(slot_end \<times> cpu_state \<times> machine) res"

text \<open>From the recheck after loading a new process to \<open>next_slot\<close>.\<close>

definition cpu_recheck :: "int \<Rightarrow> cpu_state \<Rightarrow> machine \<Rightarrow> cpu_slot_res" where
  "cpu_recheck ts c m =
     (case cpu_proc c of
        None \<Rightarrow> Inr (if m_done m then Thread_end else Next_slot, c, m)
      | Some p \<Rightarrow>
          (let left = (if time_left c = 0 then ts else time_left c)
           in rbind (run p (m_ram m) (m_swp m)) (\<lambda>(_, p', ram, sw).
              rbind (s32_arith (left - 1)) (\<lambda>left'.
              Inr (Next_slot, \<lparr>cpu_proc = Some p', time_left = left'\<rparr>, m\<lparr>m_ram := ram, m_swp := sw\<rparr>)))))"

text \<open>The call of \<open>get_proc\<close> and what follows it.\<close>

definition cpu_get :: "int \<Rightarrow> int \<Rightarrow> machine \<Rightarrow> cpu_slot_res" where
  "cpu_get ts left m =
     rbind (get_proc (m_sched m)) (\<lambda>(p, s).
     cpu_recheck ts \<lparr>cpu_proc = p, time_left = left\<rparr> (m\<lparr>m_sched := s\<rparr>))"

definition cpu_routine :: "int \<Rightarrow> cpu_state \<Rightarrow> machine \<Rightarrow> cpu_slot_res" where
  "cpu_routine ts c m =
     (case cpu_proc c of
        None \<Rightarrow>
          rbind (get_proc (m_sched m)) (\<lambda>(p, s).
          if p = None then Inr (Next_slot, c, m\<lparr>m_sched := s\<rparr>)
          else cpu_recheck ts (c\<lparr>cpu_proc := p\<rparr>) (m\<lparr>m_sched := s\<rparr>))
      | Some p \<Rightarrow>
          if pc p = code_size (code p) then
            rbind (MEMPHY_dump (m_ram m)) (\<lambda>_. cpu_get ts 0 m)
          else if time_left c = 0 then
            rbind (put_proc (m_sched m) p) (\<lambda>s. cpu_get ts (time_left c) (m\<lparr>m_sched := s\<rparr>))
          else cpu_recheck ts c m)"

section \<open>\<open>ld_routine\<close>\<close>

text \<open>
  \<open>ld_pending\<close> is the process that waits for its start time. The environment holds the files
  and what \<open>malloc\<close> returns for the \<open>i\<close>-th process.
\<close>

record ld_state =
  ld_i :: nat
  ld_pending :: "pcb_t option"
  avail_pid :: int

record ld_env =
  env_fs :: "string \<Rightarrow> string option"
  env_pcb :: "nat \<Rightarrow> pcb_t"
  env_text :: "nat \<Rightarrow> nat \<Rightarrow> inst_t"
  env_mm :: "nat \<Rightarrow> mm_struct"
  env_link :: "nat \<Rightarrow> rg_ptr"

definition ld_start :: ld_state where
  "ld_start = \<lparr>ld_i = 0, ld_pending = None, avail_pid = 1\<rparr>"

type_synonym ld_slot_res = "(slot_end \<times> ld_state \<times> machine) res"

text \<open>From the test of the start time to the next call of \<open>next_slot\<close>.\<close>

definition ld_admit :: "ld_env \<Rightarrow> int \<Rightarrow> ld_args \<Rightarrow> pcb_t \<Rightarrow> ld_state \<Rightarrow> machine \<Rightarrow> ld_slot_res" where
  "ld_admit env now a p l m =
     (if now < ld_start_time a then Inr (Next_slot, l\<lparr>ld_pending := Some p\<rparr>, m)
      else
        rbind (init_mm (env_mm env (ld_i l)) (env_link env (ld_i l))) (\<lambda>(_, mm).
        rbind (add_proc (m_sched m) (p\<lparr>p_mm := Some mm\<rparr>)) (\<lambda>s.
        Inr (Next_slot, l\<lparr>ld_i := Suc (ld_i l), ld_pending := None\<rparr>, m\<lparr>m_sched := s\<rparr>))))"

definition ld_load :: "ld_env \<Rightarrow> ld_args \<Rightarrow> ld_state \<Rightarrow> (pcb_t \<times> ld_state) res" where
  "ld_load env a l =
     rbind (load (env_fs env) (env_pcb env (ld_i l)) (env_text env (ld_i l)) (avail_pid l) (ld_path a)) (\<lambda>(p, nxt).
     case ld_prio a of
       None \<Rightarrow> Inl UninitRead
     | Some pr \<Rightarrow> Inr (p\<lparr>prio := u32 pr\<rparr>, l\<lparr>avail_pid := nxt\<rparr>))"

definition ld_routine :: "ld_env \<Rightarrow> os_config \<Rightarrow> int \<Rightarrow> ld_state \<Rightarrow> machine \<Rightarrow> ld_slot_res" where
  "ld_routine env cfg now l m =
     (if int (ld_i l) < num_processes cfg then
        rbind (arr_get (ld_processes cfg) (ld_i l)) (\<lambda>a.
        case ld_pending l of
          Some p \<Rightarrow> ld_admit env now a p l m
        | None \<Rightarrow> rbind (ld_load env a l) (\<lambda>(p, l). ld_admit env now a p l m))
      else Inr (Thread_end, l, m\<lparr>m_done := True\<rparr>))"

section \<open>What a slot of a CPU does\<close>

text \<open>The process is at its end, and the slot releases it.\<close>

definition finishing :: "cpu_state \<Rightarrow> int multiset" where
  "finishing c = (case cpu_proc c of
     Some p \<Rightarrow> if pc p = code_size (code p) then {#pid p#} else {#}
   | None \<Rightarrow> {#})"

definition cpu_ok :: "int \<Rightarrow> cpu_state \<Rightarrow> bool" where
  "cpu_ok ts c \<longleftrightarrow> 0 \<le> time_left c \<and> time_left c < ts \<and> (cpu_proc c = None \<longrightarrow> time_left c = 0)"

text \<open>The code segments of all processes of a collection are in order.\<close>

definition codes_ok :: "pcb_t multiset \<Rightarrow> bool" where
  "codes_ok M \<longleftrightarrow> (\<forall>p \<in># M. code_ok p)"

lemma codes_ok_simps [simp]:
  "codes_ok {#}" "codes_ok (add_mset p M) \<longleftrightarrow> code_ok p \<and> codes_ok M" "codes_ok (M + N) \<longleftrightarrow> codes_ok M \<and> codes_ok N"
  by (auto simp: codes_ok_def)

text \<open>The processes a CPU and the scheduler hold.\<close>

definition held :: "cpu_state \<Rightarrow> machine \<Rightarrow> pcb_t multiset" where
  "held c m = opt_mset (cpu_proc c) + queued (m_sched m)"

lemma on_mm_keeps:
  assumes "on_mm p ram sw f = Inr (r, p', ram', sw')"
  shows "\<exists>mm. p' = p\<lparr>p_mm := mm\<rparr>"
  using assms by (auto simp: on_mm_def res_simps split: option.splits prod.splits)

lemma run_keeps:
  assumes "run p ram sw = Inr (r, p', ram', sw')"
  shows "pid p' = pid p \<and> prio p' = prio p \<and> code p' = code p" "code_ok p \<Longrightarrow> code_ok p'"
proof -
  consider "p' = p" | ins mm where "\<not> pc p \<ge> code_size (code p)" "p' = p\<lparr>pc := u32 (pc p + 1), p_mm := mm\<rparr>"
    | "\<not> pc p \<ge> code_size (code p)" "p' = p\<lparr>pc := u32 (pc p + 1)\<rparr>"
    using assms by (auto simp: run_def Let_def res_simps split: if_splits dest!: on_mm_keeps)
  then show "pid p' = pid p \<and> prio p' = prio p \<and> code p' = code p" "code_ok p \<Longrightarrow> code_ok p'"
    by (cases; simp add: code_ok_def)+
qed

lemma cpu_recheck_cases:
  assumes "cpu_recheck ts c m = Inr (e, c', m')"
  obtains (idle) "cpu_proc c = None" "c' = c" "m' = m" "e = (if m_done m then Thread_end else Next_slot)"
  | (run) p p' r ram sw where "cpu_proc c = Some p" "run p (m_ram m) (m_swp m) = Inr (r, p', ram, sw)"
      "c' = \<lparr>cpu_proc = Some p', time_left = (if time_left c = 0 then ts else time_left c) - 1\<rparr>"
      "m' = m\<lparr>m_ram := ram, m_swp := sw\<rparr>" "e = Next_slot"
  using assms
  by (cases "cpu_proc c")
    (auto simp: cpu_recheck_def Let_def res_simps s32_arith_def split: if_splits)

lemma cpu_recheck_held:
  assumes "cpu_recheck ts c m = Inr (e, c', m')"
  shows "m_sched m' = m_sched m" "m_done m' = m_done m" "image_mset pid (held c' m') = image_mset pid (held c m)"
    "codes_ok (held c m) \<Longrightarrow> codes_ok (held c' m')"
    "0 < ts \<Longrightarrow> 0 \<le> time_left c \<Longrightarrow> time_left c < ts \<Longrightarrow> (cpu_proc c = None \<longrightarrow> time_left c = 0) \<Longrightarrow> cpu_ok ts c'"
  using assms by (cases rule: cpu_recheck_cases; force simp: held_def opt_mset_def cpu_ok_def dest: run_keeps)+

lemma cpu_get_held:
  assumes "sched_ok (m_sched m)" "cpu_get ts 0 m = Inr (e, c', m')"
  shows "sched_ok (m_sched m')" "m_done m' = m_done m" "image_mset pid (held c' m') = image_mset pid (queued (m_sched m))"
    "codes_ok (queued (m_sched m)) \<Longrightarrow> codes_ok (held c' m')" "0 < ts \<Longrightarrow> cpu_ok ts c'"
proof -
  obtain p s where g: "get_proc (m_sched m) = Inr (p, s)"
      "cpu_recheck ts \<lparr>cpu_proc = p, time_left = 0\<rparr> (m\<lparr>m_sched := s\<rparr>) = Inr (e, c', m')"
    using assms(2) by (auto simp: cpu_get_def res_simps)
  note q = queued_get [OF assms(1) g(1)] get_proc_policy(1) [OF assms(1) g(1)]
  show "sched_ok (m_sched m')" "m_done m' = m_done m" "image_mset pid (held c' m') = image_mset pid (queued (m_sched m))"
    "codes_ok (queued (m_sched m)) \<Longrightarrow> codes_ok (held c' m')" "0 < ts \<Longrightarrow> cpu_ok ts c'"
    using cpu_recheck_held [OF g(2)] q by (simp_all add: held_def)
qed

text \<open>The branches of one slot, in terms of the two helper functions.\<close>

lemma cpu_routine_cases:
  assumes "cpu_routine ts c m = Inr (e, c', m')" "sched_ok (m_sched m)" "cpu_proc c = None \<longrightarrow> time_left c = 0"
  obtains (idle) s where "cpu_proc c = None" "get_proc (m_sched m) = Inr (None, s)" "e = Next_slot" "c' = c"
      "m' = m\<lparr>m_sched := s\<rparr>"
  | (load) p s where "cpu_proc c = None" "get_proc (m_sched m) = Inr (Some p, s)" "cpu_get ts 0 m = Inr (e, c', m')"
  | (finished) p where "cpu_proc c = Some p" "pc p = code_size (code p)" "cpu_get ts 0 m = Inr (e, c', m')"
  | (expired) p s where "cpu_proc c = Some p" "pc p \<noteq> code_size (code p)" "time_left c = 0"
      "put_proc (m_sched m) p = Inr s" "cpu_get ts 0 (m\<lparr>m_sched := s\<rparr>) = Inr (e, c', m')"
  | (goes_on) p where "cpu_proc c = Some p" "pc p \<noteq> code_size (code p)" "time_left c \<noteq> 0"
      "cpu_recheck ts c m = Inr (e, c', m')"
proof (cases "cpu_proc c")
  case None
  obtain p s where g: "get_proc (m_sched m) = Inr (p, s)" using assms(1) None by (auto simp: cpu_routine_def res_simps)
  have c: "c = \<lparr>cpu_proc = None, time_left = 0\<rparr>" using None assms(3) by (cases c) auto
  show thesis
  proof (cases p)
    case None
    then show thesis using idle g assms(1) \<open>cpu_proc c = None\<close> by (simp add: cpu_routine_def)
  next
    case (Some x)
    then show thesis using load [of x s] g assms(1) \<open>cpu_proc c = None\<close> c by (simp add: cpu_routine_def cpu_get_def)
  qed
next
  case (Some p)
  consider "pc p = code_size (code p)" | "pc p \<noteq> code_size (code p)" "time_left c = 0"
    | "pc p \<noteq> code_size (code p)" "time_left c \<noteq> 0" by blast
  then show thesis
    using Some assms(1) finished expired goes_on by cases (auto simp: cpu_routine_def res_simps)
qed

text \<open>
  One slot of a CPU: the scheduler stays well formed, no process is lost or doubled, and the
  code segments stay intact.
\<close>

lemma cpu_routine_held:
  assumes ok: "sched_ok (m_sched m)" "cpu_ok ts c" "0 < ts" and run: "cpu_routine ts c m = Inr (e, c', m')"
  shows "sched_ok (m_sched m')" "m_done m' = m_done m"
    "image_mset pid (held c m) = image_mset pid (held c' m') + finishing c" "cpu_ok ts c'"
    "codes_ok (held c m) \<Longrightarrow> codes_ok (held c' m')"
proof -
  have "cpu_proc c = None \<longrightarrow> time_left c = 0" using ok(2) by (simp add: cpu_ok_def)
  with run ok(1) have "sched_ok (m_sched m') \<and> m_done m' = m_done m \<and>
    image_mset pid (held c m) = image_mset pid (held c' m') + finishing c \<and> cpu_ok ts c' \<and>
    (codes_ok (held c m) \<longrightarrow> codes_ok (held c' m'))"
  proof (cases rule: cpu_routine_cases)
    case (idle s)
    then show ?thesis using queued_get [OF ok(1) idle(2)] get_proc_policy(1) [OF ok(1) idle(2)] ok(2)
      by (simp add: held_def opt_mset_def finishing_def)
  next
    case (load p s)
    then show ?thesis using cpu_get_held [OF ok(1) load(3)] ok(3) by (simp add: held_def opt_mset_def finishing_def)
  next
    case (finished p)
    then show ?thesis using cpu_get_held [OF ok(1) finished(3)] ok(3) by (simp add: held_def opt_mset_def finishing_def)
  next
    case (expired p s)
    have s: "sched_ok s" "queued s = add_mset p (queued (m_sched m))"
      using put_proc_Inr(1) [OF ok(1) expired(4)] queued_put [OF ok(1) expired(4)] .
    have "sched_ok (m_sched (m\<lparr>m_sched := s\<rparr>))" using s(1) by simp
    note g = cpu_get_held [OF this expired(5)]
    have "held c m = queued s" "finishing c = {#}" using expired(1,2) s(2) by (simp_all add: held_def opt_mset_def finishing_def)
    then show ?thesis using g ok(3) by simp
  next
    case (goes_on p)
    then show ?thesis using cpu_recheck_held [OF goes_on(4)] ok by (simp add: cpu_ok_def finishing_def)
  qed
  then show "sched_ok (m_sched m')" "m_done m' = m_done m"
    "image_mset pid (held c m) = image_mset pid (held c' m') + finishing c" "cpu_ok ts c'"
    "codes_ok (held c m) \<Longrightarrow> codes_ok (held c' m')" by blast+
qed

text \<open>A CPU thread ends only in a slot that gives a process up and finds no other one.\<close>

lemma cpu_recheck_end:
  assumes "cpu_recheck ts c m = Inr (Thread_end, c', m')"
  shows "cpu_proc c = None" "c' = c" "m_done m"
  using assms by (cases rule: cpu_recheck_cases; simp split: if_splits)+

lemma cpu_get_end:
  assumes "cpu_get ts left m = Inr (Thread_end, c', m')"
  shows "m_done m" "cpu_proc c' = None" "\<exists>s. get_proc (m_sched m) = Inr (None, s)"
proof -
  obtain p s where g: "get_proc (m_sched m) = Inr (p, s)"
      "cpu_recheck ts \<lparr>cpu_proc = p, time_left = left\<rparr> (m\<lparr>m_sched := s\<rparr>) = Inr (Thread_end, c', m')"
    using assms by (auto simp: cpu_get_def res_simps)
  show "m_done m" "cpu_proc c' = None" "\<exists>s. get_proc (m_sched m) = Inr (None, s)"
    using cpu_recheck_end [OF g(2)] g(1) by simp_all
qed

lemma cpu_thread_end:
  assumes "cpu_routine ts c m = Inr (Thread_end, c', m')" "sched_ok (m_sched m)" "cpu_proc c = None \<longrightarrow> time_left c = 0"
  shows "m_done m \<and> cpu_proc c \<noteq> None \<and> cpu_proc c' = None"
  using assms
proof (cases rule: cpu_routine_cases)
  case (load p s)
  then show ?thesis using cpu_get_end(3) [OF load(3)] by simp
next
  case (finished p)
  then show ?thesis using cpu_get_end(1,2) [OF finished(3)] by simp
next
  case (expired p s)
  then show ?thesis using cpu_get_end(1,2) [OF expired(5)] by simp
next
  case (goes_on p)
  then show ?thesis using cpu_recheck_end [OF goes_on(4)] by simp
qed simp

section \<open>What a slot of the loader does\<close>

definition loaded :: "ld_state \<Rightarrow> nat" where
  "loaded l = ld_i l + (if ld_pending l = None then 0 else 1)"

text \<open>The processes the loader and the scheduler hold.\<close>

definition pending_held :: "ld_state \<Rightarrow> machine \<Rightarrow> pcb_t multiset" where
  "pending_held l m = opt_mset (ld_pending l) + queued (m_sched m)"

lemma add_eq_put_proc: "add_proc s p = put_proc s p"
  by (simp add: add_proc_def put_proc_def add_eq_put)

lemma ld_admit_cases:
  assumes "ld_admit env now a p l m = Inr (e, l', m')" "sched_ok (m_sched m)"
  obtains (waits) "now < ld_start_time a" "e = Next_slot" "l' = l\<lparr>ld_pending := Some p\<rparr>" "m' = m"
  | (admits) mm s r where "ld_start_time a \<le> now" "e = Next_slot" "l' = l\<lparr>ld_i := Suc (ld_i l), ld_pending := None\<rparr>"
      "m' = m\<lparr>m_sched := s\<rparr>" "sched_ok s" "queued s = add_mset (p\<lparr>p_mm := Some mm\<rparr>) (queued (m_sched m))"
      "init_mm (env_mm env (ld_i l)) (env_link env (ld_i l)) = Inr (r, mm)"
proof (cases "now < ld_start_time a")
  case True
  then show thesis using waits assms(1) by (simp add: ld_admit_def)
next
  case False
  then obtain r mm s where "add_proc (m_sched m) (p\<lparr>p_mm := Some mm\<rparr>) = Inr s" "e = Next_slot"
      "l' = l\<lparr>ld_i := Suc (ld_i l), ld_pending := None\<rparr>" "m' = m\<lparr>m_sched := s\<rparr>"
      "init_mm (env_mm env (ld_i l)) (env_link env (ld_i l)) = Inr (r, mm)"
    using assms(1) by (auto simp: ld_admit_def res_simps)
  then show thesis
    using admits False put_proc_Inr(1) [OF assms(2)] queued_put [OF assms(2)] by (simp add: add_eq_put_proc)
qed

lemma ld_load_Inr:
  assumes "ld_load env a l = Inr (p, l')"
  shows "l' = l\<lparr>avail_pid := u32 (avail_pid l + 1)\<rparr>" "pid p = avail_pid l" "code_ok p" "pc p = 0"
    "\<exists>pr. ld_prio a = Some pr \<and> prio p = u32 pr"
proof -
  obtain q nxt pr where q: "load (env_fs env) (env_pcb env (ld_i l)) (env_text env (ld_i l)) (avail_pid l) (ld_path a) = Inr (q, nxt)"
      "ld_prio a = Some pr" "p = q\<lparr>prio := u32 pr\<rparr>" "l' = l\<lparr>avail_pid := nxt\<rparr>"
    using assms by (auto simp: ld_load_def res_simps split: option.splits)
  note load_well_formed [OF q(1)]
  then show "l' = l\<lparr>avail_pid := u32 (avail_pid l + 1)\<rparr>" "pid p = avail_pid l" "code_ok p" "pc p = 0"
    "\<exists>pr. ld_prio a = Some pr \<and> prio p = u32 pr"
    using q(2-4) by (simp_all add: code_ok_def)
qed

lemma ld_routine_cases:
  assumes "ld_routine env cfg now l m = Inr (e, l', m')"
  obtains (ends) "num_processes cfg \<le> int (ld_i l)" "e = Thread_end" "l' = l" "m' = m\<lparr>m_done := True\<rparr>"
  | (waiting) a p where "int (ld_i l) < num_processes cfg" "ld_i l < length (ld_processes cfg)" "a = ld_processes cfg ! ld_i l"
      "ld_pending l = Some p" "ld_admit env now a p l m = Inr (e, l', m')"
  | (loading) a p l1 where "int (ld_i l) < num_processes cfg" "ld_i l < length (ld_processes cfg)" "a = ld_processes cfg ! ld_i l"
      "ld_pending l = None" "ld_load env a l = Inr (p, l1)" "ld_admit env now a p l1 m = Inr (e, l', m')"
proof (cases "int (ld_i l) < num_processes cfg")
  case True
  then have i: "ld_i l < length (ld_processes cfg)"
    using assms by (auto simp: ld_routine_def arr_get_def split: if_splits)
  show thesis
  proof (cases "ld_pending l")
    case None
    then obtain p l1 where "ld_load env (ld_processes cfg ! ld_i l) l = Inr (p, l1)"
        "ld_admit env now (ld_processes cfg ! ld_i l) p l1 m = Inr (e, l', m')"
      using assms True i by (auto simp: ld_routine_def res_simps)
    then show thesis using loading True i None by blast
  next
    case (Some p)
    then show thesis using waiting True i assms by (simp add: ld_routine_def)
  qed
next
  case False
  then show thesis using ends assms by (simp add: ld_routine_def)
qed

text \<open>
  One slot of the loader: at most one process is created, with the next pid, and none is
  lost.
\<close>

definition ld_created :: "ld_state \<Rightarrow> ld_state \<Rightarrow> int multiset" where
  "ld_created l l' = (if loaded l < loaded l' then {#avail_pid l#} else {#})"

lemma code_ok_mm [simp]: "code_ok (p\<lparr>p_mm := x\<rparr>) = code_ok p"
  by (simp add: code_ok_def)

lemma ld_admit_held:
  assumes "ld_admit env now a p l m = Inr (e, l', m')" "sched_ok (m_sched m)"
  shows "sched_ok (m_sched m') \<and> m_done m' = m_done m \<and> avail_pid l' = avail_pid l \<and> loaded l' = Suc (ld_i l) \<and>
    e = Next_slot \<and>
    image_mset pid (pending_held l' m') = add_mset (pid p) (image_mset pid (queued (m_sched m))) \<and>
    (code_ok p \<and> codes_ok (queued (m_sched m)) \<longrightarrow> codes_ok (pending_held l' m'))"
  using assms
proof (cases rule: ld_admit_cases)
  case waits
  then show ?thesis using assms(2) by (simp add: loaded_def pending_held_def opt_mset_def)
next
  case (admits mm s)
  have "pending_held l' m' = add_mset (p\<lparr>p_mm := Some mm\<rparr>) (queued (m_sched m))"
    using admits(3,4,6) by (simp add: pending_held_def opt_mset_def)
  then show ?thesis using admits(2-5) by (simp add: loaded_def)
qed

lemma ld_routine_held:
  assumes run: "ld_routine env cfg now l m = Inr (e, l', m')" and ok: "sched_ok (m_sched m)"
  shows "sched_ok (m_sched m')"
    "image_mset pid (pending_held l' m') = image_mset pid (pending_held l m) + ld_created l l'"
    "avail_pid l' = (if loaded l < loaded l' then u32 (avail_pid l + 1) else avail_pid l)"
    "loaded l' = loaded l \<or> loaded l' = Suc (loaded l) \<and> int (loaded l) < num_processes cfg"
    "codes_ok (pending_held l m) \<Longrightarrow> codes_ok (pending_held l' m')"
proof -
  have "sched_ok (m_sched m') \<and> image_mset pid (pending_held l' m') = image_mset pid (pending_held l m) + ld_created l l' \<and>
    avail_pid l' = (if loaded l < loaded l' then u32 (avail_pid l + 1) else avail_pid l) \<and>
    (loaded l' = loaded l \<or> loaded l' = Suc (loaded l) \<and> int (loaded l) < num_processes cfg) \<and>
    (codes_ok (pending_held l m) \<longrightarrow> codes_ok (pending_held l' m'))"
    using run
  proof (cases rule: ld_routine_cases)
    case ends
    then show ?thesis using ok by (simp add: pending_held_def ld_created_def)
  next
    case (waiting a p)
    have n: "loaded l' = loaded l" using ld_admit_held [OF waiting(5) ok] waiting(4) by (simp add: loaded_def)
    have h: "pending_held l m = add_mset p (queued (m_sched m))" using waiting(4) by (simp add: pending_held_def opt_mset_def)
    show ?thesis using ld_admit_held [OF waiting(5) ok] unfolding ld_created_def n h by simp
  next
    case (loading a p l1)
    note l1 = ld_load_Inr [OF loading(5)]
    have n: "loaded l' = Suc (loaded l)" "int (loaded l) < num_processes cfg"
      using ld_admit_held [OF loading(6) ok] l1(1) loading(1,4) by (simp_all add: loaded_def)
    have h: "pending_held l m = queued (m_sched m)" using loading(4) by (simp add: pending_held_def opt_mset_def)
    show ?thesis using ld_admit_held [OF loading(6) ok] l1(1-3) n(2) unfolding ld_created_def n(1) h by simp
  qed
  then show "sched_ok (m_sched m')"
    "image_mset pid (pending_held l' m') = image_mset pid (pending_held l m) + ld_created l l'"
    "avail_pid l' = (if loaded l < loaded l' then u32 (avail_pid l + 1) else avail_pid l)"
    "loaded l' = loaded l \<or> loaded l' = Suc (loaded l) \<and> int (loaded l) < num_processes cfg"
    "codes_ok (pending_held l m) \<Longrightarrow> codes_ok (pending_held l' m')" by blast+
qed

section \<open>The time slice\<close>









section \<open>Properties\<close>

definition sample_machine :: machine where
  "sample_machine = \<lparr>m_sched = init_scheduler static_sched, m_ram = sample_dev 1024 [0, 1, 2, 3],
     m_swp = sample_dev 4096 [0, 1, 2, 3], m_idle_swp = [], m_done = False\<rparr>"

lemma sample_queue_empty: "queued (init_scheduler static_sched) = {#}"
  by (simp add: queued_def level_mset_empty)

lemma sample_get: "get_proc (init_scheduler static_sched) = Inr (None, init_scheduler static_sched)"
  by (rule pool.get_none [OF init_sched_ok sample_queue_empty])






text \<open>
  A slot of a CPU: the scheduler stays well formed and the CPU within its time slice; the
  processes the CPU and the queues hold afterwards are those they held before, except the
  one that had finished, and the CPU thread ends only after the loader is done, in a slot
  in which it gives a process up.
\<close>

lemma cpu_slot_conserves:
  assumes "sched_ok (m_sched m)" and "cpu_ok ts c" and "0 < ts" and "cpu_routine ts c m = Inr (e, c', m')"
  shows "sched_ok (m_sched m') \<and> cpu_ok ts c' \<and>
    image_mset pid (held c m) = image_mset pid (held c' m') + finishing c \<and>
    (e = Thread_end \<longrightarrow> m_done m \<and> cpu_proc c \<noteq> None \<and> cpu_proc c' = None)"
proof -
  have "cpu_proc c = None \<longrightarrow> time_left c = 0" using assms(2) by (simp add: cpu_ok_def)
  then show ?thesis
    using cpu_routine_held [OF assms] cpu_thread_end [of ts c m c' m'] assms(1,4) by auto
qed

text \<open>A CPU whose process has just finished.\<close>

definition sample_finished :: cpu_state where
  "sample_finished = \<lparr>cpu_proc = Some ((sample_pcb 1 0)\<lparr>pc := 1\<rparr>), time_left = 1\<rparr>"

lemma cpu_slot_conserves_witness:
  "cpu_routine 4 sample_finished (sample_machine\<lparr>m_done := True\<rparr>) = Inr (Thread_end, cpu_start, sample_machine\<lparr>m_done := True\<rparr>) \<and>
    image_mset pid (held sample_finished (sample_machine\<lparr>m_done := True\<rparr>)) = {#1#}"
proof -
  have r: "cpu_routine 4 sample_finished (sample_machine\<lparr>m_done := True\<rparr>) = Inr (Thread_end, cpu_start, sample_machine\<lparr>m_done := True\<rparr>)"
    using sample_get by (simp add: cpu_routine_def sample_finished_def sample_machine_def sample_pcb_def cpu_get_def
        cpu_recheck_def cpu_start_def MEMPHY_dump_def MEMPHY_dump_file_def sample_dev_def)
  have "cpu_ok 4 sample_finished" by (simp add: cpu_ok_def sample_finished_def)
  then show ?thesis
    using cpu_slot_conserves [OF _ _ _ r] r init_sched_ok sample_queue_empty
    by (simp add: sample_machine_def held_def cpu_start_def opt_mset_def finishing_def sample_finished_def sample_pcb_def)
qed

end
