(* ===== verification/OS_Timer.thy ===== *)
theory OS_Timer
  imports OS_Prelude
begin

text \<open>
  \<open>src/timer.c\<close>: the barrier that keeps the threads of the simulator in the same time slot.
  Every thread owns a device of the list \<open>dev_list\<close>; \<open>next_slot\<close> posts \<open>done\<close> and sleeps
  until the timer thread has seen every device and clears \<open>done\<close> again. A step of the
  model is one critical section (the two locks of a device make it atomic) with the signal it
  sends, or a wake-up; \<open>pthread_cond_wait\<close> may also return without a signal. A device is
  named by its position in the list, which is fixed once the timer has started.
\<close>

section \<open>What a barrier promises\<close>

text \<open>
  The contract of a timer towards its threads: \<open>slots\<close> have passed, and a thread has posted
  \<open>entered\<close> and returned from \<open>left\<close> calls.
\<close>

locale slot_barrier =
  fixes valid :: "'s \<Rightarrow> bool"
    and slots :: "'s \<Rightarrow> nat"
    and threads :: "'s \<Rightarrow> nat"
    and entered left :: "'s \<Rightarrow> nat \<Rightarrow> nat"
    and attached :: "'s \<Rightarrow> nat \<Rightarrow> bool"
  assumes left_slots: "valid s \<Longrightarrow> d < threads s \<Longrightarrow> left s d \<le> slots s"
    and entered_slots: "valid s \<Longrightarrow> d < threads s \<Longrightarrow> attached s d \<Longrightarrow>
      slots s \<le> entered s d \<and> entered s d \<le> Suc (slots s) \<and> slots s \<le> Suc (left s d)"
begin

lemma nobody_ahead:
  "valid s \<Longrightarrow> a < threads s \<Longrightarrow> b < threads s \<Longrightarrow> attached s b \<Longrightarrow> left s a \<le> entered s b"
  using left_slots entered_slots le_trans by blast

lemma lockstep:
  "valid s \<Longrightarrow> a < threads s \<Longrightarrow> b < threads s \<Longrightarrow> attached s b \<Longrightarrow> left s a \<le> Suc (left s b)"
  using left_slots entered_slots le_trans by blast

end

section \<open>State\<close>

text \<open>
  Where a device thread is: outside the timer code, in front of the test of the second loop of
  \<open>next_slot\<close>, asleep in it, or gone after \<open>detach_event\<close>.
\<close>

datatype dev_pc = Working | Posted | Asleep | Exited

text \<open>\<open>posts\<close> and \<open>calls\<close> count the calls of \<open>next_slot\<close> that have posted and that have returned.\<close>

record timer_id_t =
  dev_done :: bool
  fsh :: bool
  dpc :: dev_pc
  posts :: nat
  calls :: nat

text \<open>
  Where the timer thread is: at the test of the outer loop, in the first loop at a device,
  asleep at it, in the second loop, or ended. The arguments are the position of \<open>temp\<close> and
  the local counters \<open>fsh\<close> and \<open>event\<close>, which never exceed the number of devices.
\<close>

datatype timer_pc =
    TCheck
  | TWait nat nat nat
  | TAsleep nat nat nat
  | TRel nat nat nat
  | TStopped

text \<open>\<open>ticks\<close> counts the time slots without wrap-around.\<close>

record timer_state =
  dev_list :: "timer_id_t list"
  time :: int
  ticks :: nat
  timer_started :: bool
  timer_stop :: bool
  tpc :: timer_pc

section \<open>Operations\<close>

definition current_time :: "timer_state \<Rightarrow> int" where
  "current_time s = time s"

definition new_device :: timer_id_t where
  "new_device = \<lparr>dev_done = False, fsh = False, dpc = Working, posts = 0, calls = 0\<rparr>"

text \<open>The handle of a device is the number of devices attached before it.\<close>

definition attach_event :: "timer_state \<Rightarrow> nat option \<times> timer_state" where
  "attach_event s =
     (if timer_started s then (None, s)
      else (Some (length (dev_list s)), s\<lparr>dev_list := new_device # dev_list s\<rparr>))"

definition start_timer :: "timer_state \<Rightarrow> timer_state" where
  "start_timer s = s\<lparr>timer_started := True, tpc := TCheck\<rparr>"

definition upd_dev :: "nat \<Rightarrow> (timer_id_t \<Rightarrow> timer_id_t) \<Rightarrow> timer_state \<Rightarrow> timer_state" where
  "upd_dev d f s = s\<lparr>dev_list := (dev_list s)[d := f (dev_list s ! d)]\<rparr>"

text \<open>\<open>pthread_cond_signal(&event_cond)\<close> of device \<open>d\<close>: the timer wakes up if it sleeps there.\<close>

definition signal_event :: "nat \<Rightarrow> timer_state \<Rightarrow> timer_state" where
  "signal_event d s =
     (case tpc s of
        TAsleep i f e \<Rightarrow> if i = d then s\<lparr>tpc := TWait i f e\<rparr> else s
      | _ \<Rightarrow> s)"

text \<open>The first half of \<open>next_slot\<close>, and one test of the loop in its second half.\<close>

definition next_slot_post :: "nat \<Rightarrow> timer_state \<Rightarrow> timer_state" where
  "next_slot_post d s =
     signal_event d (upd_dev d (\<lambda>x. x\<lparr>dev_done := True, dpc := Posted, posts := Suc (posts x)\<rparr>) s)"

definition next_slot_test :: "nat \<Rightarrow> timer_state \<Rightarrow> timer_state" where
  "next_slot_test d s =
     (if dev_done (dev_list s ! d) then upd_dev d (\<lambda>x. x\<lparr>dpc := Asleep\<rparr>) s
      else upd_dev d (\<lambda>x. x\<lparr>dpc := Working, calls := Suc (calls x)\<rparr>) s)"

definition detach_event :: "nat \<Rightarrow> timer_state \<Rightarrow> timer_state" where
  "detach_event d s = signal_event d (upd_dev d (\<lambda>x. x\<lparr>fsh := True, dpc := Exited\<rparr>) s)"

text \<open>Clearing \<open>done\<close> in the second loop of the timer, and \<open>pthread_cond_signal(&timer_cond)\<close>.\<close>

definition release_dev :: "timer_id_t \<Rightarrow> timer_id_t" where
  "release_dev x = x\<lparr>dev_done := False, dpc := (if dpc x = Asleep then Posted else dpc x)\<rparr>"

text \<open>One step of \<open>timer_routine\<close>; \<open>None\<close> when it sleeps or has ended.\<close>

definition timer_routine :: "timer_state \<Rightarrow> timer_state option" where
  "timer_routine s =
     (case tpc s of
        TCheck \<Rightarrow> Some (s\<lparr>tpc := (if timer_stop s then TStopped else TWait 0 0 0)\<rparr>)
      | TWait i f e \<Rightarrow>
          if i < length (dev_list s) then
            (let x = dev_list s ! i
             in if \<not> dev_done x \<and> \<not> fsh x then Some (s\<lparr>tpc := TAsleep i f e\<rparr>)
                else Some (s\<lparr>tpc := TWait (Suc i) (if fsh x then Suc f else f) (Suc e)\<rparr>))
          else Some (s\<lparr>time := u64 (time s + 1), ticks := Suc (ticks s), tpc := TRel 0 f e\<rparr>)
      | TAsleep i f e \<Rightarrow> None
      | TRel i f e \<Rightarrow>
          if i < length (dev_list s) then Some ((upd_dev i release_dev s)\<lparr>tpc := TRel (Suc i) f e\<rparr>)
          else Some (s\<lparr>tpc := (if f = e then TStopped else TCheck)\<rparr>)
      | TStopped \<Rightarrow> None)"

text \<open>
  \<open>stop_timer\<close>: the request, and what follows the join of the timer thread. The \<open>main\<close> of
  the simulator makes the request after it has joined every device thread.
\<close>

definition stop_request :: "timer_state \<Rightarrow> timer_state" where
  "stop_request s = s\<lparr>timer_stop := True\<rparr>"

definition stop_timer_free :: "timer_state \<Rightarrow> timer_state option" where
  "stop_timer_free s = (if tpc s = TStopped then Some (s\<lparr>dev_list := []\<rparr>) else None)"

section \<open>Interleavings\<close>

text \<open>The flag of a step is false for a wake-up without a signal.\<close>

inductive tstep :: "bool \<Rightarrow> timer_state \<Rightarrow> timer_state \<Rightarrow> bool" where
  Timer: "timer_routine s = Some s' \<Longrightarrow> tstep True s s'"
| Post: "d < length (dev_list s) \<Longrightarrow> dpc (dev_list s ! d) = Working \<Longrightarrow> tstep True s (next_slot_post d s)"
| Test: "d < length (dev_list s) \<Longrightarrow> dpc (dev_list s ! d) = Posted \<Longrightarrow> tstep True s (next_slot_test d s)"
| Detach: "d < length (dev_list s) \<Longrightarrow> dpc (dev_list s ! d) = Working \<Longrightarrow> tstep True s (detach_event d s)"
| Stop: "\<not> timer_stop s \<Longrightarrow> \<forall>x \<in> set (dev_list s). dpc x = Exited \<Longrightarrow> tstep True s (stop_request s)"
| Spurious_timer: "tpc s = TAsleep i f e \<Longrightarrow> tstep False s (s\<lparr>tpc := TWait i f e\<rparr>)"
| Spurious_dev: "d < length (dev_list s) \<Longrightarrow> dpc (dev_list s ! d) = Asleep \<Longrightarrow>
    tstep False s (upd_dev d (\<lambda>x. x\<lparr>dpc := Posted\<rparr>) s)"

text \<open>The state after \<open>n\<close> devices have been attached and the timer has been started.\<close>

definition timer_off :: timer_state where
  "timer_off = \<lparr>dev_list = [], time = 0, ticks = 0, timer_started = False, timer_stop = False, tpc = TStopped\<rparr>"

definition timer_init :: "nat \<Rightarrow> timer_state" where
  "timer_init n = start_timer (((\<lambda>s. snd (attach_event s)) ^^ n) timer_off)"

inductive timer_reachable :: "nat \<Rightarrow> timer_state \<Rightarrow> bool" for n where
  Init: "timer_reachable n (timer_init n)"
| Step: "timer_reachable n s \<Longrightarrow> tstep r s s' \<Longrightarrow> timer_reachable n s'"

section \<open>The invariant\<close>

text \<open>Has the timer released the device at this position for the current slot?\<close>

definition released :: "timer_state \<Rightarrow> nat \<Rightarrow> bool" where
  "released s d = (case tpc s of TRel i f e \<Rightarrow> d < i | _ \<Rightarrow> True)"

text \<open>
  A device that works has returned from as many calls as there were slots. One that waits has
  posted for the current slot, or, unreleased, for the one that has just ended.
\<close>

definition dev_ok :: "nat \<Rightarrow> bool \<Rightarrow> timer_id_t \<Rightarrow> bool" where
  "dev_ok t rel x =
     (case dpc x of
        Working \<Rightarrow> rel \<and> \<not> dev_done x \<and> \<not> fsh x \<and> posts x = t \<and> calls x = t
      | Posted \<Rightarrow> \<not> fsh x \<and> posts x = Suc (calls x) \<and>
          (if dev_done x then calls x + (if rel then 0 else 1) = t else rel \<and> Suc (calls x) = t)
      | Asleep \<Rightarrow> \<not> fsh x \<and> dev_done x \<and> posts x = Suc (calls x) \<and> calls x + (if rel then 0 else 1) = t
      | Exited \<Rightarrow> fsh x \<and> \<not> dev_done x \<and> posts x = calls x \<and> calls x \<le> t)"

definition tpc_ok :: "timer_state \<Rightarrow> bool" where
  "tpc_ok s =
     (let xs = dev_list s
      in case tpc s of
        TCheck \<Rightarrow> True
      | TWait i f e \<Rightarrow> i \<le> length xs \<and> e = i \<and> f \<le> e \<and> (\<forall>d < i. dev_done (xs ! d) \<or> fsh (xs ! d)) \<and>
          (f = e \<longrightarrow> (\<forall>d < i. fsh (xs ! d)))
      | TAsleep i f e \<Rightarrow> i < length xs \<and> e = i \<and> f \<le> e \<and> (\<forall>d < i. dev_done (xs ! d) \<or> fsh (xs ! d)) \<and>
          (f = e \<longrightarrow> (\<forall>d < i. fsh (xs ! d))) \<and> \<not> dev_done (xs ! i) \<and> \<not> fsh (xs ! i)
      | TRel i f e \<Rightarrow> i \<le> length xs \<and> e = length xs \<and> (f = e \<longrightarrow> (\<forall>d < length xs. fsh (xs ! d)))
      | TStopped \<Rightarrow> \<forall>d < length xs. fsh (xs ! d))"

definition timer_inv :: "timer_state \<Rightarrow> bool" where
  "timer_inv s \<longleftrightarrow> time s = u64 (int (ticks s)) \<and> tpc_ok s \<and>
     (\<forall>d < length (dev_list s). dev_ok (ticks s) (released s d) (dev_list s ! d)) \<and>
     (timer_stop s \<longrightarrow> (\<forall>d < length (dev_list s). fsh (dev_list s ! d)))"

lemmas timer_simps = upd_dev_def signal_event_def released_def tpc_ok_def Let_def

lemma attach_all: "((\<lambda>s. snd (attach_event s)) ^^ n) timer_off = timer_off\<lparr>dev_list := replicate n new_device\<rparr>"
  by (induction n) (simp_all add: attach_event_def timer_off_def)

lemma timer_init_eq:
  "timer_init n = \<lparr>dev_list = replicate n new_device, time = 0, ticks = 0, timer_started = True, timer_stop = False, tpc = TCheck\<rparr>"
  unfolding timer_init_def attach_all by (simp add: start_timer_def timer_off_def)

lemma timer_inv_init: "timer_inv (timer_init n)"
  by (simp add: timer_init_eq timer_inv_def timer_simps dev_ok_def new_device_def)

text \<open>An update of one device keeps the invariant when the others and the timer still fit.\<close>

lemma timer_inv_upd:
  assumes inv: "timer_inv s" and d: "d < length (dev_list s)"
    and ok: "dev_ok (ticks s) (released s d) (f (dev_list s ! d))"
    and mono: "fsh (dev_list s ! d) \<Longrightarrow> fsh (f (dev_list s ! d))"
      "dev_done (dev_list s ! d) \<Longrightarrow> dev_done (f (dev_list s ! d))"
    and asleep: "\<And>g e. tpc s = TAsleep d g e \<Longrightarrow> \<not> dev_done (f (dev_list s ! d)) \<and> \<not> fsh (f (dev_list s ! d))"
  shows "timer_inv (upd_dev d f s)"
proof -
  have "tpc_ok (upd_dev d f s)"
    using inv d mono asleep by (auto simp: timer_inv_def timer_simps nth_list_update split: timer_pc.splits)
  moreover have "released (upd_dev d f s) = released s" by (rule ext) (simp add: timer_simps)
  ultimately show ?thesis
    using inv d ok mono by (auto simp: timer_inv_def upd_dev_def nth_list_update)
qed

lemma timer_inv_wake: "timer_inv s \<Longrightarrow> tpc s = TAsleep i f e \<Longrightarrow> timer_inv (s\<lparr>tpc := TWait i f e\<rparr>)"
  by (auto simp: timer_inv_def timer_simps)

lemma dev_ok_at: "timer_inv s \<Longrightarrow> d < length (dev_list s) \<Longrightarrow> dev_ok (ticks s) (released s d) (dev_list s ! d)"
  by (simp add: timer_inv_def)

text \<open>A signal commutes with the update of the device it belongs to.\<close>

lemma signal_upd: "signal_event d (upd_dev d f s) = upd_dev d f (signal_event d s)"
  by (simp add: timer_simps split: timer_pc.splits)

lemma signal_event_facts:
  assumes "timer_inv s"
  shows "timer_inv (signal_event d s)" "tpc (signal_event d s) \<noteq> TAsleep d g e"
    "dev_list (signal_event d s) = dev_list s" "ticks (signal_event d s) = ticks s"
    "released (signal_event d s) = released s"
  using assms timer_inv_wake [OF assms]
  by (auto simp: signal_event_def released_def fun_eq_iff split: timer_pc.splits)

lemma timer_inv_post:
  assumes "timer_inv s" "d < length (dev_list s)" "dpc (dev_list s ! d) = Working"
  shows "timer_inv (next_slot_post d s)"
  unfolding next_slot_post_def signal_upd
  using dev_ok_at [OF assms(1,2)] assms
  by (intro timer_inv_upd) (auto simp: signal_event_facts dev_ok_def)

lemma timer_inv_detach:
  assumes "timer_inv s" "d < length (dev_list s)" "dpc (dev_list s ! d) = Working"
  shows "timer_inv (detach_event d s)"
  unfolding detach_event_def signal_upd
  using dev_ok_at [OF assms(1,2)] assms
  by (intro timer_inv_upd) (auto simp: signal_event_facts dev_ok_def)

lemma asleep_flags:
  "timer_inv s \<Longrightarrow> tpc s = TAsleep d g e \<Longrightarrow> \<not> dev_done (dev_list s ! d) \<and> \<not> fsh (dev_list s ! d)"
  by (simp add: timer_inv_def timer_simps)

lemma timer_inv_test:
  assumes "timer_inv s" "d < length (dev_list s)" "dpc (dev_list s ! d) = Posted"
  shows "timer_inv (next_slot_test d s)"
  unfolding next_slot_test_def
  using dev_ok_at [OF assms(1,2)] assms asleep_flags [OF assms(1)]
  by (auto simp: dev_ok_def intro!: timer_inv_upd)

lemma timer_inv_spurious:
  assumes "timer_inv s" "d < length (dev_list s)" "dpc (dev_list s ! d) = Asleep"
  shows "timer_inv (upd_dev d (\<lambda>x. x\<lparr>dpc := Posted\<rparr>) s)"
  using dev_ok_at [OF assms(1,2)] assms asleep_flags [OF assms(1)]
  by (intro timer_inv_upd) (auto simp: dev_ok_def)

lemma timer_inv_pass:
  assumes inv: "timer_inv s" and pc: "tpc s = TWait i f e" and i: "i < length (dev_list s)"
    and x: "dev_done (dev_list s ! i) \<or> fsh (dev_list s ! i)"
  shows "timer_inv (s\<lparr>tpc := TWait (Suc i) (if fsh (dev_list s ! i) then Suc f else f) (Suc e)\<rparr>)"
  using inv pc i x by (auto simp: timer_inv_def timer_simps less_Suc_eq)

text \<open>At the tick every device has posted or is gone; none of them is released yet.\<close>

lemma timer_inv_tick:
  assumes inv: "timer_inv s" and pc: "tpc s = TWait i f e" and i: "\<not> i < length (dev_list s)"
  shows "timer_inv (s\<lparr>time := u64 (time s + 1), ticks := Suc (ticks s), tpc := TRel 0 f e\<rparr>)"
proof -
  have w: "i = length (dev_list s)" "e = i" "\<And>d. d < i \<Longrightarrow> dev_done (dev_list s ! d) \<or> fsh (dev_list s ! d)"
      "f = e \<longrightarrow> (\<forall>d < i. fsh (dev_list s ! d))"
    using inv pc i by (auto simp: timer_inv_def timer_simps)
  have "dev_ok (Suc (ticks s)) False (dev_list s ! d)" if "d < i" for d
    using w(3) [OF that] dev_ok_at [OF inv, of d] that pc w(1)
    by (auto simp: dev_ok_def released_def split: dev_pc.splits)
  moreover have "u64 (time s + 1) = u64 (int (Suc (ticks s)))"
    using inv by (simp add: timer_inv_def u64_def mod_simps add.commute)
  ultimately show ?thesis using inv w by (simp add: timer_inv_def timer_simps)
qed

lemma timer_inv_release:
  assumes inv: "timer_inv s" and pc: "tpc s = TRel i f e" and i: "i < length (dev_list s)"
  shows "timer_inv ((upd_dev i release_dev s)\<lparr>tpc := TRel (Suc i) f e\<rparr>)"
proof -
  have "dev_ok (ticks s) True (release_dev (dev_list s ! i))"
    using dev_ok_at [OF inv i] pc by (auto simp: dev_ok_def release_dev_def released_def split: dev_pc.splits if_splits)
  moreover have "dev_ok (ticks s) (d < Suc i) (dev_list s ! d)" if "d < length (dev_list s)" "d \<noteq> i" for d
  proof -
    have "(d < Suc i) = (d < i)" using that(2) by auto
    then show ?thesis using dev_ok_at [OF inv that(1)] pc by (simp add: released_def)
  qed
  moreover have "fsh (release_dev x) = fsh x" for x by (simp add: release_dev_def)
  ultimately show ?thesis using inv pc i by (auto simp: timer_inv_def timer_simps nth_list_update)
qed

lemma timer_inv_routine:
  assumes inv: "timer_inv s" and run: "timer_routine s = Some s'"
  shows "timer_inv s'"
proof (cases "tpc s")
  case TCheck
  then show ?thesis using inv run by (auto simp: timer_routine_def timer_inv_def timer_simps)
next
  case (TWait i f e)
  let ?x = "dev_list s ! i"
  consider "\<not> i < length (dev_list s)" | "i < length (dev_list s)" "dev_done ?x \<or> fsh ?x"
    | "i < length (dev_list s)" "\<not> dev_done ?x" "\<not> fsh ?x" by blast
  then show ?thesis
  proof cases
    case 1
    then show ?thesis using run TWait timer_inv_tick [OF inv TWait 1] by (simp add: timer_routine_def)
  next
    case 2
    then show ?thesis using run TWait timer_inv_pass [OF inv TWait 2] by (auto simp: timer_routine_def)
  next
    case 3
    then have "s' = s\<lparr>tpc := TAsleep i f e\<rparr>" using run TWait by (simp add: timer_routine_def)
    then show ?thesis using inv TWait 3 by (simp add: timer_inv_def timer_simps)
  qed
next
  case (TRel i f e)
  show ?thesis
  proof (cases "i < length (dev_list s)")
    case True
    then show ?thesis using run TRel timer_inv_release [OF inv TRel] by (simp add: timer_routine_def)
  next
    case False
    then show ?thesis using run inv TRel by (auto simp: timer_routine_def timer_inv_def timer_simps split: if_splits)
  qed
qed (use run in \<open>simp_all add: timer_routine_def\<close>)

lemma timer_inv_stop:
  assumes "timer_inv s" "\<forall>x \<in> set (dev_list s). dpc x = Exited"
  shows "timer_inv (stop_request s)"
proof -
  have "fsh (dev_list s ! d)" if "d < length (dev_list s)" for d
    using dev_ok_at [OF assms(1) that] assms(2) that by (simp add: dev_ok_def)
  then show ?thesis using assms(1) by (simp add: timer_inv_def stop_request_def timer_simps)
qed

lemma timer_inv_step: "tstep r s s' \<Longrightarrow> timer_inv s \<Longrightarrow> timer_inv s'"
  by (induction rule: tstep.induct)
    (simp_all add: timer_inv_routine timer_inv_post timer_inv_test timer_inv_detach timer_inv_stop timer_inv_wake timer_inv_spurious)

lemma timer_inv_reachable: "timer_reachable n s \<Longrightarrow> timer_inv s"
  by (induction rule: timer_reachable.induct) (auto intro: timer_inv_init timer_inv_step)

lemma tstep_length: "tstep r s s' \<Longrightarrow> length (dev_list s') = length (dev_list s)"
  by (induction rule: tstep.induct)
    (auto simp: timer_routine_def next_slot_post_def next_slot_test_def detach_event_def stop_request_def upd_dev_def
      signal_event_def Let_def split: timer_pc.splits if_splits)

lemma reachable_length: "timer_reachable n s \<Longrightarrow> length (dev_list s) = n"
  by (induction rule: timer_reachable.induct) (simp_all add: timer_init_eq tstep_length)

lemma calls_le: "dev_ok t rel x \<Longrightarrow> calls x \<le> t"
  by (auto simp: dev_ok_def split: dev_pc.splits if_splits)

lemma unfinished_counts: "dev_ok t rel x \<Longrightarrow> \<not> fsh x \<Longrightarrow> t \<le> posts x \<and> posts x \<le> Suc t \<and> t \<le> Suc (calls x)"
  by (auto simp: dev_ok_def split: dev_pc.splits if_splits)

interpretation tm: slot_barrier timer_inv ticks "\<lambda>s. length (dev_list s)" "\<lambda>s d. posts (dev_list s ! d)"
  "\<lambda>s d. calls (dev_list s ! d)" "\<lambda>s d. \<not> fsh (dev_list s ! d)"
  by unfold_locales (use calls_le [OF dev_ok_at] unfinished_counts [OF dev_ok_at] in blast)+

section \<open>A bound on the steps of a slot\<close>

definition dev_work :: "bool \<Rightarrow> timer_id_t \<Rightarrow> nat" where
  "dev_work rel x =
     (case dpc x of
        Working \<Rightarrow> 3
      | Posted \<Rightarrow> if \<not> dev_done x then 4 else if rel then 1 else 6
      | Asleep \<Rightarrow> if rel then 0 else 5
      | Exited \<Rightarrow> 0)"

definition timer_work :: "nat \<Rightarrow> timer_pc \<Rightarrow> nat" where
  "timer_work n t =
     (case t of
        TRel i f e \<Rightarrow> (n - i) + 2 * n + 3
      | TCheck \<Rightarrow> 2 * n + 2
      | TWait i f e \<Rightarrow> 2 * (n - i) + 1
      | TAsleep i f e \<Rightarrow> 2 * (n - i)
      | TStopped \<Rightarrow> 0)"

definition slot_work :: "timer_state \<Rightarrow> nat" where
  "slot_work s = timer_work (length (dev_list s)) (tpc s) +
     (\<Sum>d < length (dev_list s). dev_work (released s d) (dev_list s ! d)) + (if timer_stop s then 0 else 1)"

lemma sum_change_one:
  fixes f g :: "nat \<Rightarrow> nat"
  assumes "d < n" "\<And>j. j < n \<Longrightarrow> j \<noteq> d \<Longrightarrow> g j = f j"
  shows "(\<Sum>j < n. g j) + f d = (\<Sum>j < n. f j) + g d"
proof -
  have "(\<Sum>j \<in> {..<n} - {d}. g j) = (\<Sum>j \<in> {..<n} - {d}. f j)" using assms(2) by (intro sum.cong) auto
  then show ?thesis using assms(1) by (simp add: sum.remove [of "{..<n}" d])
qed

text \<open>A step of one device, perhaps with the wake-up of the timer.\<close>

lemma slot_work_upd:
  assumes d: "d < length (dev_list s)" and s': "dev_list s' = (dev_list s)[d := x]" "timer_stop s' = timer_stop s"
    and rel: "\<And>j. j \<noteq> d \<Longrightarrow> released s' j = released s j"
    and less: "timer_work (length (dev_list s)) (tpc s') + dev_work (released s' d) x <
      timer_work (length (dev_list s)) (tpc s) + dev_work (released s d) (dev_list s ! d)"
  shows "slot_work s' < slot_work s"
proof -
  let ?n = "length (dev_list s)"
  let ?f = "\<lambda>j. dev_work (released s j) (dev_list s ! j)"
  let ?g = "\<lambda>j. dev_work (released s' j) (dev_list s' ! j)"
  have "(\<Sum>j < ?n. ?g j) + ?f d = (\<Sum>j < ?n. ?f j) + ?g d"
    using d by (rule sum_change_one) (simp add: s' rel)
  moreover have "?g d = dev_work (released s' d) x" using d s'(1) by simp
  ultimately show ?thesis using less s' by (simp add: slot_work_def)
qed

lemma signal_work: "timer_work n (tpc (signal_event d s)) \<le> Suc (timer_work n (tpc s))"
  by (simp add: signal_event_def timer_work_def split: timer_pc.splits)

lemma post_work:
  assumes "timer_inv s" "d < length (dev_list s)" "dpc (dev_list s ! d) = Working"
  shows "slot_work (next_slot_post d s) < slot_work s" "slot_work (detach_event d s) < slot_work s"
proof -
  have rel: "released s d" using dev_ok_at [OF assms(1,2)] assms(3) by (simp add: dev_ok_def)
  have sig: "released (signal_event d t) = released t" "timer_stop (signal_event d t) = timer_stop t"
    "dev_list (signal_event d t) = dev_list t" for t
    by (auto simp: signal_event_def released_def fun_eq_iff split: timer_pc.splits)
  have tpc: "timer_work n (tpc (signal_event d (upd_dev d f s))) \<le> Suc (timer_work n (tpc s))" for n f
    unfolding signal_upd using signal_work [of n d s] by (simp add: upd_dev_def)
  show "slot_work (next_slot_post d s) < slot_work s"
    unfolding next_slot_post_def
    using assms(3) rel tpc [of "length (dev_list s)" "\<lambda>x. x\<lparr>dev_done := True, dpc := Posted, posts := Suc (posts x)\<rparr>"]
    by (intro slot_work_upd [OF assms(2)]) (auto simp: sig upd_dev_def released_def dev_work_def)
  show "slot_work (detach_event d s) < slot_work s"
    unfolding detach_event_def
    using assms(3) rel tpc [of "length (dev_list s)" "\<lambda>x. x\<lparr>fsh := True, dpc := Exited\<rparr>"]
    by (intro slot_work_upd [OF assms(2)]) (auto simp: sig upd_dev_def released_def dev_work_def)
qed

lemma test_work:
  assumes "timer_inv s" "d < length (dev_list s)" "dpc (dev_list s ! d) = Posted"
  shows "slot_work (next_slot_test d s) < slot_work s"
proof (cases "dev_done (dev_list s ! d)")
  case True
  show ?thesis
    unfolding next_slot_test_def using True assms(2,3)
    by (simp, intro slot_work_upd [OF assms(2)]) (auto simp: upd_dev_def released_def dev_work_def)
next
  case False
  show ?thesis
    unfolding next_slot_test_def using False assms(2,3)
    by (simp, intro slot_work_upd [OF assms(2)]) (auto simp: upd_dev_def released_def dev_work_def)
qed

lemma slot_work_tpc:
  assumes "released (s\<lparr>tpc := t\<rparr>) = released s" "timer_work (length (dev_list s)) t < timer_work (length (dev_list s)) (tpc s)"
  shows "slot_work (s\<lparr>tpc := t\<rparr>) < slot_work s"
  using assms by (simp add: slot_work_def)

lemma routine_work:
  assumes inv: "timer_inv s" and run: "timer_routine s = Some s'"
  shows "ticks s' = Suc (ticks s) \<or> ticks s' = ticks s \<and> slot_work s' < slot_work s"
proof (cases "tpc s")
  case (TRel i f e)
  show ?thesis
  proof (cases "i < length (dev_list s)")
    case True
    have "slot_work ((upd_dev i release_dev s)\<lparr>tpc := TRel (Suc i) f e\<rparr>) < slot_work s"
      using dev_ok_at [OF inv True] TRel True
      by (intro slot_work_upd [OF True])
        (auto simp: upd_dev_def released_def timer_work_def dev_work_def dev_ok_def release_dev_def split: dev_pc.splits if_splits)
    then show ?thesis using run TRel True by (auto simp: timer_routine_def upd_dev_def)
  next
    case False
    have "i = length (dev_list s)" using inv TRel False by (simp add: timer_inv_def timer_simps)
    then have "(\<Sum>d < length (dev_list s). dev_work (released s d) (dev_list s ! d)) =
        (\<Sum>d < length (dev_list s). dev_work True (dev_list s ! d))"
      using TRel by (intro sum.cong) (simp_all add: released_def)
    then show ?thesis using run TRel False
      by (auto simp: timer_routine_def slot_work_def released_def timer_work_def split: if_splits)
  qed
qed (use run in \<open>auto simp: timer_routine_def Let_def released_def timer_work_def intro!: slot_work_tpc split: if_splits\<close>)

lemma signal_event_ticks [simp]: "ticks (signal_event d s) = ticks s"
  by (simp add: signal_event_def split: timer_pc.splits)

lemma step_work:
  assumes inv: "timer_inv s" and "tstep True s s'"
  shows "ticks s' = Suc (ticks s) \<or> ticks s' = ticks s \<and> slot_work s' < slot_work s"
  using assms(2)
proof (cases rule: tstep.cases)
  case Timer
  then show ?thesis using routine_work [OF inv] by blast
next
  case (Post d)
  then have "slot_work s' < slot_work s" using post_work(1) [OF inv] by simp
  then show ?thesis using Post by (simp add: next_slot_post_def upd_dev_def)
next
  case (Test d)
  then have "slot_work s' < slot_work s" using test_work [OF inv] by simp
  then show ?thesis using Test by (simp add: next_slot_test_def upd_dev_def)
next
  case (Detach d)
  then have "slot_work s' < slot_work s" using post_work(2) [OF inv] by simp
  then show ?thesis using Detach by (simp add: detach_event_def upd_dev_def)
next
  case Stop
  then show ?thesis by (simp add: stop_request_def slot_work_def released_def)
qed simp_all

lemma slot_work_bound: "slot_work s \<le> 9 * length (dev_list s) + 4"
proof -
  let ?n = "length (dev_list s)"
  have "(\<Sum>d < ?n. dev_work (released s d) (dev_list s ! d)) \<le> (\<Sum>d < ?n. 6)"
    by (rule sum_mono) (simp add: dev_work_def split: dev_pc.splits)
  moreover have "timer_work ?n (tpc s) \<le> 3 * ?n + 3" by (cases "tpc s") (simp_all add: timer_work_def)
  ultimately show ?thesis by (simp add: slot_work_def)
qed

section \<open>The properties\<close>

definition sample_timer :: timer_state where
  "sample_timer = next_slot_post 0 (timer_init 2)"

lemma sample_timer_reachable: "timer_reachable 2 sample_timer"
  unfolding sample_timer_def
  by (rule timer_reachable.Step [OF timer_reachable.Init tstep.Post]) (simp_all add: timer_init_eq new_device_def)

text \<open>
  C7: the timer is a barrier. In every interleaving, no device has returned from its
  \<open>k\<close>-th call of \<open>next_slot\<close> before every device that is still attached has posted its
  \<open>k\<close>-th call; an attached device has returned from as many calls as slots have passed, or
  from one call less; and the time is the number of slots modulo \<open>2 ^ 64\<close>.
\<close>

theorem timer_barrier:
  assumes "timer_reachable n s" and "a < n" and "b < n" and "\<not> fsh (dev_list s ! b)"
  shows "calls (dev_list s ! a) \<le> posts (dev_list s ! b) \<and> posts (dev_list s ! b) \<le> Suc (ticks s) \<and>
    ticks s \<le> Suc (calls (dev_list s ! b)) \<and> calls (dev_list s ! b) \<le> ticks s \<and>
    current_time s = u64 (int (ticks s))"
proof -
  have inv: "timer_inv s" and n: "length (dev_list s) = n"
    using timer_inv_reachable [OF assms(1)] reachable_length [OF assms(1)] .
  show ?thesis
    using tm.nobody_ahead [OF inv, of a b] tm.entered_slots [OF inv, of b] tm.left_slots [OF inv, of b] assms(2-4) n inv
    by (simp add: current_time_def timer_inv_def)
qed

theorem timer_barrier_witness:
  "timer_reachable 2 sample_timer \<and> calls (dev_list sample_timer ! 0) \<le> posts (dev_list sample_timer ! 1)"
  using timer_barrier [OF sample_timer_reachable, of 0 1] sample_timer_reachable
  by (simp add: sample_timer_def next_slot_post_def timer_init_eq new_device_def timer_simps)

text \<open>
  C8: no wake-up is lost and the timer never deadlocks. In every interleaving, as long as
  the timer thread has not ended, it or a device that waits in \<open>next_slot\<close> can take a
  step, or a device is at work outside the timer; and once it has ended every device has
  been detached, so that no thread is left asleep.
\<close>

theorem timer_no_deadlock:
  assumes "timer_reachable n s"
  shows "if tpc s = TStopped then \<forall>x \<in> set (dev_list s). dpc x = Exited
    else timer_routine s \<noteq> None \<or> (\<exists>x \<in> set (dev_list s). dpc x = Posted \<or> dpc x = Working)"
proof -
  have inv: "timer_inv s" using timer_inv_reachable [OF assms] .
  show ?thesis
  proof (cases "tpc s")
    case (TAsleep i f e)
    have i: "i < length (dev_list s)" using inv TAsleep by (simp add: timer_inv_def timer_simps)
    then have "dpc (dev_list s ! i) = Posted \<or> dpc (dev_list s ! i) = Working"
      using dev_ok_at [OF inv i] asleep_flags [OF inv TAsleep] by (auto simp: dev_ok_def split: dev_pc.splits)
    then show ?thesis using i TAsleep nth_mem by fastforce
  next
    case TStopped
    have "dpc (dev_list s ! d) = Exited" if "d < length (dev_list s)" for d
    proof -
      have "fsh (dev_list s ! d)" using inv TStopped that by (simp add: timer_inv_def timer_simps)
      then show ?thesis using dev_ok_at [OF inv that] by (auto simp: dev_ok_def split: dev_pc.splits)
    qed
    then show ?thesis using TStopped by (auto simp: in_set_conv_nth)
  qed (auto simp: timer_routine_def Let_def)
qed

theorem timer_no_deadlock_witness:
  "timer_reachable 2 sample_timer \<and> tpc sample_timer \<noteq> TStopped \<and> timer_routine sample_timer \<noteq> None"
  using timer_no_deadlock [OF sample_timer_reachable] sample_timer_reachable
  by (simp add: sample_timer_def next_slot_post_def timer_init_eq timer_simps timer_routine_def)

text \<open>
  C18: a slot ends. Every step that is not a wake-up without a signal either is the tick or
  uses up some of the work left in the slot, which is at most nine times the number of
  devices and four.
\<close>

theorem timer_slot_ends:
  assumes "timer_reachable n s" and "tstep True s s'"
  shows "(ticks s' = Suc (ticks s) \<or> ticks s' = ticks s \<and> slot_work s' < slot_work s) \<and> slot_work s \<le> 9 * n + 4"
  using step_work [OF timer_inv_reachable [OF assms(1)] assms(2)] slot_work_bound [of s] reachable_length [OF assms(1)]
  by simp

theorem timer_slot_ends_witness:
  "tstep True sample_timer (next_slot_post 1 sample_timer) \<and> slot_work sample_timer \<le> 22"
proof -
  have "tstep True sample_timer (next_slot_post 1 sample_timer)"
    by (rule tstep.Post) (simp_all add: sample_timer_def next_slot_post_def timer_init_eq new_device_def timer_simps)
  then show ?thesis using timer_slot_ends [OF sample_timer_reachable] by simp
qed

end
