(* ===== verification/OS_System.thy ===== *)
theory OS_System
  imports OS_Threads OS_Timer
begin

text \<open>
  \<open>main\<close> of \<open>src/os.c\<close> and the whole simulator: the machine, the CPU threads, the loader
  thread and the timer. A step of the system is one slot of a thread, which ends with the
  post or the detachment at the timer, or a step of the timer code. The order of the
  threads within a slot is arbitrary. The code takes no lock around \<open>run\<close>, so two CPUs that
  touch the physical memories in the same slot race; the model executes the slots of
  different threads one after the other.
\<close>

record os_system =
  sys_timer :: timer_state
  sys_machine :: machine
  sys_cpus :: "cpu_state list"
  sys_ld :: ld_state
  sys_finished :: "int multiset"

section \<open>\<open>main\<close>\<close>

text \<open>
  What the uninitialised \<open>mram\<close> and \<open>mswp\<close> of \<open>main\<close> hold, and their allocated storage: index
  0 is the RAM, index \<open>Suc i\<close> the swap device \<open>i\<close>.
\<close>

record boot_env =
  boot_storage :: "nat \<Rightarrow> int \<Rightarrow> byte"
  boot_link :: "nat \<Rightarrow> int clist"
  boot_memphy :: "nat \<Rightarrow> memphy_struct"

definition boot_device :: "boot_env \<Rightarrow> nat \<Rightarrow> int \<Rightarrow> memphy_struct res" where
  "boot_device b i sz =
     rbind (init_memphy (boot_storage b i) (boot_link b i) (boot_memphy b i) sz 1) (\<lambda>(_, mp). Inr mp)"

primrec boot_swaps :: "boot_env \<Rightarrow> nat \<Rightarrow> int list \<Rightarrow> memphy_struct list res" where
  "boot_swaps b i [] = Inr []"
| "boot_swaps b i (sz # szs) =
     rbind (boot_device b (Suc i) sz) (\<lambda>mp. rbind (boot_swaps b (Suc i) szs) (\<lambda>mps. Inr (mp # mps)))"

text \<open>
  \<open>main\<close> up to the creation of the threads; \<open>None\<close> is the return after the usage message. The
  CPUs attach to the timer before the loader, and each attachment goes to the front of the
  device list.
\<close>

definition os_main :: "boot_env \<Rightarrow> ld_env \<Rightarrow> string list \<Rightarrow> (os_config \<times> os_system) option res" where
  "os_main b env argv =
     (if length argv \<noteq> 2 then Inr None
      else
        rbind (strcat_path input_dir (argv ! 1)) (\<lambda>path.
        rbind (read_config (env_fs env) path) (\<lambda>cfg.
        rbind (boot_device b 0 (memramsz cfg)) (\<lambda>ram.
        rbind (boot_swaps b 0 (memswpsz cfg)) (\<lambda>swps.
        (let n = nat (num_cpus cfg)
         in Inr (Some (cfg,
              \<lparr>sys_timer = timer_init (Suc n),
               sys_machine = \<lparr>m_sched = init_scheduler static_sched, m_ram = ram, m_swp = swps ! 0,
                 m_idle_swp = drop 1 swps, m_done = False\<rparr>,
               sys_cpus = replicate n cpu_start, sys_ld = ld_start, sys_finished = {#}\<rparr>))))))))"

section \<open>Steps of the system\<close>

definition ld_dev :: nat where "ld_dev = 0"

definition cpu_dev :: "os_system \<Rightarrow> nat \<Rightarrow> nat" where
  "cpu_dev s k = length (sys_cpus s) - k"

definition at_work :: "os_system \<Rightarrow> nat \<Rightarrow> bool" where
  "at_work s d \<longleftrightarrow> d < length (dev_list (sys_timer s)) \<and> dpc (dev_list (sys_timer s) ! d) = Working"

text \<open>How a thread leaves its slot.\<close>

definition leave_slot :: "slot_end \<Rightarrow> nat \<Rightarrow> timer_state \<Rightarrow> timer_state" where
  "leave_slot e d t = (case e of Next_slot \<Rightarrow> next_slot_post d t | Thread_end \<Rightarrow> detach_event d t)"

text \<open>A step of the timer code itself leaves the posts and the detachments as they are.\<close>

definition same_posts :: "timer_state \<Rightarrow> timer_state \<Rightarrow> bool" where
  "same_posts t t' \<longleftrightarrow> map posts (dev_list t') = map posts (dev_list t) \<and> map fsh (dev_list t') = map fsh (dev_list t)"

inductive os_step :: "ld_env \<Rightarrow> os_config \<Rightarrow> os_system \<Rightarrow> os_system \<Rightarrow> bool" for env cfg where
  Cpu: "k < length (sys_cpus s) \<Longrightarrow> at_work s (cpu_dev s k) \<Longrightarrow>
    cpu_routine (time_slot cfg) (sys_cpus s ! k) (sys_machine s) = Inr (e, c, m) \<Longrightarrow>
    os_step env cfg s (s\<lparr>sys_cpus := (sys_cpus s)[k := c], sys_machine := m,
      sys_finished := sys_finished s + finishing (sys_cpus s ! k),
      sys_timer := leave_slot e (cpu_dev s k) (sys_timer s)\<rparr>)"
| Loader: "at_work s ld_dev \<Longrightarrow>
    ld_routine env cfg (current_time (sys_timer s)) (sys_ld s) (sys_machine s) = Inr (e, l, m) \<Longrightarrow>
    os_step env cfg s (s\<lparr>sys_ld := l, sys_machine := m, sys_timer := leave_slot e ld_dev (sys_timer s)\<rparr>)"
| Clock: "tstep r (sys_timer s) t \<Longrightarrow> same_posts (sys_timer s) t \<Longrightarrow> os_step env cfg s (s\<lparr>sys_timer := t\<rparr>)"

inductive os_reachable :: "boot_env \<Rightarrow> ld_env \<Rightarrow> string list \<Rightarrow> os_config \<Rightarrow> os_system \<Rightarrow> bool" for b env argv where
  Boot: "os_main b env argv = Inr (Some (cfg, s)) \<Longrightarrow> os_reachable b env argv cfg s"
| Step: "os_reachable b env argv cfg s \<Longrightarrow> os_step env cfg s s' \<Longrightarrow> os_reachable b env argv cfg s'"

section \<open>Threads and timer\<close>

lemma leave_slot_tstep: "at_work s d \<Longrightarrow> tstep True (sys_timer s) (leave_slot e d (sys_timer s))"
  by (cases e) (auto simp: at_work_def leave_slot_def intro: tstep.intros)

lemma os_step_timer: "os_step env cfg s s' \<Longrightarrow> \<exists>r. tstep r (sys_timer s) (sys_timer s')"
  by (induction rule: os_step.induct) (auto intro: leave_slot_tstep)

lemma os_step_cpus: "os_step env cfg s s' \<Longrightarrow> length (sys_cpus s') = length (sys_cpus s)"
  by (induction rule: os_step.induct) auto

lemma os_main_Some:
  assumes "os_main b env argv = Inr (Some (cfg, s))"
  obtains ram swps where "s = \<lparr>sys_timer = timer_init (Suc (nat (num_cpus cfg))),
      sys_machine = \<lparr>m_sched = init_scheduler static_sched, m_ram = ram, m_swp = swps ! 0, m_idle_swp = drop 1 swps, m_done = False\<rparr>,
      sys_cpus = replicate (nat (num_cpus cfg)) cpu_start, sys_ld = ld_start, sys_finished = {#}\<rparr>"
    "\<exists>path. read_config (env_fs env) path = Inr cfg"
  using assms by (auto simp: os_main_def Let_def res_simps split: if_splits)

lemma os_reachable_timer:
  assumes "os_reachable b env argv cfg s"
  shows "timer_reachable (Suc (length (sys_cpus s))) (sys_timer s)"
  using assms
proof (induction rule: os_reachable.induct)
  case (Boot cfg s)
  then show ?case by (rule os_main_Some) (simp add: timer_reachable.Init)
next
  case (Step cfg s s')
  then show ?case using os_step_timer [OF Step(2)] os_step_cpus [OF Step(2)] by (auto intro: timer_reachable.Step)
qed

section \<open>No process is lost\<close>

text \<open>Every process the simulator holds: pending in the loader, queued, or on a CPU.\<close>

definition on_cpus :: "cpu_state list \<Rightarrow> pcb_t multiset" where
  "on_cpus cs = sum_list (map (\<lambda>c. opt_mset (cpu_proc c)) cs)"

definition live_procs :: "os_system \<Rightarrow> pcb_t multiset" where
  "live_procs s = opt_mset (ld_pending (sys_ld s)) + queued (m_sched (sys_machine s)) + on_cpus (sys_cpus s)"

definition sys_inv :: "os_config \<Rightarrow> os_system \<Rightarrow> bool" where
  "sys_inv cfg s \<longleftrightarrow> sched_ok (m_sched (sys_machine s)) \<and> list_all (cpu_ok (time_slot cfg)) (sys_cpus s) \<and>
     codes_ok (live_procs s) \<and>
     image_mset pid (live_procs s) + sys_finished s = image_mset int (mset [1..<Suc (loaded (sys_ld s))]) \<and>
     avail_pid (sys_ld s) = int (Suc (loaded (sys_ld s))) \<and>
     int (loaded (sys_ld s)) \<le> max 0 (num_processes cfg)"

lemma on_cpus_update:
  "k < length cs \<Longrightarrow> on_cpus (cs[k := c]) + opt_mset (cpu_proc (cs ! k)) = on_cpus cs + opt_mset (cpu_proc c)"
  unfolding on_cpus_def by (rule sum_list_upd)

lemma on_cpus_start: "on_cpus (replicate n cpu_start) = {#}"
  by (induction n) (simp_all add: on_cpus_def cpu_start_def opt_mset_def)

lemma codes_ok_nth: "codes_ok (on_cpus cs) \<Longrightarrow> k < length cs \<Longrightarrow> codes_ok (opt_mset (cpu_proc (cs ! k)))"
proof (induction cs arbitrary: k)
  case (Cons x cs)
  then show ?case by (cases k) (auto simp: on_cpus_def)
qed simp

lemma sys_inv_boot:
  assumes "os_main b env argv = Inr (Some (cfg, s))" "0 < time_slot cfg"
  shows "sys_inv cfg s"
  using os_main_Some [OF assms(1)]
proof cases
  case (1 ram swps)
  moreover have "cpu_ok (time_slot cfg) cpu_start" using assms(2) by (simp add: cpu_ok_def cpu_start_def)
  ultimately show ?thesis
    using init_sched_ok sample_queue_empty
    by (simp add: sys_inv_def live_procs_def on_cpus_start ld_start_def opt_mset_def loaded_def list_all_length)
qed

lemma sys_inv_cpu:
  assumes inv: "sys_inv cfg s" and ts: "0 < time_slot cfg" and k: "k < length (sys_cpus s)"
    and run: "cpu_routine (time_slot cfg) (sys_cpus s ! k) (sys_machine s) = Inr (e, c, m)"
  shows "sys_inv cfg (s\<lparr>sys_cpus := (sys_cpus s)[k := c], sys_machine := m,
      sys_finished := sys_finished s + finishing (sys_cpus s ! k), sys_timer := t\<rparr>)"
proof -
  let ?c = "sys_cpus s ! k" and ?cs = "(sys_cpus s)[k := c]" and ?pend = "opt_mset (ld_pending (sys_ld s))"
  have ok: "sched_ok (m_sched (sys_machine s))" "cpu_ok (time_slot cfg) ?c"
    using inv k by (auto simp: sys_inv_def list_all_length)
  note h = cpu_routine_held [OF ok ts run, unfolded held_def]
  have u: "on_cpus ?cs + opt_mset (cpu_proc ?c) = on_cpus (sys_cpus s) + opt_mset (cpu_proc c)"
    using on_cpus_update [OF k] .
  have codes: "codes_ok ?pend" "codes_ok (queued (m_sched (sys_machine s)))" "codes_ok (on_cpus (sys_cpus s))"
    using inv by (simp_all add: sys_inv_def live_procs_def)
  then have "codes_ok (opt_mset (cpu_proc c) + queued (m_sched m))" using h(5) codes_ok_nth [OF _ k] by simp
  then have codes': "codes_ok (?pend + queued (m_sched m) + on_cpus ?cs)"
    using codes u by (metis codes_ok_simps(3))
  have "image_mset pid (?pend + queued (m_sched m) + on_cpus ?cs) + finishing ?c + image_mset pid (opt_mset (cpu_proc ?c)) =
      image_mset pid ?pend + (image_mset pid (opt_mset (cpu_proc c) + queued (m_sched m)) + finishing ?c) +
        image_mset pid (on_cpus (sys_cpus s))"
    using arg_cong [OF u, of "image_mset pid"] by (simp add: ac_simps)
  also have "... = image_mset pid (live_procs s) + image_mset pid (opt_mset (cpu_proc ?c))"
    unfolding h(3) [symmetric] live_procs_def by (simp add: ac_simps)
  finally have "image_mset pid (?pend + queued (m_sched m) + on_cpus ?cs) + finishing ?c = image_mset pid (live_procs s)" by simp
  then have pids: "image_mset pid (?pend + queued (m_sched m) + on_cpus ?cs) + (sys_finished s + finishing ?c) =
      image_mset pid (live_procs s) + sys_finished s"
    by (simp add: ac_simps)
  have "list_all (cpu_ok (time_slot cfg)) ?cs"
    using inv h(4) k by (auto simp: sys_inv_def list_all_length nth_list_update)
  then show ?thesis using inv h(1) codes' pids by (simp add: sys_inv_def live_procs_def)
qed

lemma sys_inv_loader:
  assumes inv: "sys_inv cfg s" and n: "num_processes cfg < 2 ^ 31"
    and run: "ld_routine env cfg now (sys_ld s) (sys_machine s) = Inr (e, l, m)"
  shows "sys_inv cfg (s\<lparr>sys_ld := l, sys_machine := m, sys_timer := t\<rparr>)"
proof -
  let ?l = "sys_ld s" and ?cs = "on_cpus (sys_cpus s)"
  note h = ld_routine_held [OF run]
  have ok: "sched_ok (m_sched (sys_machine s))" using inv by (simp add: sys_inv_def)
  have old: "live_procs s = pending_held ?l (sys_machine s) + ?cs" by (simp add: live_procs_def pending_held_def)
  have new: "live_procs (s\<lparr>sys_ld := l, sys_machine := m, sys_timer := t\<rparr>) = pending_held l m + ?cs"
    by (simp add: live_procs_def pending_held_def)
  have pids: "image_mset pid (pending_held l m + ?cs) + sys_finished s =
      image_mset int (mset [1..<Suc (loaded ?l)]) + ld_created ?l l"
    using inv h(2) [OF ok] old by (simp add: sys_inv_def ac_simps)
  have a: "avail_pid ?l = int (Suc (loaded ?l))" "int (loaded ?l) \<le> max 0 (num_processes cfg)"
    using inv by (simp_all add: sys_inv_def)
  have codes: "codes_ok (pending_held l m + ?cs)" using h(5) [OF ok] inv old by (simp add: sys_inv_def)
  have rest: "sched_ok (m_sched m)" "list_all (cpu_ok (time_slot cfg)) (sys_cpus s)"
    using h(1) [OF ok] inv by (simp_all add: sys_inv_def)
  show ?thesis
  proof (cases "loaded l = loaded ?l")
    case True
    then show ?thesis using pids a codes rest h(3) [OF ok] unfolding sys_inv_def new by (simp add: ld_created_def)
  next
    case False
    then have l: "loaded l = Suc (loaded ?l)" "int (loaded ?l) < num_processes cfg" using h(4) [OF ok] by simp_all
    have "avail_pid l = int (Suc (loaded l))" using h(3) [OF ok] l a n by simp
    then show ?thesis using pids l a codes rest unfolding sys_inv_def new by (simp add: ld_created_def)
  qed
qed

lemma sys_inv_reachable:
  assumes "os_reachable b env argv cfg s" "0 < time_slot cfg"
  shows "sys_inv cfg s \<and> num_processes cfg < 2 ^ 31"
  using assms
proof (induction rule: os_reachable.induct)
  case (Boot cfg s)
  have "num_processes cfg < 2 ^ 31" using os_main_Some [OF Boot(1)] read_config_num_processes by blast
  then show ?case using sys_inv_boot Boot by blast
next
  case (Step cfg s s')
  then have inv: "sys_inv cfg s" and n: "num_processes cfg < 2 ^ 31" by simp_all
  from Step(2) have "sys_inv cfg s'"
  proof (cases rule: os_step.cases)
    case (Cpu k e c m)
    then show ?thesis using sys_inv_cpu [OF inv Step(4)] by simp
  next
    case (Loader e l m)
    then show ?thesis using sys_inv_loader [OF inv n] by simp
  next
    case (Clock r t)
    then show ?thesis using inv by (simp add: sys_inv_def live_procs_def)
  qed
  then show ?case using n by simp
qed

section \<open>A simulator that has run out of work\<close>

text \<open>
  The loader has ended, no process is left, and CPU \<open>k\<close> is still attached. The CPU branch
  for an empty CPU never tests \<open>done\<close>, so that the CPU goes on for ever.
\<close>

definition out_of_work :: "nat \<Rightarrow> os_system \<Rightarrow> bool" where
  "out_of_work k s \<longleftrightarrow> k < length (sys_cpus s) \<and> sched_ok (m_sched (sys_machine s)) \<and>
     queued (m_sched (sys_machine s)) = {#} \<and> list_all (\<lambda>c. cpu_proc c = None) (sys_cpus s) \<and>
     dev_list (sys_timer s) \<noteq> [] \<and> fsh (dev_list (sys_timer s) ! ld_dev) \<and>
     \<not> fsh (dev_list (sys_timer s) ! cpu_dev s k)"

lemma idle_cpu_slot:
  assumes "sched_ok (m_sched m)" "queued (m_sched m) = {#}" "cpu_proc c = None"
  shows "cpu_routine ts c m = Inr (Next_slot, c, m)"
  using assms pool.get_none [OF assms(1,2)] by (simp add: cpu_routine_def)

lemma fsh_post: "d < length (dev_list t) \<Longrightarrow> fsh (dev_list (next_slot_post d t) ! j) = fsh (dev_list t ! j)"
  by (cases "j = d") (simp_all add: next_slot_post_def timer_simps split: timer_pc.splits)

lemma working_attached: "timer_inv t \<Longrightarrow> d < length (dev_list t) \<Longrightarrow> dpc (dev_list t ! d) = Working \<Longrightarrow> \<not> fsh (dev_list t ! d)"
  using dev_ok_at [of t d] by (simp add: dev_ok_def)

lemma out_of_work_step:
  assumes o: "out_of_work k s" and inv: "timer_inv (sys_timer s)" and len: "length (dev_list (sys_timer s)) = Suc (length (sys_cpus s))"
    and step: "os_step env cfg s s'"
  shows "out_of_work k s'"
  using step
proof (cases rule: os_step.cases)
  case (Cpu j e c m)
  have "cpu_proc (sys_cpus s ! j) = None" using o Cpu(2) by (simp add: out_of_work_def list_all_length)
  then have "e = Next_slot" "c = sys_cpus s ! j" "m = sys_machine s" "finishing (sys_cpus s ! j) = {#}"
    using Cpu(4) o idle_cpu_slot by (auto simp: out_of_work_def finishing_def)
  then have s': "s' = s\<lparr>sys_timer := next_slot_post (cpu_dev s j) (sys_timer s)\<rparr>"
    using Cpu(1) by (simp add: leave_slot_def)
  have d: "cpu_dev s j < length (dev_list (sys_timer s))" using len by (simp add: cpu_dev_def)
  have "length (dev_list (next_slot_post (cpu_dev s j) (sys_timer s))) = length (dev_list (sys_timer s))"
    by (simp add: next_slot_post_def timer_simps split: timer_pc.splits)
  then have "dev_list (next_slot_post (cpu_dev s j) (sys_timer s)) \<noteq> []" using len by auto
  then show ?thesis using o s' fsh_post [OF d] by (simp add: out_of_work_def cpu_dev_def)
next
  case (Loader e l m)
  then have "\<not> fsh (dev_list (sys_timer s) ! ld_dev)" using working_attached [OF inv] by (simp add: at_work_def)
  then show ?thesis using o by (simp add: out_of_work_def)
next
  case (Clock r t)
  have f: "length (dev_list t) = length (dev_list (sys_timer s))" "map fsh (dev_list t) = map fsh (dev_list (sys_timer s))"
    using Clock(3) map_eq_imp_length_eq [of fsh "dev_list t"] by (auto simp: same_posts_def)
  have "fsh (dev_list t ! d) = fsh (dev_list (sys_timer s) ! d)" if "d < length (dev_list (sys_timer s))" for d
    using f that by (metis nth_map)
  moreover have "dev_list t \<noteq> []" "cpu_dev s k < length (dev_list (sys_timer s))" "ld_dev < length (dev_list (sys_timer s))"
    using len f(1) by (auto simp: cpu_dev_def ld_dev_def)
  ultimately show ?thesis using o Clock(1) by (simp add: out_of_work_def cpu_dev_def)
qed

lemma os_reachable_steps:
  "(os_step env cfg)\<^sup>*\<^sup>* s s' \<Longrightarrow> os_reachable b env argv cfg s \<Longrightarrow> os_reachable b env argv cfg s'"
  by (induction rule: rtranclp_induct) (auto intro: os_reachable.Step)

lemma out_of_work_steps:
  assumes "(os_step env cfg)\<^sup>*\<^sup>* s s'" "os_reachable b env argv cfg s" "out_of_work k s"
  shows "out_of_work k s'"
  using assms(1,3)
proof (induction rule: rtranclp_induct)
  case (step x y)
  have "os_reachable b env argv cfg x" using os_reachable_steps [OF step(1) assms(2)] .
  then have t: "timer_reachable (Suc (length (sys_cpus x))) (sys_timer x)" by (rule os_reachable_timer)
  show ?case
    using out_of_work_step [OF _ timer_inv_reachable [OF t] reachable_length [OF t] step(2)] step by simp
qed

section \<open>Booting\<close>

lemma boot_device_total: "\<exists>mp. boot_device b i sz = Inr mp"
  by (auto simp: boot_device_def init_memphy_def MEMPHY_format_def PAGING_PAGESZ_def Let_def)

lemma boot_swaps_total: "\<exists>mps. boot_swaps b i szs = Inr mps \<and> length mps = length szs"
proof (induction szs arbitrary: i)
  case (Cons sz szs)
  obtain mp where "boot_device b (Suc i) sz = Inr mp" using boot_device_total by blast
  then show ?case using Cons [of "Suc i"] by auto
qed simp

lemma os_main_config:
  assumes "length argv = 2" "length (c_str (argv ! 1)) < 94" "read_config (env_fs env) (input_dir @ c_str (argv ! 1)) = Inr cfg"
  shows "\<exists>s. os_main b env argv = Inr (Some (cfg, s))"
proof -
  obtain ram where "boot_device b 0 (memramsz cfg) = Inr ram" using boot_device_total by blast
  moreover obtain swps where "boot_swaps b 0 (memswpsz cfg) = Inr swps" using boot_swaps_total by blast
  ultimately show ?thesis
    using assms by (simp add: os_main_def strcat_path_def input_dir_def path_cap_def Let_def)
qed

text \<open>The devices after booting.\<close>

lemma boot_device_ok:
  assumes "512 \<le> sz" "boot_device b i sz = Inr mp"
  shows "frames_ok mp \<and> rdmflg mp \<and> maxsz mp = sz"
  using init_memphy_frames [of sz "boot_storage b i" "boot_link b i" "boot_memphy b i" 1] assms
  by (auto simp: boot_device_def PAGING_PAGESZ_def)

lemma os_main_devices:
  assumes "os_main b env argv = Inr (Some (cfg, s))"
  shows "boot_device b 0 (memramsz cfg) = Inr (m_ram (sys_machine s))"
    "boot_device b 1 (memswpsz cfg ! 0) = Inr (m_swp (sys_machine s))"
    "sys_ld s = ld_start" "m_sched (sys_machine s) = init_scheduler static_sched"
proof -
  obtain path ram swps where m: "read_config (env_fs env) path = Inr cfg" "boot_device b 0 (memramsz cfg) = Inr ram"
      "boot_swaps b 0 (memswpsz cfg) = Inr swps" "m_ram (sys_machine s) = ram" "m_swp (sys_machine s) = swps ! 0"
      "sys_ld s = ld_start" "m_sched (sys_machine s) = init_scheduler static_sched"
    using assms by (auto simp: os_main_def Let_def res_simps split: if_splits)
  obtain sz szs where "memswpsz cfg = sz # szs"
    using read_config_swaps [OF m(1)] by (cases "memswpsz cfg") (auto simp: PAGING_MAX_MMSWP_def)
  then show "boot_device b 0 (memramsz cfg) = Inr (m_ram (sys_machine s))"
    "boot_device b 1 (memswpsz cfg ! 0) = Inr (m_swp (sys_machine s))"
    "sys_ld s = ld_start" "m_sched (sys_machine s) = init_scheduler static_sched"
    using m by (auto simp: res_simps)
qed

text \<open>A simulator with one CPU and no process.\<close>

definition sample_cfg :: os_config where
  "sample_cfg = \<lparr>time_slot = 2, num_cpus = 1, num_processes = 0, memramsz = 1024, memswpsz = [4096, 0, 0, 0], ld_processes = []\<rparr>"

definition sample_env :: ld_env where
  "sample_env = \<lparr>env_fs = (\<lambda>_. Some ''2 1 0 1024 4096 0 0 0''), env_pcb = (\<lambda>_. sample_pcb 0 0),
     env_text = (\<lambda>_ _. hd sample_insts), env_mm = (\<lambda>_. sample_mm), env_link = (\<lambda>_. None)\<rparr>"

definition sample_boot :: boot_env where
  "sample_boot = \<lparr>boot_storage = (\<lambda>_ _. 0), boot_link = (\<lambda>_. CWild), boot_memphy = (\<lambda>_. sample_dev 0 [])\<rparr>"

lemma sample_config: "read_config (env_fs sample_env) path = Inr sample_cfg"
  unfolding sample_env_def sample_cfg_def ld_env.simps by (rule sample_config_text)

lemma sample_reachable:
  obtains s where "os_reachable sample_boot sample_env [''os'', ''empty''] sample_cfg s" "sys_ld s = ld_start"
    "sys_cpus s = [cpu_start]" "sys_timer s = timer_init 2" "m_sched (sys_machine s) = init_scheduler static_sched"
proof -
  obtain s where s: "os_main sample_boot sample_env [''os'', ''empty''] = Inr (Some (sample_cfg, s))"
    using os_main_config [of "[''os'', ''empty'']" sample_env sample_cfg] sample_config by (auto simp: c_str_def)
  obtain ram swps where "s = \<lparr>sys_timer = timer_init (Suc (nat (num_cpus sample_cfg))),
      sys_machine = \<lparr>m_sched = init_scheduler static_sched, m_ram = ram, m_swp = swps ! 0, m_idle_swp = drop 1 swps, m_done = False\<rparr>,
      sys_cpus = replicate (nat (num_cpus sample_cfg)) cpu_start, sys_ld = ld_start, sys_finished = {#}\<rparr>"
    by (rule os_main_Some [OF s])
  moreover have "nat (num_cpus sample_cfg) = 1" by (simp add: sample_cfg_def)
  ultimately show thesis by (intro that [OF os_reachable.Boot [OF s]]) (simp_all add: numeral_2_eq_2)
qed

lemma sample_out_of_work:
  obtains s where "os_reachable sample_boot sample_env [''os'', ''empty''] sample_cfg s" "out_of_work 0 s"
proof -
  obtain s where s: "os_reachable sample_boot sample_env [''os'', ''empty''] sample_cfg s" "sys_ld s = ld_start"
    "sys_cpus s = [cpu_start]" "sys_timer s = timer_init 2" "m_sched (sys_machine s) = init_scheduler static_sched"
    by (rule sample_reachable)
  let ?s = "s\<lparr>sys_ld := ld_start, sys_machine := (sys_machine s)\<lparr>m_done := True\<rparr>, sys_timer := leave_slot Thread_end ld_dev (sys_timer s)\<rparr>"
  have "at_work s ld_dev" by (simp add: at_work_def s(4) timer_init_eq ld_dev_def new_device_def)
  moreover have "ld_routine sample_env sample_cfg (current_time (sys_timer s)) (sys_ld s) (sys_machine s) =
      Inr (Thread_end, ld_start, (sys_machine s)\<lparr>m_done := True\<rparr>)"
    using s(2) by (simp add: ld_routine_def ld_start_def sample_cfg_def)
  ultimately have "os_step sample_env sample_cfg s ?s" by (rule os_step.Loader)
  then have r: "os_reachable sample_boot sample_env [''os'', ''empty''] sample_cfg ?s" by (rule os_reachable.Step [OF s(1)])
  have "out_of_work 0 ?s"
    using s(3,5) init_sched_ok sample_queue_empty
    by (simp add: out_of_work_def s(4) timer_init_eq leave_slot_def detach_event_def timer_simps ld_dev_def cpu_dev_def
        new_device_def cpu_start_def numeral_2_eq_2)
  then show thesis using that r by blast
qed

section \<open>The first process\<close>

text \<open>
  The page table, the register table and the first area of a process come from \<open>malloc\<close>, and
  \<open>init_mm\<close> does not initialise them. A process starts in order when what \<open>malloc\<close> returned has
  no entry marked present and only empty registers, as zeroed memory has; the page list may
  hold anything. \<open>malloc_zeroed\<close> says that of every process, and that the link of its first
  area is \<open>NULL\<close>; nothing in the code guarantees it.
\<close>

definition zeroed_mm :: "mm_struct \<Rightarrow> bool" where
  "zeroed_mm m \<longleftrightarrow> (\<forall>p. \<not> PAGING_PAGE_PRESENT (pgd m p)) \<and>
     symrgtbl m = replicate PAGING_MAX_SYMTBL_SZ \<lparr>rg_start = 0, rg_end = 0, rg_next = None\<rparr> \<and>
     rg_cells (rgs m) = Map.empty"

definition malloc_zeroed :: "ld_env \<Rightarrow> bool" where
  "malloc_zeroed env \<longleftrightarrow> (\<forall>i. zeroed_mm (env_mm env i) \<and> env_link env i = None)"

lemma fresh_proc_ok:
  assumes z: "zeroed_mm mm0" and ram: "frames_ok ram" "rdmflg ram" "maxsz ram \<le> 2 ^ 21"
    and sw: "frames_ok sw" "rdmflg sw" "maxsz sw \<le> 2 ^ 29" and run: "init_mm mm0 None = Inr (r, mm)"
  shows "proc_ok (caller_ctx mm ram sw)" "area_pages (caller_ctx mm ram sw) = {}"
proof -
  let ?c = "caller_ctx mm ram sw"
  obtain a where m: "mmap mm = [\<lparr>vm_id = 1, vm_start = 0, vm_end = 0, sbrk = 0, vm_freerg_list = Some a\<rparr>]"
      "freelist0 (rgs mm) (Some a) [] a []" "pgd mm = pgd mm0" "symrgtbl mm = symrgtbl mm0"
    using init_mm_ok [of mm0] z run by (auto simp: zeroed_mm_def)
  have rg: "regions_of mm = replicate PAGING_MAX_SYMTBL_SZ (0, 0)"
    using z m(4) by (simp add: zeroed_mm_def regions_of_def)
  have "vm_state ?c \<lparr>vm_id = 1, vm_start = 0, vm_end = 0, sbrk = 0, vm_freerg_list = Some a\<rparr> [] a []"
    using m ram(1) sw(1) z rg
    by (simp add: vm_state_def zeroed_mm_def fl_inv_def fl_ok_def bytes_def PAGING_PAGE_ALIGNSZ_def PAGING_PAGESZ_def u64_def)
  then have "vm_inv ?c" unfolding vm_inv_def by blast
  moreover have "\<not> in_ram ?c p" for p using z m(3) by (simp add: in_ram_def zeroed_mm_def)
  then have "map_ok {} ?c" by (simp add: map_ok_def ram_pages_def swp_pages_def)
  moreover show "area_pages ?c = {}" using m(1) by (simp add: area_pages_def pages_for_def)
  moreover have "devices_ok ?c" using ram sw by (simp add: devices_ok_def)
  ultimately show "proc_ok ?c" by (simp add: proc_ok_def)
qed

text \<open>The loader, started on the booted machine, admits its first process at once when it may.\<close>

lemma first_admitted:
  assumes boot: "os_main b env argv = Inr (Some (cfg, s))"
    and run: "ld_routine env cfg now (sys_ld s) (sys_machine s) = Inr (e, l, m)" and adm: "ld_i l = 1"
  obtains p r mm where "queued (m_sched m) = {#p#}" "code_ok p" "pc p = 0" "pid p = 1" "p_mm p = Some mm"
    "init_mm (env_mm env 0) (env_link env 0) = Inr (r, mm)" "m_ram m = m_ram (sys_machine s)" "m_swp m = m_swp (sys_machine s)"
proof -
  note d = os_main_devices [OF boot]
  have ok: "sched_ok (m_sched (sys_machine s))" "queued (m_sched (sys_machine s)) = {#}"
    using d(4) init_sched_ok sample_queue_empty by simp_all
  from run obtain a q l1 where q: "ld_load env a (sys_ld s) = Inr (q, l1)"
      "ld_admit env now a q l1 (sys_machine s) = Inr (e, l, m)"
    using adm d(3) by (cases rule: ld_routine_cases) (auto simp: ld_start_def)
  note ld = ld_load_Inr [OF q(1)]
  have l1: "ld_i l1 = 0" "avail_pid (sys_ld s) = 1" using ld(1) d(3) by (simp_all add: ld_start_def)
  then have "\<not> now < ld_start_time a" using q(2) adm by (auto simp: ld_admit_def)
  then obtain r mm sc where mm: "init_mm (env_mm env 0) (env_link env 0) = Inr (r, mm)"
      "put_proc (m_sched (sys_machine s)) (q\<lparr>p_mm := Some mm\<rparr>) = Inr sc" "m = (sys_machine s)\<lparr>m_sched := sc\<rparr>"
    using q(2) l1 by (auto simp: ld_admit_def res_simps add_eq_put_proc)
  have "queued sc = {#q\<lparr>p_mm := Some mm\<rparr>#}" using queued_put [OF ok(1) mm(2)] ok(2) by simp
  then show thesis using that [of "q\<lparr>p_mm := Some mm\<rparr>" mm r] mm(1,3) ld(2-4) l1(2) by simp
qed

text \<open>A simulator with one CPU and one process.\<close>

definition sample_cfg1 :: os_config where
  "sample_cfg1 = \<lparr>time_slot = 2, num_cpus = 1, num_processes = 1, memramsz = 1024, memswpsz = [4096, 0, 0, 0],
     ld_processes = [\<lparr>ld_path = ''input/proc/p'', ld_start_time = 0, ld_prio = Some 0\<rparr>]\<rparr>"

definition sample_env1 :: ld_env where
  "sample_env1 = \<lparr>env_fs = (\<lambda>f. if f = ''input/proc/p'' then Some ''1 1 calc'' else Some ''2 1 1 1024 4096 0 0 0 0 p 0''),
     env_pcb = (\<lambda>_. sample_pcb 0 0), env_text = (\<lambda>_ _. hd sample_insts),
     env_mm = (\<lambda>_. sample_mm\<lparr>rgs := (rgs sample_mm)\<lparr>rg_cells := Map.empty\<rparr>\<rparr>), env_link = (\<lambda>_. None)\<rparr>"

lemma sample_first_run:
  obtains s e l m where "os_main sample_boot sample_env1 [''os'', ''one''] = Inr (Some (sample_cfg1, s))"
    "ld_routine sample_env1 sample_cfg1 0 (sys_ld s) (sys_machine s) = Inr (e, l, m)" "ld_i l = 1"
proof -
  have cfg: "read_config (\<lambda>f. if f = ''input/proc/p'' then Some ''1 1 calc'' else Some ''2 1 1 1024 4096 0 0 0 0 p 0'')
      ''input/one'' = Inr sample_cfg1"
    by code_simp
  obtain s where s: "os_main sample_boot sample_env1 [''os'', ''one''] = Inr (Some (sample_cfg1, s))"
    using os_main_config [of "[''os'', ''one'']" sample_env1 sample_cfg1] cfg
    by (auto simp: c_str_def sample_env1_def input_dir_def)
  note d = os_main_devices [OF s]
  let ?a = "\<lparr>ld_path = ''input/proc/p'', ld_start_time = 0, ld_prio = Some 0\<rparr>"
  have "case ld_load sample_env1 ?a ld_start of Inr (q, l) \<Rightarrow> prio q = 0 \<and> ld_i l = 0 | Inl _ \<Rightarrow> False" by code_simp
  then obtain q l1 where q: "ld_load sample_env1 ?a ld_start = Inr (q, l1)" "prio q = 0" "ld_i l1 = 0"
    by (auto split: sum.splits)
  obtain r mm where mm: "init_mm (env_mm sample_env1 0) (env_link sample_env1 0) = Inr (r, mm)"
    using init_mm_ok [of "env_mm sample_env1 0"] by (auto simp: sample_env1_def)
  obtain sc where "put_proc (init_scheduler static_sched) (q\<lparr>p_mm := Some mm\<rparr>) = Inr sc"
    using init_put [of "q\<lparr>p_mm := Some mm\<rparr>"] q(2) by (auto simp: MAX_PRIO_def)
  then have "ld_admit sample_env1 0 ?a q l1 (sys_machine s) =
      Inr (Next_slot, l1\<lparr>ld_i := 1, ld_pending := None\<rparr>, (sys_machine s)\<lparr>m_sched := sc\<rparr>)"
    using mm q(3) d(4) by (simp add: ld_admit_def add_eq_put_proc)
  then have "ld_routine sample_env1 sample_cfg1 0 (sys_ld s) (sys_machine s) =
      Inr (Next_slot, l1\<lparr>ld_i := 1, ld_pending := None\<rparr>, (sys_machine s)\<lparr>m_sched := sc\<rparr>)"
    using q(1) d(3) by (simp add: ld_routine_def sample_cfg1_def ld_start_def)
  then show thesis using that [OF s] by simp
qed

section \<open>Properties\<close>

text \<open>
  C5: in every state the simulator can reach, no process is lost and none is doubled: the pids
  of the processes in the loader, in the queues and on the CPUs, together with those that
  have finished, are exactly the numbers from 1 to the count of loaded processes, each once.
  Their code segments are intact, the scheduler is well formed and every CPU is within its
  time slice.
\<close>

theorem no_process_lost:
  assumes "os_reachable b env argv cfg s" and "0 < time_slot cfg"
  shows "image_mset pid (live_procs s) + sys_finished s = image_mset int (mset [1..<Suc (loaded (sys_ld s))]) \<and>
    codes_ok (live_procs s) \<and> int (loaded (sys_ld s)) \<le> max 0 (num_processes cfg) \<and>
    sched_ok (m_sched (sys_machine s)) \<and> list_all (cpu_ok (time_slot cfg)) (sys_cpus s)"
  using sys_inv_reachable [OF assms] by (simp add: sys_inv_def)

theorem no_process_lost_witness:
  "\<exists>s. os_reachable sample_boot sample_env [''os'', ''empty''] sample_cfg s \<and> codes_ok (live_procs s) \<and> sys_cpus s = [cpu_start]"
proof -
  obtain s where "os_reachable sample_boot sample_env [''os'', ''empty''] sample_cfg s" "sys_cpus s = [cpu_start]"
    by (rule sample_reachable)
  moreover have "0 < time_slot sample_cfg" by (simp add: sample_cfg_def)
  ultimately show ?thesis using no_process_lost by blast
qed

text \<open>
  C20: the threads of the simulator run in lockstep: no thread has completed more slots than one
  more than any thread that is still attached to the timer, nor more than that thread has
  posted.
\<close>

theorem threads_in_lockstep:
  assumes "os_reachable b env argv cfg s" and "i \<le> length (sys_cpus s)" and "j \<le> length (sys_cpus s)"
    and "\<not> fsh (dev_list (sys_timer s) ! j)"
  shows "calls (dev_list (sys_timer s) ! i) \<le> Suc (calls (dev_list (sys_timer s) ! j)) \<and>
    calls (dev_list (sys_timer s) ! i) \<le> posts (dev_list (sys_timer s) ! j)"
proof -
  have t: "timer_reachable (Suc (length (sys_cpus s))) (sys_timer s)" by (rule os_reachable_timer [OF assms(1)])
  have d: "i < length (dev_list (sys_timer s))" "j < length (dev_list (sys_timer s))"
    using reachable_length [OF t] assms(2,3) by simp_all
  show ?thesis
    using tm.lockstep [OF timer_inv_reachable [OF t] d] tm.nobody_ahead [OF timer_inv_reachable [OF t] d] assms(4) by blast
qed

theorem threads_in_lockstep_witness:
  "\<exists>s. os_reachable sample_boot sample_env [''os'', ''empty''] sample_cfg s \<and>
    calls (dev_list (sys_timer s) ! 0) \<le> posts (dev_list (sys_timer s) ! 1)"
proof -
  obtain s where s: "os_reachable sample_boot sample_env [''os'', ''empty''] sample_cfg s" "sys_cpus s = [cpu_start]"
      "sys_timer s = timer_init 2"
    by (rule sample_reachable)
  have "\<not> fsh (dev_list (timer_init 2) ! 1)" by (simp add: timer_init_eq new_device_def)
  then show ?thesis using threads_in_lockstep [OF s(1), of 0 1] s by auto
qed

text \<open>
  C21: the simulator does not end. Once the loader has ended and no process is left, a CPU
  that is still attached to the timer stays attached in every later state and the timer
  thread never stops, so that the joins of \<open>main\<close> never return: the branch of
  \<open>cpu_routine\<close> for an empty CPU does not look at \<open>done\<close>.
\<close>

theorem idle_simulator_never_ends:
  assumes "os_reachable b env argv cfg s" and "out_of_work k s" and "(os_step env cfg)\<^sup>*\<^sup>* s s'"
  shows "\<not> fsh (dev_list (sys_timer s') ! cpu_dev s' k) \<and> tpc (sys_timer s') \<noteq> TStopped"
proof -
  have o: "out_of_work k s'" using out_of_work_steps [OF assms(3,1,2)] .
  have "os_reachable b env argv cfg s'" using os_reachable_steps [OF assms(3,1)] .
  then have t: "timer_reachable (Suc (length (sys_cpus s'))) (sys_timer s')" by (rule os_reachable_timer)
  have "cpu_dev s' k < length (dev_list (sys_timer s'))" using reachable_length [OF t] by (simp add: cpu_dev_def)
  then show ?thesis
    using o timer_inv_reachable [OF t] by (auto simp: out_of_work_def timer_inv_def timer_simps)
qed

theorem idle_simulator_never_ends_witness:
  "\<exists>s. os_reachable sample_boot sample_env [''os'', ''empty''] sample_cfg s \<and> out_of_work 0 s \<and> tpc (sys_timer s) \<noteq> TStopped"
proof -
  obtain s where "os_reachable sample_boot sample_env [''os'', ''empty''] sample_cfg s" "out_of_work 0 s"
    by (rule sample_out_of_work)
  then show ?thesis using idle_simulator_never_ends by blast
qed

end
