(* ===== verification/OS_Isolation.thy ===== *)
theory OS_Isolation
  imports OS_System
begin

text \<open>
  The memory of all processes of the simulator. The processes share the RAM and one swap
  device of \<open>src/os.c\<close>; each maps its pages to frames of its own. The invariant of one
  process (theory OS_Access) is extended to all of them and carried from \<open>main\<close> through
  every slot of a CPU and of the loader.
\<close>

section \<open>The frames of a process\<close>

definition mapped_pages :: "mm_struct \<Rightarrow> int set" where
  "mapped_pages m = {0 ..< pages_for (sbrk (hd (mmap m)))}"

definition own_ram :: "mm_struct \<Rightarrow> int set" where
  "own_ram m = (\<lambda>p. PAGING_FPN (pgd m p)) ` {p \<in> mapped_pages m. PAGING_PAGE_PRESENT (pgd m p)}"

definition own_swp :: "mm_struct \<Rightarrow> int set" where
  "own_swp m = (\<lambda>p. PAGING_SWP (pgd m p)) ` {p \<in> mapped_pages m. \<not> PAGING_PAGE_PRESENT (pgd m p)}"

lemma own_frames:
  "mapped_pages (c_mm c) = area_pages c" "own_ram (c_mm c) = ram_frame c ` ram_pages (area_pages c) c"
  "own_swp (c_mm c) = swp_frame c ` swp_pages (area_pages c) c"
  by (simp_all add: mapped_pages_def area_pages_def own_ram_def own_swp_def ram_frame_def [abs_def] swp_frame_def [abs_def]
      ram_pages_def swp_pages_def in_ram_def)

definition no_shared_frame :: "pcb_t \<Rightarrow> pcb_t \<Rightarrow> bool" where
  "no_shared_frame p q =
     (case (p_mm p, p_mm q) of
        (Some m, Some m') \<Rightarrow> own_ram m \<inter> own_ram m' = {} \<and> own_swp m \<inter> own_swp m' = {}
      | _ \<Rightarrow> True)"

definition mem_in_order :: "memphy_struct \<Rightarrow> memphy_struct \<Rightarrow> pcb_t \<Rightarrow> bool" where
  "mem_in_order ram sw p = (case p_mm p of None \<Rightarrow> False | Some m \<Rightarrow> proc_ok (caller_ctx m ram sw))"

definition dev_pair_ok :: "memphy_struct \<Rightarrow> memphy_struct \<Rightarrow> bool" where
  "dev_pair_ok ram sw \<longleftrightarrow> frames_ok ram \<and> frames_ok sw \<and> rdmflg ram \<and> rdmflg sw \<and> maxsz ram \<le> 2 ^ 21 \<and> maxsz sw \<le> 2 ^ 29"

lemma dev_pair_ctx: "devices_ok (caller_ctx m ram sw) = dev_pair_ok ram sw"
  by (simp add: devices_ok_def dev_pair_ok_def)

text \<open>
  The memory of a collection of processes: each is in order, no two share a frame.
\<close>

definition mems_ok :: "memphy_struct \<Rightarrow> memphy_struct \<Rightarrow> pcb_t multiset \<Rightarrow> bool" where
  "mems_ok ram sw P \<longleftrightarrow> dev_pair_ok ram sw \<and> (\<forall>p \<in># P. mem_in_order ram sw p) \<and>
     (\<forall>p \<in># P. \<forall>q \<in># P - {#p#}. no_shared_frame p q)"

lemma no_shared_sym: "no_shared_frame p q = no_shared_frame q p"
  by (auto simp: no_shared_frame_def split: option.splits)

lemma pairs_add:
  assumes "\<And>p q. f p q = f q p"
  shows "(\<forall>a \<in># add_mset p R. \<forall>b \<in># add_mset p R - {#a#}. f a b) \<longleftrightarrow>
    (\<forall>q \<in># R. f p q) \<and> (\<forall>a \<in># R. \<forall>b \<in># R - {#a#}. f a b)"
proof (rule iffI)
  assume l: "\<forall>a \<in># add_mset p R. \<forall>b \<in># add_mset p R - {#a#}. f a b"
  have "f a b" if "a \<in># R" "b \<in># R - {#a#}" for a b
  proof -
    have "b \<in># add_mset p R - {#a#}" using that diff_union_single_conv [of a R "{#p#}"] by simp
    then show ?thesis using l that(1) by auto
  qed
  moreover have "f p q" if "q \<in># R" for q using l that by simp
  ultimately show "(\<forall>q \<in># R. f p q) \<and> (\<forall>a \<in># R. \<forall>b \<in># R - {#a#}. f a b)" by blast
next
  assume r: "(\<forall>q \<in># R. f p q) \<and> (\<forall>a \<in># R. \<forall>b \<in># R - {#a#}. f a b)"
  have "f a b" if "a \<in># add_mset p R" "b \<in># add_mset p R - {#a#}" for a b
  proof (cases "a = p")
    case True
    then show ?thesis using r that by simp
  next
    case False
    then have a: "a \<in># R" using that(1) by simp
    then have "b \<in># add_mset p (R - {#a#})" using that(2) diff_union_single_conv [of a R "{#p#}"] by simp
    then show ?thesis using r a assms [of a b] by auto
  qed
  then show "\<forall>a \<in># add_mset p R. \<forall>b \<in># add_mset p R - {#a#}. f a b" by blast
qed

lemma mems_ok_add:
  "mems_ok ram sw (add_mset p R) \<longleftrightarrow> mem_in_order ram sw p \<and> (\<forall>q \<in># R. no_shared_frame p q) \<and> mems_ok ram sw R"
  using pairs_add [of no_shared_frame, OF no_shared_sym] by (auto simp: mems_ok_def)

lemma mems_ok_empty: "mems_ok ram sw {#} = dev_pair_ok ram sw"
  by (simp add: mems_ok_def)

lemma mems_ok_sub: "mems_ok ram sw (R + S) \<Longrightarrow> mems_ok ram sw R"
  by (induction S) (auto simp: mems_ok_add)

section \<open>One process runs\<close>

text \<open>Byte \<open>k\<close> of page \<open>i\<close> of a process, on given devices.\<close>

definition proc_byte :: "memphy_struct \<Rightarrow> memphy_struct \<Rightarrow> pcb_t \<Rightarrow> int \<Rightarrow> int \<Rightarrow> byte option" where
  "proc_byte ram sw p i k = map_option (\<lambda>m. page_byte (caller_ctx m ram sw) i k) (p_mm p)"

text \<open>The pages of a process have the same bytes on both pairs of devices.\<close>

definition pages_kept :: "memphy_struct \<Rightarrow> memphy_struct \<Rightarrow> memphy_struct \<Rightarrow> memphy_struct \<Rightarrow> pcb_t \<Rightarrow> bool" where
  "pages_kept ram sw ram' sw' p \<longleftrightarrow>
     (\<forall>m i k. p_mm p = Some m \<and> i \<in> mapped_pages m \<and> k \<in> {0 ..< PAGING_PAGESZ} \<longrightarrow>
        proc_byte ram' sw' p i k = proc_byte ram sw p i k)"

lemma pages_kept_refl [simp]: "pages_kept ram sw ram sw p"
  by (simp add: pages_kept_def)

lemma caller_ctx_mm: "c\<lparr>c_mm := m\<rparr> = caller_ctx m (c_mram c) (c_mswp c)"
  by (simp add: caller_ctx_def)

lemma mem_in_order_D:
  assumes "mem_in_order ram sw p"
  obtains m where "p_mm p = Some m" "proc_ok (caller_ctx m ram sw)"
  using assms by (auto simp: mem_in_order_def split: option.splits)

lemma disjoint_apart:
  assumes "proc_ok c" "mem_in_order (c_mram c) (c_mswp c) q" "p_mm q = Some m" "p_mm p = Some (c_mm c)" "no_shared_frame p q"
  shows "apart (area_pages c) c (mapped_pages m) m"
proof -
  let ?d = "caller_ctx m (c_mram c) (c_mswp c)"
  have d: "map_ok (mapped_pages m) ?d"
    using assms(2,3) own_frames(1) [of ?d] by (simp add: mem_in_order_def proc_ok_def)
  have "own_ram m \<inter> set (free_of (c_mram c)) = {}" "own_swp m \<inter> set (free_of (c_mswp c)) = {}"
    using d own_frames [of ?d] by (auto simp: map_ok_def)
  moreover have "own_ram (c_mm c) \<inter> own_ram m = {}" "own_swp (c_mm c) \<inter> own_swp m = {}"
    using assms(3-5) by (simp_all add: no_shared_frame_def)
  ultimately have "own_ram m \<inter> ram_reach (area_pages c) c = {}" "own_swp m \<inter> swp_reach (area_pages c) c = {}"
    using own_frames(2,3) [of c] by (auto simp: ram_reach_def swp_reach_def)
  then show ?thesis
    using d own_frames [of ?d] unfolding apart_def Let_def caller_ctx_mm by simp
qed

lemma vm_inv_devices:
  assumes "vm_inv (caller_ctx m ram sw)" "frames_ok ram'" "frames_ok sw'"
  shows "vm_inv (caller_ctx m ram' sw')"
  using assms by (auto simp: vm_inv_def vm_state_def)

lemma other_kept:
  assumes ok: "proc_ok c" "proc_ok c'" and cf: "confined (area_pages c) c (area_pages c') c'"
    and p: "p_mm p = Some (c_mm c)" "p_mm p' = Some (c_mm c')"
    and q: "mem_in_order (c_mram c) (c_mswp c) q" "no_shared_frame p q"
  shows "mem_in_order (c_mram c') (c_mswp c') q" "no_shared_frame p' q" "pages_kept (c_mram c) (c_mswp c) (c_mram c') (c_mswp c') q"
proof -
  obtain m where m: "p_mm q = Some m" "proc_ok (caller_ctx m (c_mram c) (c_mswp c))" using q(1) by (rule mem_in_order_D)
  let ?d = "caller_ctx m (c_mram c) (c_mswp c)" and ?d' = "caller_ctx m (c_mram c') (c_mswp c')"
  have ap: "apart (area_pages c) c (mapped_pages m) m" using disjoint_apart [OF ok(1) q(1) m(1) p(1) q(2)] .
  have ap': "apart (area_pages c') c' (mapped_pages m) m" using confined_apart [OF cf ap] .
  note own = own_frames [of ?d', unfolded caller_ctx_fields]
  have mo: "map_ok (mapped_pages m) ?d'" and dj: "own_ram m \<inter> ram_reach (area_pages c') c' = {}"
      "own_swp m \<inter> swp_reach (area_pages c') c' = {}"
    using ap' unfolding apart_def Let_def caller_ctx_mm own(2,3) by (simp_all add: own(1))
  have dev: "devices_ok ?d'" using ok(2) by (simp add: proc_ok_def devices_ok_def)
  have "vm_inv ?d'"
    using m(2) dev vm_inv_devices [of m "c_mram c" "c_mswp c"] by (simp add: proc_ok_def devices_ok_def)
  then show "mem_in_order (c_mram c') (c_mswp c') q" using m(1) mo dev own(1) by (simp add: mem_in_order_def proc_ok_def)
  show "no_shared_frame p' q"
    using dj m(1) p(2) own_frames(2,3) [of c'] by (auto simp: no_shared_frame_def ram_reach_def swp_reach_def)
  show "pages_kept (c_mram c) (c_mswp c) (c_mram c') (c_mswp c') q"
    using confined_isolates [OF cf ap] m(1) by (simp add: pages_kept_def proc_byte_def caller_ctx_mm)
qed

text \<open>
  The memory of all processes stays in order when one of them runs confined to its reach, and
  the pages of the others keep their bytes.
\<close>

lemma mems_ok_step:
  assumes "mems_ok (c_mram c) (c_mswp c) (add_mset p R)" "p_mm p = Some (c_mm c)"
    and "proc_ok c'" "confined (area_pages c) c (area_pages c') c'" "p_mm p' = Some (c_mm c')"
  shows "mems_ok (c_mram c') (c_mswp c') (add_mset p' R)"
    "\<forall>q \<in># R. pages_kept (c_mram c) (c_mswp c) (c_mram c') (c_mswp c') q"
proof -
  have c: "proc_ok c" using assms(1,2) by (simp add: mems_ok_add mem_in_order_def)
  have R: "\<forall>q \<in># R. mem_in_order (c_mram c) (c_mswp c) q \<and> no_shared_frame p q"
      "\<forall>a \<in># R. \<forall>b \<in># R - {#a#}. no_shared_frame a b"
    using assms(1) by (auto simp: mems_ok_add mems_ok_def)
  note k = other_kept [OF c assms(3,4,2,5)]
  have "dev_pair_ok (c_mram c') (c_mswp c')" using assms(3) dev_pair_ctx [of "c_mm c'" "c_mram c'" "c_mswp c'"] by (simp add: proc_ok_def)
  then have "mems_ok (c_mram c') (c_mswp c') R" using R k(1) by (simp add: mems_ok_def)
  moreover have "mem_in_order (c_mram c') (c_mswp c') p'" using assms(3,5) by (simp add: mem_in_order_def)
  ultimately show "mems_ok (c_mram c') (c_mswp c') (add_mset p' R)" using R(1) k(2) by (simp add: mems_ok_add)
  show "\<forall>q \<in># R. pages_kept (c_mram c) (c_mswp c) (c_mram c') (c_mswp c') q" using R(1) k(3) by blast
qed

text \<open>
  The next instruction of a process is safe: it keeps the process in order and to itself if it
  returns. The definition of \<open>instr_safe\<close> says which instructions are excluded.
\<close>

definition next_safe :: "memphy_struct \<Rightarrow> memphy_struct \<Rightarrow> pcb_t \<Rightarrow> bool" where
  "next_safe ram sw p \<longleftrightarrow>
     (pc p < code_size (code p) \<longrightarrow>
       (case p_mm p of
          None \<Rightarrow> False
        | Some m \<Rightarrow> instr_safe (code_text (code p) ! nat (pc p)) (caller_ctx m ram sw)))"

lemma run_mems_ok:
  assumes ok: "mems_ok ram sw (add_mset p R)" "code_ok p" "next_safe ram sw p"
    and run: "run p ram sw = Inr (r, p', ram', sw')"
  shows "mems_ok ram' sw' (add_mset p' R)" "\<forall>q \<in># R. pages_kept ram sw ram' sw' q"
proof -
  obtain m where m: "p_mm p = Some m" "proc_ok (caller_ctx m ram sw)"
    using ok(1) by (auto simp: mems_ok_add elim: mem_in_order_D)
  let ?c = "caller_ctx m ram sw"
  have "mems_ok ram' sw' (add_mset p' R) \<and> (\<forall>q \<in># R. pages_kept ram sw ram' sw' q)"
  proof (cases "pc p < code_size (code p)")
    case False
    then have "run p ram sw = Inr (1, p, ram, sw)"
      using run_finished [of p ram sw] ok(1) by (simp add: mems_ok_add mems_ok_def dev_pair_ok_def)
    then show ?thesis using run ok(1) by simp
  next
    case True
    then have "instr_safe (code_text (code p) ! nat (pc p)) ?c" using ok(3) m(1) by (simp add: next_safe_def)
    then obtain c' where c': "p' = p\<lparr>pc := pc p + 1, p_mm := Some (c_mm c')\<rparr>" "ram' = c_mram c'" "sw' = c_mswp c'"
        "mem_step\<^sup>*\<^sup>* ?c c'"
      using run_safe [OF ok(2) m True _ run] by blast
    have "mems_ok (c_mram ?c) (c_mswp ?c) (add_mset p R)" "p_mm p = Some (c_mm ?c)" "p_mm p' = Some (c_mm c')"
      using ok(1) m(1) c'(1) by simp_all
    then show ?thesis
      using mems_ok_step [of ?c p R c' p'] mem_steps_confined [OF c'(4) m(2)] c'(2,3) by simp
  qed
  then show "mems_ok ram' sw' (add_mset p' R)" "\<forall>q \<in># R. pages_kept ram sw ram' sw' q" by blast+
qed

section \<open>A slot of a CPU\<close>

definition got_proc :: "(pcb_t option \<times> sched) res \<Rightarrow> pcb_t option" where
  "got_proc r = (case r of Inl _ \<Rightarrow> None | Inr (p, _) \<Rightarrow> p)"

text \<open>The process a slot calls \<open>run\<close> for.\<close>

definition will_run :: "cpu_state \<Rightarrow> machine \<Rightarrow> pcb_t option" where
  "will_run c m =
     (case cpu_proc c of
        None \<Rightarrow> got_proc (get_proc (m_sched m))
      | Some p \<Rightarrow>
          if pc p = code_size (code p) then got_proc (get_proc (m_sched m))
          else if time_left c = 0 then
            (case put_proc (m_sched m) p of Inl _ \<Rightarrow> None | Inr s \<Rightarrow> got_proc (get_proc s))
          else Some p)"

definition slot_safe :: "cpu_state \<Rightarrow> machine \<Rightarrow> bool" where
  "slot_safe c m = (case will_run c m of None \<Rightarrow> True | Some p \<Rightarrow> next_safe (m_ram m) (m_swp m) p)"

text \<open>The process a slot releases.\<close>

definition gone :: "cpu_state \<Rightarrow> pcb_t multiset" where
  "gone c = (case cpu_proc c of
     Some p \<Rightarrow> if pc p = code_size (code p) then {#p#} else {#}
   | None \<Rightarrow> {#})"

text \<open>What a slot does to the processes: at most one of them runs.\<close>

definition slot_effect :: "pcb_t option \<Rightarrow> pcb_t multiset \<Rightarrow> cpu_state \<Rightarrow> machine \<Rightarrow> machine \<Rightarrow> bool" where
  "slot_effect w H c' m m' \<longleftrightarrow>
     (case w of
        None \<Rightarrow> cpu_proc c' = None \<and> held c' m' = H \<and> m_ram m' = m_ram m \<and> m_swp m' = m_swp m
      | Some p \<Rightarrow> \<exists>r p' R. H = add_mset p R \<and> run p (m_ram m) (m_swp m) = Inr (r, p', m_ram m', m_swp m') \<and>
          cpu_proc c' = Some p' \<and> held c' m' = add_mset p' R)"

lemma cpu_recheck_effect:
  assumes "cpu_recheck ts c m = Inr (e, c', m')"
  shows "slot_effect (cpu_proc c) (held c m) c' m m'"
  using assms by (cases rule: cpu_recheck_cases) (auto simp: slot_effect_def held_def opt_mset_def)

lemma cpu_get_effect:
  assumes "sched_ok (m_sched m)" "cpu_get ts left m = Inr (e, c', m')"
  shows "slot_effect (got_proc (get_proc (m_sched m))) (queued (m_sched m)) c' m m'"
proof -
  obtain p s where g: "get_proc (m_sched m) = Inr (p, s)"
      "cpu_recheck ts \<lparr>cpu_proc = p, time_left = left\<rparr> (m\<lparr>m_sched := s\<rparr>) = Inr (e, c', m')"
    using assms(2) by (auto simp: cpu_get_def res_simps)
  have "held \<lparr>cpu_proc = p, time_left = left\<rparr> (m\<lparr>m_sched := s\<rparr>) = queued (m_sched m)"
    using queued_get [OF assms(1) g(1)] by (simp add: held_def)
  then show ?thesis using cpu_recheck_effect [OF g(2)] g(1) by (simp add: slot_effect_def got_proc_def split: option.splits)
qed

lemma cpu_slot_effect:
  assumes ok: "sched_ok (m_sched m)" "cpu_proc c = None \<longrightarrow> time_left c = 0" and run: "cpu_routine ts c m = Inr (e, c', m')"
  shows "\<exists>H. held c m = H + gone c \<and> slot_effect (will_run c m) H c' m m'"
  using run ok
proof (cases rule: cpu_routine_cases)
  case (idle s)
  then show ?thesis using queued_get [OF ok(1) idle(2)]
    by (simp add: will_run_def got_proc_def gone_def slot_effect_def held_def opt_mset_def)
next
  case (load p s)
  then show ?thesis using cpu_get_effect [OF ok(1) load(3)] by (simp add: will_run_def gone_def held_def opt_mset_def)
next
  case (finished p)
  then show ?thesis using cpu_get_effect [OF ok(1) finished(3)] by (simp add: will_run_def gone_def held_def opt_mset_def)
next
  case (expired p s)
  have s: "sched_ok s" "queued s = add_mset p (queued (m_sched m))"
    using put_proc_Inr(1) [OF ok(1) expired(4)] queued_put [OF ok(1) expired(4)] .
  then have "sched_ok (m_sched (m\<lparr>m_sched := s\<rparr>))" by simp
  then show ?thesis using cpu_get_effect [OF _ expired(5)] expired(1-4) s(2)
    by (simp add: will_run_def gone_def held_def opt_mset_def slot_effect_def split: option.splits)
next
  case (goes_on p)
  then show ?thesis using cpu_recheck_effect [OF goes_on(4)] by (simp add: will_run_def gone_def)
qed

text \<open>A safe slot keeps the memory of all processes in order; \<open>O\<close> are those on other CPUs.\<close>

lemma cpu_slot_mems:
  assumes ok: "sched_ok (m_sched m)" "cpu_proc c = None \<longrightarrow> time_left c = 0" and run: "cpu_routine ts c m = Inr (e, c', m')"
    and inv: "mems_ok (m_ram m) (m_swp m) (held c m + Q)" "codes_ok (held c m + Q)" and rdy: "slot_safe c m"
  shows "mems_ok (m_ram m') (m_swp m') (held c' m' + Q)"
    "\<forall>q \<in># held c m + Q - opt_mset (will_run c m). pages_kept (m_ram m) (m_swp m) (m_ram m') (m_swp m') q"
proof -
  obtain H where H: "held c m = H + gone c" "slot_effect (will_run c m) H c' m m'" using cpu_slot_effect [OF ok run] by blast
  have "mems_ok (m_ram m') (m_swp m') (held c' m' + Q) \<and>
      (\<forall>q \<in># held c m + Q - opt_mset (will_run c m). pages_kept (m_ram m) (m_swp m) (m_ram m') (m_swp m') q)"
  proof (cases "will_run c m")
    case None
    then have "held c' m' = H" "m_ram m' = m_ram m" "m_swp m' = m_swp m" using H(2) by (simp_all add: slot_effect_def)
    then show ?thesis using inv(1) H(1) mems_ok_sub [of "m_ram m" "m_swp m" "H + Q" "gone c"] by (simp add: ac_simps)
  next
    case (Some p)
    then obtain r p' R where R: "H = add_mset p R" "run p (m_ram m) (m_swp m) = Inr (r, p', m_ram m', m_swp m')"
        "held c' m' = add_mset p' R"
      using H(2) by (auto simp: slot_effect_def)
    have h: "held c m + Q = add_mset p (R + gone c + Q)" using H(1) R(1) by simp
    then have "mems_ok (m_ram m) (m_swp m) (add_mset p (R + gone c + Q))" "code_ok p" "next_safe (m_ram m) (m_swp m) p"
      using inv rdy Some by (simp_all add: slot_safe_def)
    note k = run_mems_ok [OF this R(2)]
    have "mems_ok (m_ram m') (m_swp m') (add_mset p' R + Q)"
      using mems_ok_sub [of "m_ram m'" "m_swp m'" "add_mset p' R + Q" "gone c"] k(1) by (simp add: ac_simps)
    then show ?thesis using k(2) R(3) Some by (simp add: h opt_mset_def)
  qed
  then show "mems_ok (m_ram m') (m_swp m') (held c' m' + Q)"
    "\<forall>q \<in># held c m + Q - opt_mset (will_run c m). pages_kept (m_ram m) (m_swp m) (m_ram m') (m_swp m') q" by blast+
qed

section \<open>The whole system\<close>

text \<open>The processes that have been admitted and have not finished.\<close>

definition admitted :: "os_system \<Rightarrow> pcb_t multiset" where
  "admitted s = queued (m_sched (sys_machine s)) + on_cpus (sys_cpus s)"

text \<open>In the step from \<open>s\<close> to \<open>s'\<close> the CPU \<open>k\<close> runs its slot.\<close>

definition ran_slot :: "os_system \<Rightarrow> os_system \<Rightarrow> nat \<Rightarrow> bool" where
  "ran_slot s s' k \<longleftrightarrow> k < length (sys_cpus s) \<and> at_work s (cpu_dev s k) \<and> \<not> at_work s' (cpu_dev s k)"

text \<open>
  A step in which the instruction that is executed, if any, is safe: no allocation that does
  not get its frames, no write that causes a page fault, no access outside the area. The
  simulator also makes other steps, which succeed and break the order of memory (an
  allocation without frames, theory OS_VM) or the isolation of processes (a write that faults,
  theory OS_Stale).
\<close>

definition safe_step :: "ld_env \<Rightarrow> os_config \<Rightarrow> os_system \<Rightarrow> os_system \<Rightarrow> bool" where
  "safe_step env cfg s s' \<longleftrightarrow> os_step env cfg s s' \<and>
     (\<forall>k. ran_slot s s' k \<longrightarrow> slot_safe (sys_cpus s ! k) (sys_machine s))"

inductive safe_reachable :: "boot_env \<Rightarrow> ld_env \<Rightarrow> string list \<Rightarrow> os_config \<Rightarrow> os_system \<Rightarrow> bool" for b env argv where
  Safe_boot: "os_main b env argv = Inr (Some (cfg, s)) \<Longrightarrow> safe_reachable b env argv cfg s"
| Safe_step: "safe_reachable b env argv cfg s \<Longrightarrow> safe_step env cfg s s' \<Longrightarrow> safe_reachable b env argv cfg s'"

text \<open>Devices of at least two pages whose frame numbers fit an entry.\<close>

definition boot_ready :: "os_config \<Rightarrow> bool" where
  "boot_ready cfg \<longleftrightarrow> 512 \<le> memramsz cfg \<and> memramsz cfg \<le> 2 ^ 21 \<and>
     512 \<le> memswpsz cfg ! 0 \<and> memswpsz cfg ! 0 \<le> 2 ^ 29"

lemma safe_is_reachable: "safe_reachable b env argv cfg s \<Longrightarrow> os_reachable b env argv cfg s"
  by (induction rule: safe_reachable.induct) (auto intro: os_reachable.intros simp: safe_step_def)

lemma leave_slot_idle:
  assumes "d < length (dev_list t)"
  shows "\<not> (d < length (dev_list (leave_slot e d t)) \<and> dpc (dev_list (leave_slot e d t) ! d) = Working)"
  using assms by (cases e) (simp_all add: leave_slot_def next_slot_post_def detach_event_def timer_simps split: timer_pc.splits)

lemma cpu_step_ran:
  assumes "k < length (sys_cpus s)" "at_work s (cpu_dev s k)" "sys_timer s' = leave_slot e (cpu_dev s k) (sys_timer s)"
  shows "ran_slot s s' k"
  using assms leave_slot_idle [of "cpu_dev s k" "sys_timer s" e] by (auto simp: ran_slot_def at_work_def)

lemma admitted_split:
  assumes "k < length (sys_cpus s)"
  obtains Q where "admitted s = held (sys_cpus s ! k) (sys_machine s) + Q"
    "\<forall>c m. queued (m_sched m) + on_cpus ((sys_cpus s)[k := c]) = held c m + Q"
proof -
  let ?Q = "on_cpus (sys_cpus s) - opt_mset (cpu_proc (sys_cpus s ! k))"
  have u: "on_cpus ((sys_cpus s)[k := c]) + opt_mset (cpu_proc (sys_cpus s ! k)) = on_cpus (sys_cpus s) + opt_mset (cpu_proc c)" for c
    using on_cpus_update [OF assms] .
  have sub: "opt_mset (cpu_proc (sys_cpus s ! k)) \<subseteq># on_cpus (sys_cpus s)"
    using u [of "\<lparr>cpu_proc = None, time_left = 0\<rparr>"] by (simp add: opt_mset_def) (metis mset_subset_eq_add_right)
  have "on_cpus ((sys_cpus s)[k := c]) = opt_mset (cpu_proc c) + ?Q" for c
    using u [of c] sub by (metis add.commute add_diff_cancel_right' subset_mset.diff_add_assoc)
  moreover have "on_cpus (sys_cpus s) = opt_mset (cpu_proc (sys_cpus s ! k)) + ?Q" using sub by simp
  ultimately show thesis using that [of ?Q] by (simp add: admitted_def held_def ac_simps)
qed

lemma no_frames_unshared:
  assumes "mapped_pages m = {}" "p_mm p = Some m"
  shows "no_shared_frame p q"
  using assms by (simp add: no_shared_frame_def own_ram_def own_swp_def split: option.splits)

lemma admit_mems:
  assumes inv: "mems_ok (m_ram m) (m_swp m) P" and env: "malloc_zeroed env"
    and run: "init_mm (env_mm env i) (env_link env i) = Inr (r, mm)" "p_mm p = Some mm"
  shows "mems_ok (m_ram m) (m_swp m) (add_mset p P)"
proof -
  have z: "zeroed_mm (env_mm env i)" "init_mm (env_mm env i) None = Inr (r, mm)"
    using env run(1) by (simp_all add: malloc_zeroed_def)
  have d: "frames_ok (m_ram m)" "rdmflg (m_ram m)" "maxsz (m_ram m) \<le> 2 ^ 21"
      "frames_ok (m_swp m)" "rdmflg (m_swp m)" "maxsz (m_swp m) \<le> 2 ^ 29"
    using inv by (simp_all add: mems_ok_def dev_pair_ok_def)
  note f = fresh_proc_ok [OF z(1) d z(2)]
  have "mapped_pages mm = {}" using f(2) own_frames(1) [of "caller_ctx mm (m_ram m) (m_swp m)"] by simp
  then show ?thesis using inv f(1) run(2) no_frames_unshared by (simp add: mems_ok_add mem_in_order_def)
qed

lemma loader_mems:
  assumes inv: "mems_ok (m_ram m) (m_swp m) (queued (m_sched m) + Q)" "sched_ok (m_sched m)" and env: "malloc_zeroed env"
    and run: "ld_routine env cfg now l m = Inr (e, l', m')"
  shows "mems_ok (m_ram m') (m_swp m') (queued (m_sched m') + Q)" "m_ram m' = m_ram m" "m_swp m' = m_swp m"
proof -
  have admit: "mems_ok (m_ram m') (m_swp m') (queued (m_sched m') + Q) \<and> m_ram m' = m_ram m \<and> m_swp m' = m_swp m"
    if "ld_admit env now a p l1 m = Inr (e, l', m')" for a p l1
    using that inv(2)
  proof (cases rule: ld_admit_cases)
    case (admits mm s r)
    then show ?thesis using admit_mems [OF inv(1) env admits(7)] by simp
  qed (use inv(1) in simp)
  have "mems_ok (m_ram m') (m_swp m') (queued (m_sched m') + Q) \<and> m_ram m' = m_ram m \<and> m_swp m' = m_swp m"
    using run
  proof (cases rule: ld_routine_cases)
    case (waiting a p)
    show ?thesis by (rule admit [OF waiting(5)])
  next
    case (loading a p l1)
    show ?thesis by (rule admit [OF loading(6)])
  qed (use inv(1) in simp)
  then show "mems_ok (m_ram m') (m_swp m') (queued (m_sched m') + Q)" "m_ram m' = m_ram m" "m_swp m' = m_swp m" by blast+
qed

lemma boot_mems:
  assumes boot: "os_main b env argv = Inr (Some (cfg, s))" and env: "boot_ready cfg"
  shows "mems_ok (m_ram (sys_machine s)) (m_swp (sys_machine s)) (admitted s)"
proof -
  note d = os_main_devices [OF boot]
  have "admitted s = {#}"
    using os_main_Some [OF boot] by cases (simp add: admitted_def sample_queue_empty on_cpus_start)
  moreover have "dev_pair_ok (m_ram (sys_machine s)) (m_swp (sys_machine s))"
    using boot_device_ok [OF _ d(1)] boot_device_ok [OF _ d(2)] env by (simp add: boot_ready_def dev_pair_ok_def)
  ultimately show ?thesis by (simp add: mems_ok_empty)
qed

lemma sys_inv_slot:
  assumes "sys_inv cfg s" "k < length (sys_cpus s)"
  shows "cpu_proc (sys_cpus s ! k) = None \<longrightarrow> time_left (sys_cpus s ! k) = 0" "codes_ok (admitted s)"
    "sched_ok (m_sched (sys_machine s))"
  using assms by (auto simp: sys_inv_def list_all_length cpu_ok_def live_procs_def admitted_def)

lemma safe_step_mems:
  assumes inv: "mems_ok (m_ram (sys_machine s)) (m_swp (sys_machine s)) (admitted s)" "sys_inv cfg s"
    and env: "malloc_zeroed env" and step: "safe_step env cfg s s'"
  shows "mems_ok (m_ram (sys_machine s')) (m_swp (sys_machine s')) (admitted s')"
proof -
  have os: "os_step env cfg s s'" and rdy: "\<And>k. ran_slot s s' k \<Longrightarrow> slot_safe (sys_cpus s ! k) (sys_machine s)"
    using step by (simp_all add: safe_step_def)
  from os show ?thesis
  proof (cases rule: os_step.cases)
    case (Cpu k e c m)
    note i = sys_inv_slot [OF inv(2) Cpu(2)]
    obtain Q where Q: "admitted s = held (sys_cpus s ! k) (sys_machine s) + Q"
        "\<forall>c m. queued (m_sched m) + on_cpus ((sys_cpus s)[k := c]) = held c m + Q"
      by (rule admitted_split [OF Cpu(2)])
    have "slot_safe (sys_cpus s ! k) (sys_machine s)"
      using rdy [OF cpu_step_ran [OF Cpu(2,3)]] Cpu(1) by simp
    then have "mems_ok (m_ram m) (m_swp m) (held c m + Q)"
      using cpu_slot_mems(1) [OF i(3,1) Cpu(4), of Q] inv(1) i(2) Q(1) by simp
    then show ?thesis using Cpu(1) Q(2) by (simp add: admitted_def)
  next
    case (Loader e l m)
    have "sched_ok (m_sched (sys_machine s))" using inv(2) by (simp add: sys_inv_def)
    then show ?thesis using loader_mems [OF _ _ env Loader(3)] inv(1) Loader(1) by (simp add: admitted_def)
  next
    case (Clock r t)
    then show ?thesis using inv(1) by (simp add: admitted_def)
  qed
qed

lemma safe_reachable_mems:
  assumes "safe_reachable b env argv cfg s" "0 < time_slot cfg" "boot_ready cfg" "malloc_zeroed env"
  shows "mems_ok (m_ram (sys_machine s)) (m_swp (sys_machine s)) (admitted s)"
  using assms
proof (induction rule: safe_reachable.induct)
  case (Safe_boot cfg s)
  then show ?case using boot_mems by blast
next
  case (Safe_step cfg s s')
  have "sys_inv cfg s" using sys_inv_reachable [OF safe_is_reachable [OF Safe_step(1)]] Safe_step(4) by blast
  then show ?case using safe_step_mems Safe_step by blast
qed

section \<open>A sample run\<close>

text \<open>
  Two CPUs and two processes that allocate 300 bytes each. The loader admits the first
  process and a CPU runs it; in the next time slot the same happens to the second process.
\<close>

definition sample_cfg2 :: os_config where
  "sample_cfg2 = \<lparr>time_slot = 2, num_cpus = 2, num_processes = 2, memramsz = 1024, memswpsz = [4096, 0, 0, 0],
     ld_processes = replicate 2 \<lparr>ld_path = ''input/proc/p'', ld_start_time = 0, ld_prio = Some 0\<rparr>\<rparr>"

definition sample_env2 :: ld_env where
  "sample_env2 = sample_env1\<lparr>env_fs := (\<lambda>f. if f = ''input/proc/p'' then Some ''1 1 alloc 300 0''
     else Some ''2 2 2 1024 4096 0 0 0 0 p 0 0 p 0'')\<rparr>"

lemma sample_env2_simps:
  "env_link sample_env2 i = None" "env_mm sample_env2 i = sample_mm\<lparr>rgs := (rgs sample_mm)\<lparr>rg_cells := Map.empty\<rparr>\<rparr>" "time_slot sample_cfg2 = 2"
  "num_processes sample_cfg2 = 2" "memramsz sample_cfg2 = 1024" "memswpsz sample_cfg2 ! 0 = 4096"
  "i < 2 \<Longrightarrow> ld_processes sample_cfg2 ! i = hd (ld_processes sample_cfg2)" "length (ld_processes sample_cfg2) = 2"
  "ld_start_time (hd (ld_processes sample_cfg2)) = 0"
  by (simp_all add: sample_env2_def sample_env1_def sample_cfg2_def)

lemma sample_boot_ready: "boot_ready sample_cfg2" "0 < time_slot sample_cfg2" "malloc_zeroed sample_env2"
  by (simp_all add: boot_ready_def malloc_zeroed_def sample_cfg2_def sample_env2_def sample_env1_def zeroed_mm_def sample_mm_def
      PAGING_MAX_SYMTBL_SZ_def)

definition alloc_runs :: "pcb_t \<Rightarrow> memphy_struct \<Rightarrow> memphy_struct \<Rightarrow> (memphy_struct \<Rightarrow> memphy_struct \<Rightarrow> bool) \<Rightarrow> bool" where
  "alloc_runs p ram sw k \<longleftrightarrow> prio p = 0 \<and> pc p = 0 \<and> next_safe ram sw p \<and>
    (case run p ram sw of
       Inl _ \<Rightarrow> False
     | Inr (_, p', ram', sw') \<Rightarrow> (case p_mm p' of None \<Rightarrow> False | Some m \<Rightarrow> sbrk (hd (mmap m)) = 300 \<and> pc p' = 1 \<and> k ram' sw'))"

definition load_runs :: "memphy_struct \<Rightarrow> memphy_struct \<Rightarrow> ld_state \<Rightarrow> (ld_state \<Rightarrow> memphy_struct \<Rightarrow> memphy_struct \<Rightarrow> bool) \<Rightarrow> bool" where
  "load_runs ram sw l k \<longleftrightarrow>
    (case init_mm (env_mm sample_env2 0) None of Inl _ \<Rightarrow> False | Inr (_, mm) \<Rightarrow>
     case ld_load sample_env2 (hd (ld_processes sample_cfg2)) l of Inl _ \<Rightarrow> False | Inr (q, l') \<Rightarrow>
       ld_i l' = ld_i l \<and> alloc_runs (q\<lparr>p_mm := Some mm\<rparr>) ram sw (k (l'\<lparr>ld_i := Suc (ld_i l'), ld_pending := None\<rparr>)))"

lemma sample_alloc:
  "case boot_device sample_boot 0 1024 of Inl _ \<Rightarrow> False | Inr ram \<Rightarrow>
   case boot_device sample_boot 1 4096 of Inl _ \<Rightarrow> False | Inr sw \<Rightarrow>
   load_runs ram sw ld_start (\<lambda>l ram sw. ld_i l = 1 \<and> ld_pending l = None \<and> load_runs ram sw l (\<lambda>_ _ _. True))"
  by code_simp

lemma load_runs_cases:
  assumes "case x of Inl _ \<Rightarrow> False | Inr (_, mm) \<Rightarrow> case y of Inl _ \<Rightarrow> False | Inr (q, l') \<Rightarrow> F mm q l'"
  obtains r mm q l' where "x = Inr (r, mm)" "y = Inr (q, l')" "F mm q l'"
  using assms by (cases x; cases y; force)

lemma load_runs_slots:
  assumes lr: "load_runs (m_ram m) (m_swp m) l k" and l: "ld_i l < 2" "ld_pending l = None" and now: "0 \<le> now"
    and sc: "sched_ok (m_sched m)" "queued (m_sched m) = {#}" "0 < bud (m_sched m) 0"
  obtains l' m1 p c m2 q mm where "ld_routine sample_env2 sample_cfg2 now l m = Inr (Next_slot, l', m1)"
    "will_run cpu_start m1 = Some p" "next_safe (m_ram m1) (m_swp m1) p" "queued (m_sched m1) = {#p#}"
    "cpu_routine 2 cpu_start m1 = Inr (Next_slot, c, m2)" "cpu_proc c = Some q" "p_mm q = Some mm" "sbrk (hd (mmap mm)) = 300"
    "sched_ok (m_sched m2)" "queued (m_sched m2) = {#}" "bud (m_sched m2) 0 = bud (m_sched m) 0 - 1" "k l' (m_ram m2) (m_swp m2)" "pc q = 1"
proof -
  obtain r mm0 q0 l1 where A: "init_mm (env_mm sample_env2 0) None = Inr (r, mm0)"
      "ld_load sample_env2 (hd (ld_processes sample_cfg2)) l = Inr (q0, l1)" "ld_i l1 = ld_i l"
      "alloc_runs (q0\<lparr>p_mm := Some mm0\<rparr>) (m_ram m) (m_swp m) (k (l1\<lparr>ld_i := Suc (ld_i l1), ld_pending := None\<rparr>))"
    using lr unfolding load_runs_def by (elim load_runs_cases) blast
  let ?q = "q0\<lparr>p_mm := Some mm0\<rparr>"
  have p0: "prio ?q = 0" using A(4) by (simp add: alloc_runs_def)
  obtain sc1 sc2 where sc': "put_proc (m_sched m) ?q = Inr sc1" "get_proc sc1 = Inr (Some ?q, sc2)"
      "sched_ok sc2" "queued sc2 = {#}" "bud sc2 0 = bud (m_sched m) 0 - 1"
    by (rule put_get_alone [OF sc p0])
  obtain r' p' ram' sw' mm where run: "run ?q (m_ram m) (m_swp m) = Inr (r', p', ram', sw')" "p_mm p' = Some mm"
      "sbrk (hd (mmap mm)) = 300" "k (l1\<lparr>ld_i := Suc (ld_i l1), ld_pending := None\<rparr>) ram' sw'" "pc p' = 1"
    using A(4) by (auto simp: alloc_runs_def split: sum.splits option.splits)
  let ?m1 = "m\<lparr>m_sched := sc1\<rparr>" and ?l = "l1\<lparr>ld_i := Suc (ld_i l1), ld_pending := None\<rparr>"
  have ld: "ld_routine sample_env2 sample_cfg2 now l m = Inr (Next_slot, ?l, ?m1)"
    using A(1-3) sc'(1) l now by (simp add: ld_routine_def ld_admit_def sample_env2_simps add_eq_put_proc arr_get_def)
  have w: "will_run cpu_start ?m1 = Some ?q" using sc'(2) by (simp add: will_run_def cpu_start_def got_proc_def)
  have cpu: "cpu_routine 2 cpu_start ?m1 = Inr (Next_slot, \<lparr>cpu_proc = Some p', time_left = 1\<rparr>,
      ?m1\<lparr>m_sched := sc2, m_ram := ram', m_swp := sw'\<rparr>)"
    using sc'(2) run(1) by (simp add: cpu_start_def cpu_routine_def cpu_recheck_def s32_arith_def)
  have "queued sc1 = {#?q#}" using queued_put [OF sc(1) sc'(1)] sc(2) by simp
  then show thesis
    using that [OF ld w _ _ cpu _ run(2,3)] A(4) sc'(3-5) run(4,5) by (simp add: alloc_runs_def)
qed

text \<open>Steps of the timer code: one of the timer thread, or the test of a device.\<close>

primrec clock_run :: "nat option list \<Rightarrow> timer_state \<Rightarrow> timer_state option" where
  "clock_run [] t = Some t"
| "clock_run (x # xs) t =
     (case (case x of
              None \<Rightarrow> timer_routine t
            | Some d \<Rightarrow> if d < length (dev_list t) \<and> dpc (dev_list t ! d) = Posted then Some (next_slot_test d t) else None) of
        None \<Rightarrow> None
      | Some t \<Rightarrow> clock_run xs t)"

definition clock_step :: "timer_state \<Rightarrow> timer_state \<Rightarrow> bool" where
  "clock_step t t' \<longleftrightarrow> (\<exists>r. tstep r t t') \<and> same_posts t t' \<and>
     (\<forall>d < length (dev_list t). dpc (dev_list t ! d) = Working \<longrightarrow> d < length (dev_list t') \<and> dpc (dev_list t' ! d) = Working)"

lemma map_upd_same: "(i < length xs \<Longrightarrow> f y = f (xs ! i)) \<Longrightarrow> map f (xs[i := y]) = map f xs"
  by (cases "i < length xs") (simp_all add: map_update list_update_beyond, metis list_update_id nth_map)

lemma clock_step_upd:
  assumes "tstep r t t'" and u: "dev_list t' = (dev_list t)[i := y]"
    and y: "i < length (dev_list t) \<Longrightarrow> posts y = posts (dev_list t ! i) \<and> fsh y = fsh (dev_list t ! i) \<and>
      (dpc (dev_list t ! i) = Working \<longrightarrow> dpc y = Working)"
  shows "clock_step t t'"
proof -
  have "same_posts t t'" using y u map_upd_same [of i "dev_list t" posts y] map_upd_same [of i "dev_list t" fsh y]
    unfolding same_posts_def u by simp
  then show ?thesis using assms(1) u y by (cases "i < length (dev_list t)") (auto simp: clock_step_def nth_list_update)
qed

lemma clock_steps:
  "timer_routine t = Some t' \<Longrightarrow> clock_step t t'"
  "d < length (dev_list t) \<Longrightarrow> dpc (dev_list t ! d) = Posted \<Longrightarrow> clock_step t (next_slot_test d t)"
proof -
  assume r: "timer_routine t = Some t'"
  have "\<exists>i y. dev_list t' = (dev_list t)[i := y] \<and> (i < length (dev_list t) \<longrightarrow> y = dev_list t ! i \<or> y = release_dev (dev_list t ! i))"
  proof (cases "\<exists>i f e. tpc t = TRel i f e \<and> i < length (dev_list t)")
    case True
    then obtain i where "dev_list t' = (dev_list t)[i := release_dev (dev_list t ! i)]"
      using r by (auto simp: timer_routine_def upd_dev_def)
    then show ?thesis by blast
  next
    case False
    then have "dev_list t' = (dev_list t)[0 := dev_list t ! 0]"
      using r by (auto simp: timer_routine_def Let_def split: timer_pc.splits if_splits)
    then show ?thesis by blast
  qed
  then obtain i y where "dev_list t' = (dev_list t)[i := y]"
      "i < length (dev_list t) \<longrightarrow> y = dev_list t ! i \<or> y = release_dev (dev_list t ! i)" by blast
  then show "clock_step t t'" by (intro clock_step_upd [OF Timer [OF r]]) (auto simp: release_dev_def)
next
  assume d: "d < length (dev_list t)" "dpc (dev_list t ! d) = Posted"
  have "\<exists>y. dev_list (next_slot_test d t) = (dev_list t)[d := y] \<and> posts y = posts (dev_list t ! d) \<and> fsh y = fsh (dev_list t ! d)"
    by (auto simp: next_slot_test_def upd_dev_def)
  then show "clock_step t (next_slot_test d t)"
    using d by (elim exE) (rule clock_step_upd [OF Test [OF d]], auto)
qed

lemma safe_clock:
  assumes "safe_reachable b env argv cfg s" "clock_step (sys_timer s) t"
  shows "safe_reachable b env argv cfg (s\<lparr>sys_timer := t\<rparr>)"
proof -
  obtain r where "tstep r (sys_timer s) t" "same_posts (sys_timer s) t" using assms(2) by (auto simp: clock_step_def)
  then have "os_step env cfg s (s\<lparr>sys_timer := t\<rparr>)" by (rule Clock)
  moreover have "\<not> ran_slot s (s\<lparr>sys_timer := t\<rparr>) k" for k
    using assms(2) by (auto simp: ran_slot_def at_work_def clock_step_def cpu_dev_def)
  ultimately show ?thesis by (intro Safe_step [OF assms(1)]) (simp add: safe_step_def)
qed

lemma safe_clock_run:
  "clock_run xs (sys_timer s) = Some t \<Longrightarrow> safe_reachable b env argv cfg s \<Longrightarrow>
     safe_reachable b env argv cfg (s\<lparr>sys_timer := t\<rparr>)"
proof (induction xs arbitrary: s)
  case (Cons x xs)
  obtain t' where t': "clock_step (sys_timer s) t'" "clock_run xs t' = Some t"
    using Cons.prems(1) clock_steps(1) [of "sys_timer s"] clock_steps(2) [of _ "sys_timer s"]
    by (cases x) (fastforce split: option.splits if_splits)+
  show ?case using Cons.IH [of "s\<lparr>sys_timer := t'\<rparr>"] safe_clock [OF Cons.prems(2) t'(1)] t'(2) by simp
next
  case Nil
  then have "s\<lparr>sys_timer := t\<rparr> = s" by (cases s) simp
  then show ?case using Nil(2) by simp
qed

text \<open>Slots as steps of the system.\<close>

lemma leave_slot_other:
  "length (dev_list (leave_slot e d t)) = length (dev_list t)"
  "j \<noteq> d \<Longrightarrow> dev_list (leave_slot e d t) ! j = dev_list t ! j"
  by (cases e; simp add: leave_slot_def next_slot_post_def detach_event_def timer_simps split: timer_pc.splits)+

lemma left_only:
  assumes "ran_slot s s' k" "sys_timer s' = leave_slot e d (sys_timer s)" "length (sys_cpus s') = length (sys_cpus s)"
  shows "cpu_dev s k = d"
  using assms leave_slot_other(1) [of e d "sys_timer s"] leave_slot_other(2) [of "cpu_dev s k" d e "sys_timer s"]
  by (cases "cpu_dev s k = d") (auto simp: ran_slot_def at_work_def cpu_dev_def)

lemma safe_loader:
  assumes r: "safe_reachable b env argv cfg s" and w: "at_work s ld_dev"
    and run: "ld_routine env cfg (current_time (sys_timer s)) (sys_ld s) (sys_machine s) = Inr (e, l, m)"
  shows "safe_reachable b env argv cfg (s\<lparr>sys_ld := l, sys_machine := m, sys_timer := leave_slot e ld_dev (sys_timer s)\<rparr>)"
    (is "safe_reachable b env argv cfg ?s")
proof -
  have "os_step env cfg s ?s" using os_step.Loader [OF w run] .
  moreover have "\<not> ran_slot s ?s k" for k
    using left_only [of s ?s k e ld_dev] by (auto simp: ran_slot_def cpu_dev_def ld_dev_def)
  ultimately show ?thesis by (intro Safe_step [OF r]) (simp add: safe_step_def)
qed

lemma safe_cpu:
  assumes r: "safe_reachable b env argv cfg s" and k: "k < length (sys_cpus s)" and w: "at_work s (cpu_dev s k)"
    and run: "cpu_routine (time_slot cfg) (sys_cpus s ! k) (sys_machine s) = Inr (e, c, m)"
    and rdy: "slot_safe (sys_cpus s ! k) (sys_machine s)"
  shows "safe_reachable b env argv cfg (s\<lparr>sys_cpus := (sys_cpus s)[k := c], sys_machine := m,
      sys_finished := sys_finished s + finishing (sys_cpus s ! k),
      sys_timer := leave_slot e (cpu_dev s k) (sys_timer s)\<rparr>)"
    (is "safe_reachable b env argv cfg ?s")
proof -
  have "os_step env cfg s ?s" using os_step.Cpu [OF k w run] .
  moreover have "j = k" if "ran_slot s ?s j" for j
    using left_only [of s ?s j e "cpu_dev s k"] that k by (auto simp: ran_slot_def cpu_dev_def)
  ultimately show ?thesis using rdy by (intro Safe_step [OF r]) (auto simp: safe_step_def)
qed

text \<open>The devices of the sample run before and after the end of the first time slot.\<close>

definition sample_clock :: "nat \<Rightarrow> timer_id_t list \<Rightarrow> timer_state" where
  "sample_clock n ds = \<lparr>dev_list = ds, time = int n, ticks = n, timer_started = True, timer_stop = False, tpc = TCheck\<rparr>"

definition sample_worker :: "nat \<Rightarrow> timer_id_t" where
  "sample_worker n = \<lparr>dev_done = False, fsh = False, dpc = Working, posts = n, calls = n\<rparr>"

definition sample_waiter :: "nat \<Rightarrow> timer_id_t" where
  "sample_waiter n = \<lparr>dev_done = True, fsh = False, dpc = Posted, posts = Suc n, calls = n\<rparr>"

lemma sample_clock_run:
  "clock_run (replicate 9 None @ [Some 0, Some 1, Some 2]) (sample_clock 0 [sample_waiter 0, sample_waiter 0, sample_waiter 0]) =
    Some (sample_clock 1 [sample_worker 1, sample_worker 1, sample_worker 1])"
  by code_simp

lemma sample_leave:
  assumes "d < length ds" "ds ! d = sample_worker n"
  shows "leave_slot Next_slot d (sample_clock n ds) = sample_clock n (ds[d := sample_waiter n])"
  using assms by (simp add: leave_slot_def next_slot_post_def sample_clock_def timer_simps sample_worker_def sample_waiter_def)

lemma sample_at_work: "sys_timer s = sample_clock n ds \<Longrightarrow> at_work s d \<longleftrightarrow> d < length ds \<and> dpc (ds ! d) = Working"
  by (simp add: at_work_def sample_clock_def)

lemma sample_clock_simps [simp]: "dpc (sample_worker n) = Working" "current_time (sample_clock n ds) = int n"
  by (simp_all add: sample_clock_def sample_worker_def current_time_def)

lemma slot_safe_empty: "sched_ok (m_sched m) \<Longrightarrow> queued (m_sched m) = {#} \<Longrightarrow> slot_safe cpu_start m"
  by (simp add: slot_safe_def will_run_def cpu_start_def got_proc_def pool.get_none)

text \<open>A process of the sample that has run its only instruction.\<close>

definition sample_ran :: "cpu_state \<Rightarrow> bool" where
  "sample_ran c \<longleftrightarrow> (\<exists>q mm. cpu_proc c = Some q \<and> p_mm q = Some mm \<and> sbrk (hd (mmap mm)) = 300 \<and> pc q = 1)"

lemma sample_boot2:
  obtains s where "os_main sample_boot sample_env2 [''os'', ''two''] = Inr (Some (sample_cfg2, s))"
    "sys_cpus s = [cpu_start, cpu_start]" "sys_timer s = sample_clock 0 [sample_worker 0, sample_worker 0, sample_worker 0]"
proof -
  have cfg: "read_config (env_fs sample_env2) ''input/two'' = Inr sample_cfg2" by code_simp
  obtain s where s: "os_main sample_boot sample_env2 [''os'', ''two''] = Inr (Some (sample_cfg2, s))"
    using os_main_config [of "[''os'', ''two'']" sample_env2 sample_cfg2] cfg by (auto simp: c_str_def input_dir_def)
  have "nat (num_cpus sample_cfg2) = 2" by (simp add: sample_cfg2_def)
  with os_main_Some [OF s] have "sys_cpus s = [cpu_start, cpu_start]" "sys_timer s = timer_init 3"
    by (cases; simp add: numeral_2_eq_2 numeral_3_eq_3)+
  moreover have "timer_init 3 = sample_clock 0 [sample_worker 0, sample_worker 0, sample_worker 0]"
    by (simp add: timer_init_eq sample_clock_def sample_worker_def new_device_def numeral_3_eq_3)
  ultimately show thesis using that s by simp
qed

text \<open>In the first time slot the loader admits the first process and the first CPU runs it.\<close>

lemma sample_first_slot:
  obtains s c where "safe_reachable sample_boot sample_env2 [''os'', ''two''] sample_cfg2 s"
    "sys_cpus s = [c, cpu_start]" "sample_ran c" "sys_timer s = sample_clock 0 [sample_waiter 0, sample_worker 0, sample_waiter 0]"
    "sched_ok (m_sched (sys_machine s))" "queued (m_sched (sys_machine s)) = {#}" "0 < bud (m_sched (sys_machine s)) 0"
    "ld_i (sys_ld s) = 1" "ld_pending (sys_ld s) = None"
    "load_runs (m_ram (sys_machine s)) (m_swp (sys_machine s)) (sys_ld s) (\<lambda>_ _ _. True)"
proof -
  obtain s where s: "os_main sample_boot sample_env2 [''os'', ''two''] = Inr (Some (sample_cfg2, s))"
      "sys_cpus s = [cpu_start, cpu_start]" "sys_timer s = sample_clock 0 [sample_worker 0, sample_worker 0, sample_worker 0]"
    by (rule sample_boot2)
  note d = os_main_devices [OF s(1), unfolded sample_env2_simps]
  let ?K = "\<lambda>l ram sw. ld_i l = 1 \<and> ld_pending l = None \<and> load_runs ram sw l (\<lambda>_ _ _. True)"
  have lr: "load_runs (m_ram (sys_machine s)) (m_swp (sys_machine s)) (sys_ld s) ?K" using sample_alloc d(1-3) by simp
  have l: "ld_i (sys_ld s) < 2" "ld_pending (sys_ld s) = None" using d(3) by (simp_all add: ld_start_def)
  have sc: "sched_ok (m_sched (sys_machine s))" "queued (m_sched (sys_machine s)) = {#}" "bud (m_sched (sys_machine s)) 0 = 140"
    using d(4) init_sched_ok sample_queue_empty by (simp_all add: full_budget_def MAX_PRIO_def)
  obtain l' m1 p c m2 q mm where A: "ld_routine sample_env2 sample_cfg2 0 (sys_ld s) (sys_machine s) = Inr (Next_slot, l', m1)"
      "will_run cpu_start m1 = Some p" "next_safe (m_ram m1) (m_swp m1) p" "queued (m_sched m1) = {#p#}"
      "cpu_routine 2 cpu_start m1 = Inr (Next_slot, c, m2)" "cpu_proc c = Some q" "p_mm q = Some mm" "sbrk (hd (mmap mm)) = 300"
      "sched_ok (m_sched m2)" "queued (m_sched m2) = {#}" "bud (m_sched m2) 0 = bud (m_sched (sys_machine s)) 0 - 1"
      "?K l' (m_ram m2) (m_swp m2)" "pc q = 1"
    by (rule load_runs_slots [OF lr l order_refl sc(1,2)]) (simp add: sc(3), assumption)
  let ?s1 = "s\<lparr>sys_ld := l', sys_machine := m1, sys_timer := leave_slot Next_slot ld_dev (sys_timer s)\<rparr>"
  have r1: "safe_reachable sample_boot sample_env2 [''os'', ''two''] sample_cfg2 ?s1"
    using A(1) sample_at_work [OF s(3)] by (intro safe_loader Safe_boot [OF s(1)]) (simp_all add: s(3) ld_dev_def)
  have t1: "sys_timer ?s1 = sample_clock 0 [sample_waiter 0, sample_worker 0, sample_worker 0]"
    by (simp add: s(3) sample_leave ld_dev_def)
  have d1: "cpu_dev ?s1 0 = 2" "sys_cpus ?s1 ! 0 = cpu_start" "0 < length (sys_cpus ?s1)" using s(2) by (simp_all add: cpu_dev_def)
  let ?s2 = "?s1\<lparr>sys_cpus := (sys_cpus ?s1)[0 := c], sys_machine := m2,
      sys_finished := sys_finished ?s1 + finishing (sys_cpus ?s1 ! 0),
      sys_timer := leave_slot Next_slot (cpu_dev ?s1 0) (sys_timer ?s1)\<rparr>"
  have r2: "safe_reachable sample_boot sample_env2 [''os'', ''two''] sample_cfg2 ?s2"
    using A(2,3,5) sample_at_work [OF t1]
    by (intro safe_cpu [OF r1 d1(3)]) (simp_all only: d1 sample_env2_simps, simp_all add: slot_safe_def)
  have t2: "sys_timer ?s2 = sample_clock 0 [sample_waiter 0, sample_worker 0, sample_waiter 0]"
    using sample_leave [of 2 "[sample_waiter 0, sample_worker 0, sample_worker 0]" 0] t1 d1(1) by simp
  show thesis by (rule that [of ?s2 c, OF r2 _ _ t2]) (use A(6-13) s(2) sc(3) in \<open>simp_all add: sample_ran_def\<close>)
qed

text \<open>The second CPU finds no process, and the second time slot begins.\<close>

lemma sample_second_slot:
  obtains s c where "safe_reachable sample_boot sample_env2 [''os'', ''two''] sample_cfg2 s"
    "sys_cpus s = [c, cpu_start]" "sample_ran c" "sys_timer s = sample_clock 1 [sample_worker 1, sample_worker 1, sample_worker 1]"
    "sched_ok (m_sched (sys_machine s))" "queued (m_sched (sys_machine s)) = {#}" "0 < bud (m_sched (sys_machine s)) 0"
    "ld_i (sys_ld s) = 1" "ld_pending (sys_ld s) = None"
    "load_runs (m_ram (sys_machine s)) (m_swp (sys_machine s)) (sys_ld s) (\<lambda>_ _ _. True)"
proof -
  obtain s c where s: "safe_reachable sample_boot sample_env2 [''os'', ''two''] sample_cfg2 s"
    "sys_cpus s = [c, cpu_start]" "sample_ran c" "sys_timer s = sample_clock 0 [sample_waiter 0, sample_worker 0, sample_waiter 0]"
    "sched_ok (m_sched (sys_machine s))" "queued (m_sched (sys_machine s)) = {#}" "0 < bud (m_sched (sys_machine s)) 0"
    "ld_i (sys_ld s) = 1" "ld_pending (sys_ld s) = None"
    "load_runs (m_ram (sys_machine s)) (m_swp (sys_machine s)) (sys_ld s) (\<lambda>_ _ _. True)"
    by (rule sample_first_slot)
  have d: "cpu_dev s 1 = 1" "sys_cpus s ! 1 = cpu_start" "1 < length (sys_cpus s)" using s(2) by (simp_all add: cpu_dev_def)
  let ?s = "s\<lparr>sys_cpus := (sys_cpus s)[1 := cpu_start], sys_machine := sys_machine s,
      sys_finished := sys_finished s + finishing (sys_cpus s ! 1), sys_timer := leave_slot Next_slot (cpu_dev s 1) (sys_timer s)\<rparr>"
  have "cpu_routine 2 cpu_start (sys_machine s) = Inr (Next_slot, cpu_start, sys_machine s)"
    using idle_cpu_slot [OF s(5,6)] by (simp add: cpu_start_def)
  then have r: "safe_reachable sample_boot sample_env2 [''os'', ''two''] sample_cfg2 ?s"
    using slot_safe_empty [OF s(5,6)] sample_at_work [OF s(4)]
    by (intro safe_cpu [OF s(1) d(3)]) (simp_all only: d sample_env2_simps, simp_all)
  have t: "sys_timer ?s = sample_clock 0 [sample_waiter 0, sample_waiter 0, sample_waiter 0]"
    using sample_leave [of 1 "[sample_waiter 0, sample_worker 0, sample_waiter 0]" 0] s(4) d(1) by simp
  have "safe_reachable sample_boot sample_env2 [''os'', ''two''] sample_cfg2
      (?s\<lparr>sys_timer := sample_clock 1 [sample_worker 1, sample_worker 1, sample_worker 1]\<rparr>)"
    using safe_clock_run [OF _ r] sample_clock_run unfolding t .
  then show thesis using that [of _ c] s by simp
qed

text \<open>In the second slot the loader admits the second process; the second CPU is about to run it.\<close>

lemma sample_two:
  obtains s p c c' m where "safe_reachable sample_boot sample_env2 [''os'', ''two''] sample_cfg2 s"
    "sys_cpus s = [c, cpu_start]" "sample_ran c" "at_work s (cpu_dev s 1)" "queued (m_sched (sys_machine s)) = {#p#}"
    "will_run cpu_start (sys_machine s) = Some p" "slot_safe cpu_start (sys_machine s)"
    "cpu_routine 2 cpu_start (sys_machine s) = Inr (Next_slot, c', m)" "sample_ran c'" "queued (m_sched m) = {#}"
proof -
  obtain s c where s: "safe_reachable sample_boot sample_env2 [''os'', ''two''] sample_cfg2 s"
    "sys_cpus s = [c, cpu_start]" "sample_ran c" "sys_timer s = sample_clock 1 [sample_worker 1, sample_worker 1, sample_worker 1]"
    "sched_ok (m_sched (sys_machine s))" "queued (m_sched (sys_machine s)) = {#}" "0 < bud (m_sched (sys_machine s)) 0"
    "ld_i (sys_ld s) = 1" "ld_pending (sys_ld s) = None"
    "load_runs (m_ram (sys_machine s)) (m_swp (sys_machine s)) (sys_ld s) (\<lambda>_ _ _. True)"
    by (rule sample_second_slot)
  have i: "ld_i (sys_ld s) < 2" "(0 :: int) \<le> 1" using s(8) by simp_all
  obtain l' m1 p c' m2 q mm where A: "ld_routine sample_env2 sample_cfg2 1 (sys_ld s) (sys_machine s) = Inr (Next_slot, l', m1)"
      "will_run cpu_start m1 = Some p" "next_safe (m_ram m1) (m_swp m1) p" "queued (m_sched m1) = {#p#}"
      "cpu_routine 2 cpu_start m1 = Inr (Next_slot, c', m2)" "cpu_proc c' = Some q" "p_mm q = Some mm" "sbrk (hd (mmap mm)) = 300"
      "queued (m_sched m2) = {#}" "pc q = 1"
    by (rule load_runs_slots [OF s(10) i(1) s(9) i(2) s(5-7)])
  let ?s1 = "s\<lparr>sys_ld := l', sys_machine := m1, sys_timer := leave_slot Next_slot ld_dev (sys_timer s)\<rparr>"
  have r1: "safe_reachable sample_boot sample_env2 [''os'', ''two''] sample_cfg2 ?s1"
    using A(1) sample_at_work [OF s(4)] by (intro safe_loader s(1)) (simp_all add: s(4) ld_dev_def)
  have t1: "sys_timer ?s1 = sample_clock 1 [sample_waiter 1, sample_worker 1, sample_worker 1]"
    by (simp add: s(4) sample_leave ld_dev_def)
  have "at_work ?s1 (cpu_dev ?s1 1)" using s(2) by (simp add: sample_at_work [OF t1] cpu_dev_def)
  then show thesis using that [OF r1, of c p c' m2] A(2-10) s(2,3) by (simp add: slot_safe_def sample_ran_def)
qed

section \<open>Properties\<close>

text \<open>
  C2: the memory of all processes stays in order as long as every allocation gets its frames
  and accesses are safe: when \<open>malloc\<close> returns zeroed memory and the devices have at least two pages,
  in every state the simulator reaches by slots that execute no allocation without enough frames
  (it succeeds, and the order is lost), no write that causes a page fault and no access outside
  the area, both devices are
  well formed, the regions of every admitted process are disjoint and inside its area, exactly the
  pages of the area are mapped, each to a frame that is not free, and no two processes share a RAM
  frame or a swap frame.
\<close>

theorem memories_in_order:
  assumes "safe_reachable b env argv cfg s" and "0 < time_slot cfg" and "boot_ready cfg" and "malloc_zeroed env"
  shows "dev_pair_ok (m_ram (sys_machine s)) (m_swp (sys_machine s)) \<and>
    (\<forall>p \<in># admitted s. mem_in_order (m_ram (sys_machine s)) (m_swp (sys_machine s)) p \<and>
      (\<forall>q \<in># admitted s - {#p#}. no_shared_frame p q))"
  using safe_reachable_mems [OF assms(1-4)] by (simp add: mems_ok_def)

theorem memories_in_order_witness:
  "\<exists>s p q mp mq. safe_reachable sample_boot sample_env2 [''os'', ''two''] sample_cfg2 s \<and> admitted s = {#p, q#} \<and>
    p_mm p = Some mp \<and> p_mm q = Some mq \<and> sbrk (hd (mmap mp)) = 300 \<and> sbrk (hd (mmap mq)) = 300 \<and>
    mem_in_order (m_ram (sys_machine s)) (m_swp (sys_machine s)) p \<and> no_shared_frame p q"
proof -
  obtain s x c c' m where s: "safe_reachable sample_boot sample_env2 [''os'', ''two''] sample_cfg2 s"
    "sys_cpus s = [c, cpu_start]" "sample_ran c" "at_work s (cpu_dev s 1)" "queued (m_sched (sys_machine s)) = {#x#}"
    "will_run cpu_start (sys_machine s) = Some x" "slot_safe cpu_start (sys_machine s)"
    "cpu_routine 2 cpu_start (sys_machine s) = Inr (Next_slot, c', m)" "sample_ran c'" "queued (m_sched m) = {#}"
    by (rule sample_two)
  have d: "1 < length (sys_cpus s)" "sys_cpus s ! 1 = cpu_start" "time_slot sample_cfg2 = 2"
    using s(2) by (simp_all add: sample_cfg2_def)
  let ?s = "s\<lparr>sys_cpus := (sys_cpus s)[1 := c'], sys_machine := m,
      sys_finished := sys_finished s + finishing (sys_cpus s ! 1), sys_timer := leave_slot Next_slot (cpu_dev s 1) (sys_timer s)\<rparr>"
  have r: "safe_reachable sample_boot sample_env2 [''os'', ''two''] sample_cfg2 ?s"
    using s(7,8) d by (intro safe_cpu [OF s(1) d(1) s(4)]) simp_all
  obtain p mp q mq where pq: "cpu_proc c = Some p" "p_mm p = Some mp" "sbrk (hd (mmap mp)) = 300"
      "cpu_proc c' = Some q" "p_mm q = Some mq" "sbrk (hd (mmap mq)) = 300"
    using s(3,9) by (auto simp: sample_ran_def)
  have "admitted ?s = {#p, q#}" using s(2,10) pq by (simp add: admitted_def on_cpus_def opt_mset_def)
  then show ?thesis using memories_in_order [OF r sample_boot_ready(2,1,3)] r pq by (intro exI conjI) (assumption | simp)+
qed

text \<open>
  C3: a safe slot disturbs no other process: under the conditions of the property above, when a CPU runs its slot
  and the instruction it executes, if any, is safe (so it is not a write that causes a page fault),
  no byte changes of any page of any admitted process other than the one that runs, whether
  that process is queued, on another CPU, in RAM or in swap.
\<close>

theorem slot_spares_others:
  assumes "safe_reachable b env argv cfg s" and "0 < time_slot cfg" and "boot_ready cfg" and "malloc_zeroed env"
    and "k < length (sys_cpus s)" and "slot_safe (sys_cpus s ! k) (sys_machine s)"
    and "cpu_routine (time_slot cfg) (sys_cpus s ! k) (sys_machine s) = Inr (e, c, m)"
    and "q \<in># admitted s - opt_mset (will_run (sys_cpus s ! k) (sys_machine s))" and "p_mm q = Some mm"
    and "i \<in> mapped_pages mm" and "j \<in> {0 ..< PAGING_PAGESZ}"
  shows "proc_byte (m_ram m) (m_swp m) q i j = proc_byte (m_ram (sys_machine s)) (m_swp (sys_machine s)) q i j"
proof -
  have "sys_inv cfg s" using sys_inv_reachable [OF safe_is_reachable [OF assms(1)] assms(2)] by blast
  note n = sys_inv_slot [OF this assms(5)]
  obtain Q where Q: "admitted s = held (sys_cpus s ! k) (sys_machine s) + Q"
    using admitted_split [OF assms(5)] by blast
  show ?thesis
    using cpu_slot_mems(2) [OF n(3,1) assms(7), of Q] safe_reachable_mems [OF assms(1-4)] n(2) assms(6,8-11)
    unfolding Q by (auto simp: pages_kept_def)
qed

theorem slot_spares_others_witness:
  "\<exists>s p q mm c m. safe_reachable sample_boot sample_env2 [''os'', ''two''] sample_cfg2 s \<and> admitted s = {#p, q#} \<and>
    will_run cpu_start (sys_machine s) = Some p \<and> cpu_routine 2 cpu_start (sys_machine s) = Inr (Next_slot, c, m) \<and>
    p_mm q = Some mm \<and> 0 \<in> mapped_pages mm \<and>
    proc_byte (m_ram m) (m_swp m) q 0 5 = proc_byte (m_ram (sys_machine s)) (m_swp (sys_machine s)) q 0 5"
proof -
  obtain s p c c' m where s: "safe_reachable sample_boot sample_env2 [''os'', ''two''] sample_cfg2 s"
    "sys_cpus s = [c, cpu_start]" "sample_ran c" "at_work s (cpu_dev s 1)" "queued (m_sched (sys_machine s)) = {#p#}"
    "will_run cpu_start (sys_machine s) = Some p" "slot_safe cpu_start (sys_machine s)"
    "cpu_routine 2 cpu_start (sys_machine s) = Inr (Next_slot, c', m)" "sample_ran c'" "queued (m_sched m) = {#}"
    by (rule sample_two)
  have d: "1 < length (sys_cpus s)" "sys_cpus s ! 1 = cpu_start" "time_slot sample_cfg2 = 2"
    using s(2) by (simp_all add: sample_cfg2_def)
  obtain q mm where q: "cpu_proc c = Some q" "p_mm q = Some mm" "sbrk (hd (mmap mm)) = 300"
    using s(3) by (auto simp: sample_ran_def)
  have a: "admitted s = {#p, q#}" using s(2,5) q(1) by (simp add: admitted_def on_cpus_def opt_mset_def cpu_start_def)
  have m: "0 \<in> mapped_pages mm" using q(3) by (simp add: mapped_pages_def pages_for_def)
  have "proc_byte (m_ram m) (m_swp m) q 0 5 = proc_byte (m_ram (sys_machine s)) (m_swp (sys_machine s)) q 0 5"
    using s(6-8) a m d
    by (intro slot_spares_others [OF s(1) sample_boot_ready(2,1,3) d(1) _ _ _ q(2)])
      (simp_all add: opt_mset_def PAGING_PAGESZ_def)
  then show ?thesis using s(1,6,8) a q(2) m by blast
qed

end
