(* ===== verification/OS_Trace.thy ===== *)
theory OS_Trace
  imports OS_Isolation
begin

text \<open>
  What the CPUs of the simulator do to the memory of the processes, as a log of the states that
  are seen after the slots. The invariant relates the log to the programs: the changes of the
  memory of a process are those of the instructions of its program, whichever CPUs ran it and in
  whichever order.
\<close>

section \<open>The log of observed slots\<close>

text \<open>
  An event of a process: the devices before a slot, and the memory of the process after it. It
  is read off the states before and after the slot: the process that is on the CPU after
  the slot has another \<open>pc\<close> than the process with its pid had before.
\<close>

type_synonym mem_event = "memphy_struct \<times> memphy_struct \<times> vmctx"

definition slot_event :: "os_system \<Rightarrow> os_system \<Rightarrow> nat \<Rightarrow> (int \<times> mem_event) list" where
  "slot_event s s' k =
     (let m = sys_machine s; m' = sys_machine s'
      in case cpu_proc (sys_cpus s' ! k) of
           None \<Rightarrow> []
         | Some p' \<Rightarrow>
             (case p_mm p' of
                None \<Rightarrow> []
              | Some mm' \<Rightarrow>
                  if \<exists>p \<in># admitted s. pid p = pid p' \<and> pc p \<noteq> pc p'
                  then [(pid p', m_ram m, m_swp m, caller_ctx mm' (m_ram m') (m_swp m'))] else []))"

definition observed :: "os_system \<Rightarrow> os_system \<Rightarrow> (int \<times> mem_event) list" where
  "observed s s' =
     concat (map (\<lambda>k. if ran_slot s s' k then slot_event s s' k else []) [0..<length (sys_cpus s)])"

inductive os_trace :: "boot_env \<Rightarrow> ld_env \<Rightarrow> string list \<Rightarrow> os_config \<Rightarrow> (int \<times> mem_event) list \<Rightarrow> os_system \<Rightarrow> bool"
  for b env argv where
  Trace_boot: "os_main b env argv = Inr (Some (cfg, s)) \<Longrightarrow> os_trace b env argv cfg [] s"
| Trace_step: "os_trace b env argv cfg tr s \<Longrightarrow> os_step env cfg s s' \<Longrightarrow> os_trace b env argv cfg (tr @ observed s s') s'"

lemma trace_reachable: "os_trace b env argv cfg tr s \<Longrightarrow> os_reachable b env argv cfg s"
  by (induction rule: os_trace.induct) (auto intro: os_reachable.intros)

lemma reachable_trace: "os_reachable b env argv cfg s \<Longrightarrow> \<exists>tr. os_trace b env argv cfg tr s"
  by (induction rule: os_reachable.induct) (blast intro: os_trace.intros)+

definition events_of :: "(int \<times> mem_event) list \<Rightarrow> int \<Rightarrow> mem_event list" where
  "events_of tr n = map snd (filter (\<lambda>e. fst e = n) tr)"

lemma events_of_simps [simp]:
  "events_of [] n = []" "events_of (tr @ tr') n = events_of tr n @ events_of tr' n"
  "events_of ((m, i) # tr) n = (if m = n then i # events_of tr n else events_of tr n)"
  by (simp_all add: events_of_def)

text \<open>
  The events are what the instructions do, one event each: starting from the memory description
  \<open>m\<close>, each instruction is performed on the description the one before it left and on the
  devices as they are at the time of its slot, and its result is what is seen after the slot.
  \<open>m'\<close> is the description in the end.
\<close>

primrec performs :: "inst_t list \<Rightarrow> mm_struct \<Rightarrow> mem_event list \<Rightarrow> mm_struct \<Rightarrow> bool" where
  "performs [] m es m' \<longleftrightarrow> es = [] \<and> m' = m"
| "performs (i # is) m es m' \<longleftrightarrow>
     (case es of
        [] \<Rightarrow> False
      | (ram, sw, c) # es \<Rightarrow>
          (\<exists>r. exec_mem i (caller_ctx m ram sw) = Inr (r, c)) \<and> performs is (c_mm c) es m')"

lemma performs_snoc:
  "performs is m es m1 \<Longrightarrow> exec_mem i (caller_ctx m1 ram sw) = Inr (r, c) \<Longrightarrow>
     performs (is @ [i]) m (es @ [(ram, sw, c)]) (c_mm c)"
  by (induction "is" arbitrary: m es) (auto split: list.splits prod.splits)

text \<open>The memory description a process gets when the loader admits it.\<close>

definition first_mm :: "ld_env \<Rightarrow> int \<Rightarrow> mm_struct option" where
  "first_mm env n =
     (case init_mm (env_mm env (nat n - 1)) (env_link env (nat n - 1)) of Inl _ \<Rightarrow> None | Inr (_, m) \<Rightarrow> Some m)"

text \<open>The program of a pid: the pids count the processes of the configuration from 1 on.\<close>

definition program :: "ld_env \<Rightarrow> os_config \<Rightarrow> int \<Rightarrow> inst_t list" where
  "program env cfg n =
     (let i = nat n - 1
      in case load (env_fs env) (env_pcb env i) (env_text env i) n (ld_path (ld_processes cfg ! i)) of
           Inl _ \<Rightarrow> []
         | Inr (p, _) \<Rightarrow> code_text (code p))"

section \<open>Which step runs a slot\<close>

lemma concat_single:
  assumes "k < n" "\<And>j. j < n \<Longrightarrow> P j \<longleftrightarrow> j = k"
  shows "concat (map (\<lambda>j. if P j then f j else []) [0..<n]) = f k"
proof -
  have "[0..<n] = [0..<k] @ k # [Suc k..<n]" using assms(1) by (metis less_imp_le_nat upt_add_eq_append upt_conv_Cons le_add_diff_inverse zero_le)
  moreover have "concat (map (\<lambda>j. if P j then f j else []) [0..<k]) = []"
    and "concat (map (\<lambda>j. if P j then f j else []) [Suc k..<n]) = []"
    using assms by (auto simp: concat_eq_Nil_conv)
  moreover have "P k" using assms by blast
  ultimately show ?thesis
    by (simp only: map_append concat_append list.map concat.simps append_Nil append_Nil2 if_True)
qed

lemma observed_none: "(\<And>k. \<not> ran_slot s s' k) \<Longrightarrow> observed s s' = []"
  by (simp add: observed_def)

lemma clock_keeps_work:
  assumes "tstep r t t'" "same_posts t t'" "timer_inv t" "d < length (dev_list t)" "dpc (dev_list t ! d) = Working"
  shows "d < length (dev_list t') \<and> dpc (dev_list t' ! d) = Working"
  using assms(1)
proof (cases rule: tstep.cases)
  case Timer
  then show ?thesis using clock_steps(1) assms(4,5) by (simp add: clock_step_def)
next
  case (Post j)
  have "map posts (dev_list t') ! j = Suc (map posts (dev_list t) ! j)"
    using Post by (simp add: next_slot_post_def timer_simps split: timer_pc.splits)
  then show ?thesis using assms(2) by (simp add: same_posts_def)
next
  case (Test j)
  then show ?thesis using clock_steps(2) assms(4,5) by (simp add: clock_step_def)
next
  case (Detach j)
  have "map fsh (dev_list t') ! j" using Detach by (simp add: detach_event_def timer_simps split: timer_pc.splits)
  moreover have "\<not> map fsh (dev_list t) ! j" using working_attached [OF assms(3)] Detach by simp
  ultimately show ?thesis using assms(2) by (simp add: same_posts_def)
next
  case (Spurious_dev j)
  then show ?thesis using assms(4,5) by (auto simp: upd_dev_def nth_list_update)
qed (use assms(4,5) in \<open>simp_all add: stop_request_def\<close>)

lemma observed_cpu:
  assumes "k < length (sys_cpus s)" "at_work s (cpu_dev s k)" "sys_timer s' = leave_slot e (cpu_dev s k) (sys_timer s)"
    "length (sys_cpus s') = length (sys_cpus s)"
  shows "observed s s' = slot_event s s' k"
proof -
  have "ran_slot s s' j \<longleftrightarrow> j = k" if "j < length (sys_cpus s)" for j
    using cpu_step_ran [OF assms(1-3)] left_only [of s s' j e "cpu_dev s k"] assms that by (auto simp: cpu_dev_def)
  then show ?thesis unfolding observed_def by (rule concat_single [OF assms(1)])
qed

lemma observed_loader:
  assumes "sys_timer s' = leave_slot e ld_dev (sys_timer s)" "length (sys_cpus s') = length (sys_cpus s)"
  shows "observed s s' = []"
  using left_only [OF _ assms] by (intro observed_none) (auto simp: ran_slot_def cpu_dev_def ld_dev_def)

lemma observed_clock:
  assumes "tstep r (sys_timer s) t" "same_posts (sys_timer s) t" "timer_inv (sys_timer s)"
  shows "observed s (s\<lparr>sys_timer := t\<rparr>) = []"
  using clock_keeps_work [OF assms] by (intro observed_none) (auto simp: ran_slot_def at_work_def cpu_dev_def)

section \<open>The log and the programs\<close>

definition log_ok :: "ld_env \<Rightarrow> os_config \<Rightarrow> (int \<times> mem_event) list \<Rightarrow> pcb_t \<Rightarrow> bool" where
  "log_ok env cfg tr p \<longleftrightarrow> code_text (code p) = program env cfg (pid p) \<and>
     (\<exists>m0 m. first_mm env (pid p) = Some m0 \<and> p_mm p = Some m \<and>
       performs (take (nat (pc p)) (program env cfg (pid p))) m0 (events_of tr (pid p)) m)"

definition done_ok :: "ld_env \<Rightarrow> os_config \<Rightarrow> (int \<times> mem_event) list \<Rightarrow> int \<Rightarrow> bool" where
  "done_ok env cfg tr n \<longleftrightarrow>
     (\<exists>m0 m. first_mm env n = Some m0 \<and> performs (program env cfg n) m0 (events_of tr n) m)"

text \<open>A process that waits in the loader for its start time.\<close>

definition pending_ok :: "ld_env \<Rightarrow> os_config \<Rightarrow> ld_state \<Rightarrow> pcb_t \<Rightarrow> bool" where
  "pending_ok env cfg l p \<longleftrightarrow>
     code_text (code p) = program env cfg (pid p) \<and> pc p = 0 \<and> pid p = int (Suc (ld_i l))"

definition log_inv :: "ld_env \<Rightarrow> os_config \<Rightarrow> (int \<times> mem_event) list \<Rightarrow> pcb_t multiset \<Rightarrow> int multiset \<Rightarrow> bool" where
  "log_inv env cfg tr A F \<longleftrightarrow> (\<forall>p \<in># A. log_ok env cfg tr p) \<and> (\<forall>n \<in># F. done_ok env cfg tr n) \<and>
     (\<forall>n. n \<notin># image_mset pid A + F \<longrightarrow> events_of tr n = [])"

text \<open>A finished process has performed all of its program.\<close>

lemma log_inv_gone:
  assumes inv: "log_inv env cfg tr (A + gone c) F" and ok: "codes_ok (gone c)"
  shows "log_inv env cfg tr A (F + finishing c)"
proof (cases "gone c = {#}")
  case True
  then have "finishing c = {#}" by (auto simp: gone_def finishing_def split: option.splits if_splits)
  then show ?thesis using inv True by simp
next
  case False
  then obtain p where p: "gone c = {#p#}" "finishing c = {#pid p#}" "pc p = code_size (code p)"
    by (auto simp: gone_def finishing_def split: option.splits if_splits)
  have "log_ok env cfg tr p" using inv p(1) by (simp add: log_inv_def)
  then have "done_ok env cfg tr (pid p)" using ok p(1,3) by (auto simp: log_ok_def done_ok_def code_ok_def)
  then show ?thesis using inv p(1,2) by (auto simp: log_inv_def)
qed

lemma run_advances:
  assumes "run p ram sw = Inr (r, p', ram', sw')" "code_ok p"
  shows "pid p' = pid p" "code p' = code p" "pc p' = (if pc p < code_size (code p) then pc p + 1 else pc p)"
proof -
  show "pid p' = pid p" "code p' = code p" using run_keeps(1) [OF assms(1)] by simp_all
  consider "code_size (code p) \<le> pc p" "p' = p" | mm where "pc p < code_size (code p)" "p' = p\<lparr>pc := u32 (pc p + 1), p_mm := mm\<rparr>"
    | "pc p < code_size (code p)" "p' = p\<lparr>pc := u32 (pc p + 1)\<rparr>"
    using assms(1) by (auto simp: run_def Let_def res_simps split: if_splits dest!: on_mm_keeps)
  then show "pc p' = (if pc p < code_size (code p) then pc p + 1 else pc p)"
    using code_ok_step(1) [OF assms(2)] by cases simp_all
qed

lemma run_mm:
  assumes "run p ram sw = Inr (r, p', ram', sw')" "code_ok p" "p_mm p = Some m"
  obtains m' where "p_mm p' = Some m'"
proof (cases "pc p < code_size (code p)")
  case True
  then show thesis using that assms(1) run_exec [OF assms(2,3) True, of ram sw] by (auto simp: res_simps)
next
  case False
  then show thesis using that assms(1,3) by (auto simp: run_def res_simps)
qed

lemma log_inv_run:
  assumes inv: "log_inv env cfg tr (add_mset p R) F" and ok: "code_ok p" and once: "pid p \<notin># image_mset pid R + F"
    and run: "run p ram sw = Inr (r, p', ram', sw')" and mm': "p_mm p' = Some mm'"
  shows "log_inv env cfg (tr @ (if pc p < code_size (code p) then [(pid p, ram, sw, caller_ctx mm' ram' sw')] else []))
    (add_mset p' R) F"
proof (cases "pc p < code_size (code p)")
  case False
  then have "p' = p" using run by (auto simp: run_def res_simps)
  then show ?thesis using inv False by simp
next
  case True
  let ?tr = "tr @ [(pid p, ram, sw, caller_ctx mm' ram' sw')]" and ?prog = "program env cfg (pid p)"
  note a = run_advances [OF run ok]
  obtain m0 m where p: "code_text (code p) = ?prog" "first_mm env (pid p) = Some m0" "p_mm p = Some m"
      "performs (take (nat (pc p)) ?prog) m0 (events_of tr (pid p)) m"
    using inv by (auto simp: log_inv_def log_ok_def)
  have l: "nat (pc p) < length ?prog" "nat (pc p + 1) = Suc (nat (pc p))"
    using True ok p(1) by (auto simp: code_ok_def)
  obtain c where c: "exec_mem (?prog ! nat (pc p)) (caller_ctx m ram sw) = Inr (r, c)" "p_mm p' = Some (c_mm c)"
      "ram' = c_mram c" "sw' = c_mswp c"
    using run run_exec [OF ok p(3) True, of ram sw] p(1) by (auto simp: res_simps)
  have c': "caller_ctx mm' ram' sw' = c" using c(2-4) mm' by simp
  have other: "events_of ?tr n = events_of tr n" if "n \<noteq> pid p" for n using that by simp
  have "performs (take (Suc (nat (pc p))) ?prog) m0 (events_of ?tr (pid p)) (c_mm c)"
    using performs_snoc [OF p(4) c(1)] l(1) c' by (simp add: take_Suc_conv_app_nth)
  then have "log_ok env cfg ?tr p'" using a True p(1,2) l(2) c(2) by (simp add: log_ok_def)
  moreover have "log_ok env cfg ?tr q" if "q \<in># R" for q
    using inv that once other [of "pid q"] by (auto simp: log_inv_def log_ok_def)
  moreover have "done_ok env cfg ?tr n" if "n \<in># F" for n
    using inv that once other [of n] by (auto simp: log_inv_def done_ok_def)
  moreover have "events_of ?tr n = []" if "n \<notin># image_mset pid (add_mset p' R) + F" for n
    using inv that a(1) other [of n] by (auto simp: log_inv_def)
  ultimately show ?thesis using True by (auto simp: log_inv_def simp del: events_of_simps)
qed

lemma pids_once:
  assumes "sys_inv cfg s" "live_procs s = add_mset p R"
  shows "pid p \<notin># image_mset pid R + sys_finished s"
proof -
  have "mset (map int [1..<Suc (loaded (sys_ld s))]) = add_mset (pid p) (image_mset pid R + sys_finished s)"
    using assms by (simp add: sys_inv_def del: upt_Suc)
  moreover have "distinct (map int [1..<Suc (loaded (sys_ld s))])" by (simp add: distinct_map inj_on_def del: upt_Suc)
  ultimately have "count (add_mset (pid p) (image_mset pid R + sys_finished s)) (pid p) \<le> 1"
    by (metis distinct_count_atmost_1 le_eq_less_or_eq less_one nat_le_linear)
  then have "count (image_mset pid R + sys_finished s) (pid p) = 0" by simp
  then show ?thesis by (simp only: not_in_iff)
qed

text \<open>The event of a slot is that of the process that ran.\<close>

lemma slot_event_run:
  assumes "admitted s = add_mset p R" "pid p \<notin># image_mset pid R" "cpu_proc (sys_cpus s' ! k) = Some p'"
    and "pid p' = pid p" "p_mm p' = Some mm'"
  shows "slot_event s s' k = (if pc p' \<noteq> pc p
    then [(pid p, m_ram (sys_machine s), m_swp (sys_machine s), caller_ctx mm' (m_ram (sys_machine s')) (m_swp (sys_machine s')))]
    else [])"
proof -
  have "\<forall>q \<in># R. pid q \<noteq> pid p" using assms(2) by (metis image_eqI in_image_mset)
  then have "(\<exists>q \<in># admitted s. pid q = pid p' \<and> pc q \<noteq> pc p') \<longleftrightarrow> pc p' \<noteq> pc p" using assms(1,4) by auto
  then show ?thesis using assms(3-5) by (simp add: slot_event_def Let_def)
qed

lemma log_inv_cpu:
  assumes sys: "sys_inv cfg s" and inv: "log_inv env cfg tr (admitted s) (sys_finished s)"
    and k: "k < length (sys_cpus s)" and run: "cpu_routine (time_slot cfg) (sys_cpus s ! k) (sys_machine s) = Inr (e, c, m)"
    and s': "sys_cpus s' = (sys_cpus s)[k := c]" "sys_machine s' = m"
  shows "log_inv env cfg (tr @ slot_event s s' k) (admitted s') (sys_finished s + finishing (sys_cpus s ! k))"
proof -
  let ?c = "sys_cpus s ! k" and ?m = "sys_machine s" and ?P = "opt_mset (ld_pending (sys_ld s))"
  note i = sys_inv_slot [OF sys k]
  obtain Q where Q: "admitted s = held ?c ?m + Q" "\<forall>c m. queued (m_sched m) + on_cpus ((sys_cpus s)[k := c]) = held c m + Q"
    by (rule admitted_split [OF k])
  obtain H where H: "held ?c ?m = H + gone ?c" "slot_effect (will_run ?c ?m) H c ?m m"
    using cpu_slot_effect [OF i(3,1) run] by blast
  have A: "admitted s = H + Q + gone ?c" using Q(1) H(1) by (simp add: ac_simps)
  have codes: "codes_ok (H + Q)" "codes_ok (gone ?c)" using i(2) A by simp_all
  have inv1: "log_inv env cfg tr (H + Q) (sys_finished s + finishing ?c)"
    using log_inv_gone [OF inv [unfolded A] codes(2)] .
  have c: "cpu_proc (sys_cpus s' ! k) = cpu_proc c" using s'(1) k by simp
  have "log_inv env cfg (tr @ slot_event s s' k) (held c m + Q) (sys_finished s + finishing ?c)"
  proof (cases "will_run ?c ?m")
    case None
    then show ?thesis using inv1 H(2) c by (simp add: slot_event_def slot_effect_def)
  next
    case (Some p)
    then obtain r p' R where R: "H = add_mset p R" "run p (m_ram ?m) (m_swp ?m) = Inr (r, p', m_ram m, m_swp m)"
        "cpu_proc c = Some p'" "held c m = add_mset p' R"
      using H(2) by (auto simp: slot_effect_def)
    have l: "admitted s = add_mset p (R + Q + gone ?c)" "H + Q = add_mset p (R + Q)" unfolding A R(1) by simp_all
    have live: "live_procs s = add_mset p (?P + (R + Q + gone ?c))"
      using l(1) by (simp add: live_procs_def admitted_def ac_simps)
    have once: "pid p \<notin># image_mset pid (R + Q + gone ?c)" "pid p \<notin># image_mset pid (R + Q) + (sys_finished s + finishing ?c)"
      using pids_once [OF sys live] by (auto simp: gone_def finishing_def split: option.splits if_splits)
    have ok: "code_ok p" using codes(1) l(2) by simp
    note a = run_advances [OF R(2) ok]
    have "log_ok env cfg tr p" using inv1 l(2) by (simp add: log_inv_def)
    then obtain mm where mm0: "p_mm p = Some mm" by (auto simp: log_ok_def)
    obtain mm' where mm: "p_mm p' = Some mm'" by (rule run_mm [OF R(2) ok mm0])
    have "slot_event s s' k = (if pc p < code_size (code p)
        then [(pid p, m_ram ?m, m_swp ?m, caller_ctx mm' (m_ram m) (m_swp m))] else [])"
      using slot_event_run [OF l(1) once(1) _ a(1) mm, of s' k] c R(3) a(3) s'(2) by simp
    then show ?thesis using log_inv_run [OF inv1 [unfolded l(2)] ok once(2) R(2) mm] R(4) by simp
  qed
  moreover have "admitted s' = held c m + Q" using Q(2) s' by (simp add: admitted_def)
  ultimately show ?thesis by simp
qed

section \<open>The loader\<close>

text \<open>A process after a slot of the loader: one from before, or a new one with the next pid.\<close>

lemma ld_load_program:
  assumes "ld_load env (ld_processes cfg ! ld_i l) l = Inr (p, l')" "avail_pid l = int (Suc (ld_i l))"
  shows "code_text (code p) = program env cfg (avail_pid l)" "pid p = avail_pid l" "pc p = 0"
proof -
  obtain q nxt pr where q: "load (env_fs env) (env_pcb env (ld_i l)) (env_text env (ld_i l)) (avail_pid l)
      (ld_path (ld_processes cfg ! ld_i l)) = Inr (q, nxt)" "p = q\<lparr>prio := u32 pr\<rparr>"
    using assms(1) by (auto simp: ld_load_def res_simps split: option.splits)
  have i: "nat (avail_pid l) - 1 = ld_i l" using assms(2) by simp
  then show "code_text (code p) = program env cfg (avail_pid l)" using q unfolding program_def i Let_def by simp
  show "pid p = avail_pid l" "pc p = 0" using ld_load_Inr [OF assms(1)] by simp_all
qed

lemma log_inv_admit:
  assumes run: "ld_admit env now a p l m = Inr (e, l', m')" "sched_ok (m_sched m)"
    and inv: "log_inv env cfg tr (queued (m_sched m) + C) F" and pend: "pending_ok env cfg l p"
    and new: "pid p \<notin># image_mset pid (queued (m_sched m) + C) + F"
  shows "log_inv env cfg tr (queued (m_sched m') + C) F \<and> (\<forall>q. ld_pending l' = Some q \<longrightarrow> pending_ok env cfg l' q)"
  using run
proof (cases rule: ld_admit_cases)
  case waits
  then show ?thesis using inv pend by (simp add: pending_ok_def)
next
  case (admits mm s r)
  have "events_of tr (pid p) = []" using inv new by (simp add: log_inv_def)
  moreover have "nat (pid p) - 1 = ld_i l" using pend by (simp add: pending_ok_def del: of_nat_Suc)
  then have "first_mm env (pid p) = Some mm" using admits(7) unfolding first_mm_def by simp
  ultimately have "log_ok env cfg tr (p\<lparr>p_mm := Some mm\<rparr>)" using pend by (simp add: log_ok_def pending_ok_def)
  then show ?thesis using inv admits(3,4,6) by (auto simp: log_inv_def)
qed

lemma log_inv_loader:
  assumes sys: "sys_inv cfg s" and inv: "log_inv env cfg tr (admitted s) (sys_finished s)"
    and pend: "\<forall>p. ld_pending (sys_ld s) = Some p \<longrightarrow> pending_ok env cfg (sys_ld s) p"
    and run: "ld_routine env cfg now (sys_ld s) (sys_machine s) = Inr (e, l, m)"
  shows "log_inv env cfg tr (queued (m_sched m) + on_cpus (sys_cpus s)) (sys_finished s) \<and>
    (\<forall>p. ld_pending l = Some p \<longrightarrow> pending_ok env cfg l p)"
proof -
  let ?l = "sys_ld s" and ?m = "sys_machine s"
  have ok: "sched_ok (m_sched ?m)" using sys by (simp add: sys_inv_def)
  have L: "live_procs s = opt_mset (ld_pending ?l) + admitted s" by (simp add: live_procs_def admitted_def ac_simps)
  note A = inv [unfolded admitted_def]
  show ?thesis
    using run
  proof (cases rule: ld_routine_cases)
    case ends
    then show ?thesis using A pend by simp
  next
    case (waiting a p)
    have "live_procs s = add_mset p (admitted s)" using L waiting(4) by (simp add: opt_mset_def)
    from pids_once [OF sys this] show ?thesis
      using log_inv_admit [OF waiting(5) ok A] pend waiting(4) by (simp add: admitted_def)
  next
    case (loading a p l1)
    have a: "avail_pid ?l = int (Suc (ld_i ?l))" using sys loading(4) by (simp add: sys_inv_def loaded_def)
    note p = ld_load_program [OF loading(5) [unfolded loading(3)] a]
    have "ld_i l1 = ld_i ?l" using ld_load_Inr(1) [OF loading(5)] by simp
    then have "pending_ok env cfg l1 p" using p a by (simp add: pending_ok_def)
    moreover have "pid p \<notin># image_mset pid (admitted s) + sys_finished s"
    proof -
      have "image_mset pid (admitted s) + sys_finished s = mset (map int [1..<Suc (loaded ?l)])"
        using sys L loading(4) by (simp add: sys_inv_def opt_mset_def del: upt_Suc)
      then show ?thesis using p(2) a loading(4) by (auto simp: loaded_def)
    qed
    ultimately show ?thesis using log_inv_admit [OF loading(6) ok A] by (simp add: admitted_def)
  qed
qed

section \<open>Every reachable state\<close>

definition trace_inv :: "ld_env \<Rightarrow> os_config \<Rightarrow> (int \<times> mem_event) list \<Rightarrow> os_system \<Rightarrow> bool" where
  "trace_inv env cfg tr s \<longleftrightarrow> log_inv env cfg tr (admitted s) (sys_finished s) \<and>
     (\<forall>p. ld_pending (sys_ld s) = Some p \<longrightarrow> pending_ok env cfg (sys_ld s) p)"

lemma trace_inv_step:
  assumes inv: "trace_inv env cfg tr s" "sys_inv cfg s" "timer_inv (sys_timer s)" and step: "os_step env cfg s s'"
  shows "trace_inv env cfg (tr @ observed s s') s'"
  using step
proof (cases rule: os_step.cases)
  case (Cpu k e c m)
  have "observed s s' = slot_event s s' k"
    using Cpu(1) by (intro observed_cpu [OF Cpu(2,3)]) simp_all
  moreover have "log_inv env cfg tr (admitted s) (sys_finished s)" using inv(1) by (simp add: trace_inv_def)
  note log_inv_cpu [OF inv(2) this Cpu(2,4), of s']
  ultimately show ?thesis using Cpu(1) inv(1) by (simp add: trace_inv_def)
next
  case (Loader e l m)
  have "observed s s' = []" using Loader(1) by (intro observed_loader) simp_all
  moreover have "log_inv env cfg tr (admitted s) (sys_finished s)"
      "\<forall>p. ld_pending (sys_ld s) = Some p \<longrightarrow> pending_ok env cfg (sys_ld s) p"
    using inv(1) by (simp_all add: trace_inv_def)
  note log_inv_loader [OF inv(2) this Loader(3)]
  ultimately show ?thesis using Loader(1) by (simp add: trace_inv_def admitted_def)
next
  case (Clock r t)
  then show ?thesis using observed_clock [OF Clock(2,3) inv(3)] inv(1) by (simp add: trace_inv_def admitted_def)
qed

lemma trace_inv_trace:
  assumes "os_trace b env argv cfg tr s" "0 < time_slot cfg"
  shows "trace_inv env cfg tr s"
  using assms
proof (induction rule: os_trace.induct)
  case (Trace_boot cfg s)
  show ?case
    using os_main_Some [OF Trace_boot(1)] by cases
      (simp add: trace_inv_def log_inv_def admitted_def on_cpus_start sample_queue_empty ld_start_def)
next
  case (Trace_step cfg tr s s')
  have r: "os_reachable b env argv cfg s" using trace_reachable [OF Trace_step(1)] .
  have "sys_inv cfg s" using sys_inv_reachable [OF r Trace_step(4)] by blast
  then show ?case
    using trace_inv_step [OF _ _ timer_inv_reachable [OF os_reachable_timer [OF r]] Trace_step(2)] Trace_step(3,4) by blast
qed

section \<open>The property\<close>

text \<open>
  C6: every program is performed exactly as it was loaded: along any run of the simulator,
  whichever CPUs run a process and however often it is preempted, the changes seen after its slots
  in its memory and in the devices are those of the first \<open>pc\<close> instructions of its program, each
  performed once and in order, from the memory description the loader gave it to the one it has
  now; those of a finished process are those of its whole program; nothing is seen for any other
  pid, that of a process the loader still holds included.
\<close>

theorem programs_run_exactly:
  assumes "os_trace b env argv cfg tr s" and "0 < time_slot cfg"
  shows "(\<forall>p \<in># admitted s. code_text (code p) = program env cfg (pid p) \<and>
      (\<exists>m0 m. first_mm env (pid p) = Some m0 \<and> p_mm p = Some m \<and>
        performs (take (nat (pc p)) (program env cfg (pid p))) m0 (events_of tr (pid p)) m)) \<and>
    (\<forall>n \<in># sys_finished s. \<exists>m0 m. first_mm env n = Some m0 \<and> performs (program env cfg n) m0 (events_of tr n) m) \<and>
    (\<forall>n. n \<notin># image_mset pid (admitted s) + sys_finished s \<longrightarrow> events_of tr n = [])"
  using trace_inv_trace [OF assms] by (simp add: trace_inv_def log_inv_def log_ok_def done_ok_def)

theorem programs_run_exactly_witness:
  "\<exists>tr s q m0 m ram sw c. os_trace sample_boot sample_env2 [''os'', ''two''] sample_cfg2 tr s \<and> q \<in># admitted s \<and>
    pc q = 1 \<and> first_mm sample_env2 (pid q) = Some m0 \<and> p_mm q = Some m \<and> events_of tr (pid q) = [(ram, sw, c)] \<and> m = c_mm c \<and>
    (\<exists>r. exec_mem (hd (program sample_env2 sample_cfg2 (pid q))) (caller_ctx m0 ram sw) = Inr (r, c))"
proof -
  obtain s p c c' m where s: "safe_reachable sample_boot sample_env2 [''os'', ''two''] sample_cfg2 s"
    "sys_cpus s = [c, cpu_start]" "sample_ran c" "at_work s (cpu_dev s 1)" "queued (m_sched (sys_machine s)) = {#p#}"
    "will_run cpu_start (sys_machine s) = Some p" "slot_safe cpu_start (sys_machine s)"
    "cpu_routine 2 cpu_start (sys_machine s) = Inr (Next_slot, c', m)" "sample_ran c'" "queued (m_sched m) = {#}"
    by (rule sample_two)
  have r: "os_reachable sample_boot sample_env2 [''os'', ''two''] sample_cfg2 s" using safe_is_reachable [OF s(1)] .
  obtain tr where tr: "os_trace sample_boot sample_env2 [''os'', ''two''] sample_cfg2 tr s" using reachable_trace [OF r] by blast
  obtain q where q: "cpu_proc c = Some q" "pc q = 1" using s(3) by (auto simp: sample_ran_def)
  have l: "q \<in># admitted s" using s(2) q(1) by (simp add: admitted_def on_cpus_def opt_mset_def)
  let ?prog = "program sample_env2 sample_cfg2 (pid q)"
  obtain m0 m where P: "code_text (code q) = ?prog" "first_mm sample_env2 (pid q) = Some m0" "p_mm q = Some m"
      "performs (take 1 ?prog) m0 (events_of tr (pid q)) m"
    using programs_run_exactly [OF tr sample_boot_ready(2)] l q(2) by fastforce
  have "codes_ok (live_procs s)" using sys_inv_reachable [OF r sample_boot_ready(2)] by (simp add: sys_inv_def)
  moreover have "q \<in># live_procs s" using l by (auto simp: live_procs_def admitted_def)
  ultimately have "1 \<le> length ?prog" using q(2) P(1) by (auto simp: codes_ok_def code_ok_def)
  then have "take 1 ?prog = [hd ?prog]" by (cases ?prog) simp_all
  then obtain ram sw cc r where e: "events_of tr (pid q) = [(ram, sw, cc)]" "exec_mem (hd ?prog) (caller_ctx m0 ram sw) = Inr (r, cc)"
      "m = c_mm cc"
    using P(4) by (auto split: list.splits)
  show ?thesis
    using tr l q(2) P(2,3) e by blast
qed

end
