(* ===== verification/OS_Stale.thy ===== *)
theory OS_Stale
  imports OS_Access
begin

text \<open>
  What the stale frame number of \<open>pg_getpage\<close> in \<open>src/mm-vm.c\<close> does to other processes. After a
  page fault the access goes to the frame whose number the old entry spells. For a page in
  swap frame \<open>f\<close> that is RAM frame \<open>32 * (f mod 256)\<close>, whoever owns it: for the first swap
  frame it is the first RAM frame.
\<close>

lemma stale_frame_number:
  assumes "0 \<le> f" "f < 2097152" "pgd m p = pte_set_swap e 0 f"
  shows "PAGING_FPN (pgd m p) = 32 * (f mod 256)"
  using assms by (simp add: FPN_pte_set_swap)

lemma setval_goes_to:
  assumes g: "pg_getpage c (PAGING_PGN a) = Inr (0, Some g, c')" and ok: "rdmflg (c_mram c')" "frame_in (c_mram c') g"
  shows "pg_setval c a b = Inr (0, put_byte c' (g * 256 + PAGING_OFFST a) b)"
proof -
  have "0 \<le> g * 256 + PAGING_OFFST a" "g * 256 + PAGING_OFFST a < maxsz (c_mram c')"
    using ok(2) PAGING_OFFST_bounds [of a] by (auto simp: frame_in_def PAGING_PAGESZ_def)
  then show ?thesis
    using g ok(1) by (simp add: pg_setval_def Let_def push_bit_eq_mult MEMPHY_write_def storage_set_def put_byte_def)
qed

lemma stale_write:
  assumes rdy: "fault_ready M c (PAGING_PGN a) v f" and ap: "apart M c N m"
    and p: "p \<in> N" "in_ram (c\<lparr>c_mm := m\<rparr>) p" "ram_frame (c\<lparr>c_mm := m\<rparr>) p = PAGING_FPN (pgd (c_mm c) (PAGING_PGN a))"
  shows "\<exists>c'. pg_setval c a b = Inr (0, c') \<and> page_byte (c'\<lparr>c_mm := m\<rparr>) p (PAGING_OFFST a) = b \<and>
    page_byte c' (PAGING_PGN a) (PAGING_OFFST a) = page_byte c (PAGING_PGN a) (PAGING_OFFST a)"
proof -
  let ?g = "PAGING_FPN (pgd (c_mm c) (PAGING_PGN a))" and ?k = "PAGING_OFFST a"
  have k: "0 \<le> ?k" "?k < 256" using PAGING_OFFST_bounds [of a] by simp_all
  obtain c' where c': "pg_getpage c (PAGING_PGN a) = Inr (0, Some ?g, c')" "in_ram c' (PAGING_PGN a)" "devices_ok c'"
      "confined M c M c'" "\<forall>q \<in> M. \<forall>j \<in> {0 ..< PAGING_PAGESZ}. page_byte c' q j = page_byte c q j"
    using pg_getpage_fault [OF rdy] by blast
  have g: "frame_in (c_mram c) ?g" "?g \<notin> ram_reach M c"
    using ap p by (auto simp: apart_def Let_def map_ok_def ram_pages_def)
  have M: "PAGING_PGN a \<in> M" using rdy by (simp add: fault_ready_def)
  have "frame_in (c_mram c') ?g" using g(1) c'(4) by (simp add: confined_def untouched_def frame_in_def)
  moreover have "rdmflg (c_mram c')" using c'(3) by (simp add: devices_ok_def)
  ultimately have run: "pg_setval c a b = Inr (0, put_byte c' (?g * 256 + ?k) b)" by (rule setval_goes_to [OF c'(1), rotated])
  let ?c = "put_byte c' (?g * 256 + ?k) b"
  note o = other_process [where c' = ?c and c = c and m = m]
  have "page_byte (?c\<lparr>c_mm := m\<rparr>) p ?k = frame_byte (c_mram ?c) ?g ?k"
    using page_byte_ram [of "?c\<lparr>c_mm := m\<rparr>" p ?k] p(2,3) unfolding o by simp
  then have b: "page_byte (?c\<lparr>c_mm := m\<rparr>) p ?k = b" using put_byte_frame [OF k k] by simp
  have "ram_frame c' (PAGING_PGN a) \<in> ram_reach M c"
    using c'(2,4) M by (auto simp: confined_def ram_reach_def ram_pages_def)
  then have "ram_frame c' (PAGING_PGN a) \<noteq> ?g" using g(2) by auto
  then have "page_byte ?c (PAGING_PGN a) ?k = page_byte c' (PAGING_PGN a) ?k"
    using c'(2) put_byte_frame [OF k k] by (simp add: page_byte_ram)
  then have "page_byte ?c (PAGING_PGN a) ?k = page_byte c (PAGING_PGN a) ?k"
    using c'(5) M k by (simp add: PAGING_PAGESZ_def)
  then show ?thesis using run b by blast
qed

text \<open>
  A process with page 0 in RAM frame 1 and page 1 in swap frame 0; RAM frame 0 holds a page of
  another process.
\<close>

definition sample_stale :: vmctx where
  "sample_stale =
     \<lparr>c_mm = sample_mm\<lparr>pgd := (\<lambda>_. 0)(0 := pte_set_fpn 0 1, 1 := pte_set_swap 0 0 0), fifo_pgn := CNode 0 CNull\<rparr>,
      c_mram = sample_dev 1024 [2, 3], c_mswp = sample_dev 4096 [1, 2, 3]\<rparr>"

lemma sample_stale_frames:
  "in_ram sample_stale p \<longleftrightarrow> p = 0" "ram_frame sample_stale 0 = 1" "swp_frame sample_stale 1 = 0"
  "ram_pages {0, 1} sample_stale = {0}" "swp_pages {0, 1} sample_stale = {1}"
proof -
  show r: "in_ram sample_stale p \<longleftrightarrow> p = 0" for p by (simp add: in_ram_def sample_stale_def)
  show "ram_pages {0, 1} sample_stale = {0}" "swp_pages {0, 1} sample_stale = {1}"
    by (auto simp: ram_pages_def swp_pages_def r)
  show "ram_frame sample_stale 0 = 1" "swp_frame sample_stale 1 = 0"
    by (simp_all add: ram_frame_def swp_frame_def sample_stale_def FPN_pte_set_fpn SWP_pte_set_swap)
qed

lemma sample_stale_ready: "fault_ready {0, 1} sample_stale 1 0 1"
proof -
  have "map_ok {0, 1} sample_stale"
    by (simp add: map_ok_def sample_stale_frames) (simp add: sample_stale_def sample_dev_def frame_in_def PAGING_PAGESZ_def)
  moreover have "devices_ok sample_stale"
    by (simp add: devices_ok_def sample_stale_def sample_dev_ok) (simp add: sample_dev_def)
  ultimately show ?thesis
    using sample_stale_frames(1) by (simp add: fault_ready_def) (simp add: sample_stale_def find_victim_page_def pgd_get_def)
qed

lemma sample_stale_apart:
  "apart {0, 1} sample_stale {0} sample_other" "in_ram (sample_stale\<lparr>c_mm := sample_other\<rparr>) 0"
  "ram_frame (sample_stale\<lparr>c_mm := sample_other\<rparr>) 0 = 0"
proof -
  let ?d = "sample_stale\<lparr>c_mm := sample_other\<rparr>"
  have r: "in_ram ?d p \<longleftrightarrow> p = 0" for p by (simp add: in_ram_def sample_other_def sample_mm_def)
  then have pg: "ram_pages {0} ?d = {0}" "swp_pages {0} ?d = {}" by (auto simp: ram_pages_def swp_pages_def)
  show f: "ram_frame ?d 0 = 0" by (simp add: ram_frame_def sample_other_def FPN_pte_set_fpn)
  show "in_ram ?d 0" using r by simp
  have "map_ok {0} ?d"
    using r pg f by (simp add: map_ok_def) (simp add: sample_stale_def sample_dev_def frame_in_def PAGING_PAGESZ_def)
  moreover have "0 \<notin> ram_reach {0, 1} sample_stale"
    by (simp add: ram_reach_def sample_stale_frames) (simp add: sample_stale_def)
  ultimately show "apart {0, 1} sample_stale {0} sample_other" using pg f by (simp add: apart_def Let_def)
qed

section \<open>The property\<close>

text \<open>
  C25: the write that causes a page fault breaks the isolation of processes: when the old entry
  of the faulting page spells the number of a frame that holds a page of another process,
  the byte is stored into the page of that process, and the page that was to be written
  keeps its old byte.
\<close>

theorem faulting_write_hits_other:
  assumes "fault_ready M c (PAGING_PGN a) v f" and "apart M c N m" and "p \<in> N" and "in_ram (c\<lparr>c_mm := m\<rparr>) p"
    and "ram_frame (c\<lparr>c_mm := m\<rparr>) p = PAGING_FPN (pgd (c_mm c) (PAGING_PGN a))"
  shows "\<exists>c'. pg_setval c a b = Inr (0, c') \<and> page_byte (c'\<lparr>c_mm := m\<rparr>) p (PAGING_OFFST a) = b \<and>
    page_byte c' (PAGING_PGN a) (PAGING_OFFST a) = page_byte c (PAGING_PGN a) (PAGING_OFFST a)"
  by (rule stale_write [OF assms])

theorem faulting_write_hits_other_witness:
  "\<exists>c'. pg_setval sample_stale 300 77 = Inr (0, c') \<and> page_byte (c'\<lparr>c_mm := sample_other\<rparr>) 0 44 = 77 \<and> page_byte c' 1 44 = 0"
proof -
  have a: "PAGING_PGN 300 = 1" "PAGING_OFFST 300 = 44" by (simp_all add: PAGING_PGN_div PAGING_OFFST_mod)
  have "PAGING_FPN (pgd (c_mm sample_stale) 1) = 0" by (simp add: sample_stale_def FPN_pte_set_swap)
  moreover have "page_byte sample_stale 1 44 = 0"
    using sample_stale_frames(1) by (simp add: page_byte_swp) (simp add: frame_byte_def sample_stale_def sample_dev_def)
  ultimately show ?thesis
    using faulting_write_hits_other [of "{0, 1}" sample_stale 300 0 1 "{0}" sample_other 0 77]
      sample_stale_ready sample_stale_apart a by auto
qed

end
