(* ===== verification/OS_Race.thy ===== *)
theory OS_Race
  imports OS_Sched
begin

text \<open>
  \<open>get_mlq_proc\<close> with other threads in between. The function takes \<open>queue_lock\<close> up to three
  times in one pass and reads \<open>size\<close> and \<open>slot\<close> without it, so that a call is a sequence of
  steps: the unlocked reads, each of one word, and the critical sections. The calls of
  \<open>put_proc\<close> and \<open>add_proc\<close> are one critical section each.
\<close>

section \<open>One call as steps\<close>

text \<open>
  Where a thread is: outside; in the scan of \<open>queue_empty\<close>; in front of the locked test of
  a queue; in front of the unlocked read of its budget; in front of the locked removal; in
  front of the locked reset of the budgets; returning.
\<close>

datatype get_pc =
    GOut
  | GEmpty nat
  | GTest nat
  | GSlot nat
  | GTake nat
  | GReset
  | GRet "pcb_t option"

fun get_step :: "get_pc \<Rightarrow> sched \<Rightarrow> (get_pc \<times> sched) res" where
  "get_step (GEmpty i) s =
     (if i < MAX_PRIO then
        rbind (arr_get (mlq s) i) (\<lambda>q. Inr (if \<not> empty (Some q) then GTest 0 else GEmpty (i + 1), s))
      else Inr (if empty (Some (ready_queue s)) \<and> empty (Some (run_queue s)) then GRet None else GTest 0, s))"
| "get_step (GTest i) s =
     (if i < MAX_PRIO then
        rbind (arr_get (mlq s) i) (\<lambda>q.
        if empty (Some q) then Inr (GTest (i + 1), if i = MAX_PRIO - 1 then resetSlot s else s)
        else Inr (GSlot i, s))
      else Inr (GRet None, s))"
| "get_step (GSlot i) s =
     rbind (arr_get (mlq s) i) (\<lambda>q.
     Inr (if q_slot q > 0 then GTake i else if i = MAX_PRIO - 1 then GReset else GTest (i + 1), s))"
| "get_step (GTake i) s =
     rbind (arr_get (mlq s) i) (\<lambda>q.
     rbind (dequeue q) (\<lambda>(p, q').
     Inr (GRet p, s\<lparr>mlq := (mlq s)[i := q'\<lparr>q_slot := u32_dec (q_slot q')\<rparr>]\<rparr>)))"
| "get_step GReset s = Inr (GTest 1, resetSlot s)"
| "get_step GOut s = Inr (GOut, s)"
| "get_step (GRet p) s = Inr (GRet p, s)"

declare get_step.simps [simp del]

fun in_call :: "get_pc \<Rightarrow> bool" where
  "in_call GOut = False"
| "in_call (GRet p) = False"
| "in_call c = True"

text \<open>A call without interference.\<close>

inductive alone :: "get_pc \<times> sched \<Rightarrow> get_pc \<times> sched \<Rightarrow> bool" where
  "in_call c \<Longrightarrow> get_step c s = Inr (c', s') \<Longrightarrow> alone (c, s) (c', s')"

inductive_cases aloneE [elim!]: "alone (c, s) (c', s')"

lemma alone_det: "alone x y \<Longrightarrow> alone x z \<Longrightarrow> y = z"
  by (auto elim!: alone.cases)

lemma alone_final: "alone\<^sup>*\<^sup>* (GRet p, s) y \<Longrightarrow> y = (GRet p, s)"
  by (erule converse_rtranclpE) (auto elim: alone.cases)

lemma alone_confluent:
  assumes "alone\<^sup>*\<^sup>* x (GRet p, s)" "alone\<^sup>*\<^sup>* x (GRet p', s')"
  shows "p = p' \<and> s = s'"
  using assms
proof (induction rule: converse_rtranclp_induct)
  case base
  then show ?case using alone_final by blast
next
  case (step y z)
  from step(4) have "alone\<^sup>*\<^sup>* z (GRet p', s')"
  proof (cases rule: converse_rtranclpE)
    case base
    then show ?thesis using step(1) by (auto elim: alone.cases)
  next
    case (step w)
    then show ?thesis using alone_det \<open>alone y z\<close> by blast
  qed
  then show ?case using step.IH by blast
qed

lemma alone_step: "in_call c \<Longrightarrow> get_step c s = Inr (c', s') \<Longrightarrow> alone\<^sup>*\<^sup>* (c', s') z \<Longrightarrow> alone\<^sup>*\<^sup>* (c, s) z"
  by (auto intro: alone.intros converse_rtranclp_into_rtranclp)

section \<open>The steps compute the function\<close>

lemma alone_scan:
  assumes "length (mlq s) = MAX_PRIO" "i \<le> MAX_PRIO" "\<forall>j < i. empty (Some (mlq s ! j))"
  shows "alone\<^sup>*\<^sup>* (GEmpty i, s) (if queue_empty s then GRet None else GTest 0, s)"
  using assms(2,3)
proof (induction "MAX_PRIO - i" arbitrary: i)
  case 0
  then have i: "i = MAX_PRIO" by simp
  have "\<not> list_ex (\<lambda>q. \<not> empty (Some q)) (mlq s)" using 0 i assms(1) by (simp add: list_ex_length)
  then have "get_step (GEmpty i) s = Inr (if queue_empty s then GRet None else GTest 0, s)"
    using i by (simp add: get_step.simps queue_empty_def)
  then show ?case by (rule alone_step [OF _ _ rtranclp.rtrancl_refl, rotated]) simp
next
  case (Suc n)
  then have i: "i < MAX_PRIO" by simp
  show ?case
  proof (cases "empty (Some (mlq s ! i))")
    case True
    have "\<forall>j < Suc i. empty (Some (mlq s ! j))" using Suc.prems True less_Suc_eq by auto
    then show ?thesis
      using Suc.hyps(1) [of "Suc i"] Suc.hyps(2) i assms(1) True by - (rule alone_step, auto simp: get_step.simps)
  next
    case False
    then have "\<not> queue_empty s" using i assms(1) by (auto simp: queue_empty_def list_ex_length)
    then show ?thesis using False i assms(1) by - (rule alone_step, auto simp: get_step.simps)
  qed
qed

lemma alone_loop:
  "length (mlq s) = MAX_PRIO \<Longrightarrow> get_mlq_loop i s = Inr (p, s') \<Longrightarrow> alone\<^sup>*\<^sup>* (GTest i, s) (GRet p, s')"
proof (induction i s rule: get_mlq_loop.induct)
  case (1 i s)
  show ?case
  proof (cases "i < MAX_PRIO")
    case False
    then have "get_step (GTest i) s = Inr (GRet p, s')"
      using "1.prems" by (simp add: get_step.simps get_mlq_loop.simps [of i])
    then show ?thesis by (rule alone_step [OF _ _ rtranclp.rtrancl_refl, rotated]) simp
  next
    case True
    let ?q = "mlq s ! i"
    have q: "arr_get (mlq s) i = Inr ?q" using True "1.prems"(1) by simp
    note IH = "1.IH" [OF True q]
    consider "empty (Some ?q)" | "\<not> empty (Some ?q)" "q_slot ?q > 0"
      | "\<not> empty (Some ?q)" "\<not> q_slot ?q > 0" "i = MAX_PRIO - 1"
      | "\<not> empty (Some ?q)" "\<not> q_slot ?q > 0" "i \<noteq> MAX_PRIO - 1" by blast
    then show ?thesis
    proof cases
      case 1
      then have "alone\<^sup>*\<^sup>* (GTest (i + 1), if i = MAX_PRIO - 1 then resetSlot s else s) (GRet p, s')"
        using IH(1) True "1.prems" q by (simp add: get_mlq_loop.simps [of i])
      then show ?thesis using 1 True q by - (rule alone_step [of "GTest i"], auto simp: get_step.simps)
    next
      case 2
      then obtain q' where d: "dequeue ?q = Inr (p, q')" "s' = s\<lparr>mlq := (mlq s)[i := q'\<lparr>q_slot := u32_dec (q_slot q')\<rparr>]\<rparr>"
        using True "1.prems"(2) q by (auto simp: get_mlq_loop.simps [of i] res_simps)
      have "alone\<^sup>*\<^sup>* (GTake i, s) (GRet p, s')" using d q by - (rule alone_step [of "GTake i"], auto simp: get_step.simps)
      then have "alone\<^sup>*\<^sup>* (GSlot i, s) (GRet p, s')" using 2 q by - (rule alone_step [of "GSlot i"], auto simp: get_step.simps)
      then show ?thesis using 2 True q by - (rule alone_step [of "GTest i"], auto simp: get_step.simps)
    next
      case 3
      have "get_mlq_loop i s = get_mlq_loop 1 (resetSlot s)"
        using 3 True q by (subst get_mlq_loop.simps) simp
      then have "alone\<^sup>*\<^sup>* (GTest 1, resetSlot s) (GRet p, s')" using IH(2) 3 "1.prems" by simp
      then have "alone\<^sup>*\<^sup>* (GReset, s) (GRet p, s')" by - (rule alone_step [of GReset], auto simp: get_step.simps)
      then have "alone\<^sup>*\<^sup>* (GSlot i, s) (GRet p, s')" using 3 q by - (rule alone_step [of "GSlot i"], auto simp: get_step.simps)
      then show ?thesis using 3 True q by - (rule alone_step [of "GTest i"], auto simp: get_step.simps)
    next
      case 4
      then have "alone\<^sup>*\<^sup>* (GTest (i + 1), s) (GRet p, s')"
        using IH(3) True "1.prems" q by (simp add: get_mlq_loop.simps [of i])
      then have "alone\<^sup>*\<^sup>* (GSlot i, s) (GRet p, s')" using 4 q by - (rule alone_step [of "GSlot i"], auto simp: get_step.simps)
      then show ?thesis using 4 True q by - (rule alone_step [of "GTest i"], auto simp: get_step.simps)
    qed
  qed
qed

lemma alone_get:
  assumes "length (mlq s) = MAX_PRIO" "get_proc s = Inr (p, s')"
  shows "alone\<^sup>*\<^sup>* (GEmpty 0, s) (GRet p, s')"
proof -
  have scan: "alone\<^sup>*\<^sup>* (GEmpty 0, s) (if queue_empty s then GRet None else GTest 0, s)"
    using alone_scan [OF assms(1), of 0] by simp
  show ?thesis
  proof (cases "queue_empty s")
    case True
    then show ?thesis using scan assms(2) by (simp add: get_proc_def get_mlq_proc_def)
  next
    case False
    then have "alone\<^sup>*\<^sup>* (GTest 0, s) (GRet p, s')"
      using alone_loop [OF assms(1), of 0] assms(2) by (simp add: get_proc_def get_mlq_proc_def)
    then show ?thesis using scan False by (simp add: rtranclp_trans)
  qed
qed

section \<open>Several threads\<close>

text \<open>
  The shared scheduler, the calls of the threads, and, as a record of what happened, the
  processes that were put and those that calls have returned.
\<close>

record par =
  par_sched :: sched
  par_pcs :: "get_pc list"
  par_put :: "pcb_t multiset"
  par_got :: "pcb_t multiset"

inductive par_step :: "par \<Rightarrow> par \<Rightarrow> bool" where
  Call: "k < length (par_pcs s) \<Longrightarrow> par_pcs s ! k = GOut \<Longrightarrow> par_step s (s\<lparr>par_pcs := (par_pcs s)[k := GEmpty 0]\<rparr>)"
| Go: "k < length (par_pcs s) \<Longrightarrow> in_call (par_pcs s ! k) \<Longrightarrow>
    get_step (par_pcs s ! k) (par_sched s) = Inr (c, q) \<Longrightarrow>
    par_step s (s\<lparr>par_sched := q, par_pcs := (par_pcs s)[k := c]\<rparr>)"
| Return: "k < length (par_pcs s) \<Longrightarrow> par_pcs s ! k = GRet p \<Longrightarrow>
    par_step s (s\<lparr>par_pcs := (par_pcs s)[k := GOut], par_got := par_got s + opt_mset p\<rparr>)"
| Put: "put_proc (par_sched s) p = Inr q \<Longrightarrow>
    par_step s (s\<lparr>par_sched := q, par_put := add_mset p (par_put s)\<rparr>)"

text \<open>\<open>init_scheduler\<close> has run and \<open>n\<close> threads are about to start.\<close>

definition par_init :: "nat \<Rightarrow> par" where
  "par_init n = \<lparr>par_sched = init_scheduler static_sched, par_pcs = replicate n GOut, par_put = {#}, par_got = {#}\<rparr>"

section \<open>What holds in every interleaving\<close>

text \<open>
  The queues stay well formed; their budgets need not, see below. A process a call has
  removed and not yet returned is in transit.
\<close>

definition queues_ok :: "sched \<Rightarrow> bool" where
  "queues_ok s \<longleftrightarrow> length (mlq s) = MAX_PRIO \<and> (\<forall>i < MAX_PRIO. queue_ok (mlq s ! i))"

fun transit :: "get_pc \<Rightarrow> pcb_t multiset" where
  "transit (GRet p) = opt_mset p"
| "transit c = {#}"

definition in_transit :: "get_pc list \<Rightarrow> pcb_t multiset" where
  "in_transit cs = sum_list (map transit cs)"

lemma in_transit_upd:
  "k < length cs \<Longrightarrow> in_transit (cs[k := c]) + transit (cs ! k) = in_transit cs + transit c"
  unfolding in_transit_def by (rule sum_list_upd)

lemma not_in_call: "in_call c \<Longrightarrow> transit c = {#}"
  by (cases c) simp_all

text \<open>Writing back one queue.\<close>

lemma queues_upd:
  assumes "queues_ok s" "i < MAX_PRIO" "queue_ok q'"
  shows "queues_ok (s\<lparr>mlq := (mlq s)[i := q']\<rparr>)"
    "queued (s\<lparr>mlq := (mlq s)[i := q']\<rparr>) + mset (qlist (mlq s ! i)) = queued s + mset (qlist q')"
proof -
  have "lv (s\<lparr>mlq := (mlq s)[i := q']\<rparr>) = (lv s)(i := qlist q')"
    using assms by (auto simp: queues_ok_def lv_def fun_eq_iff nth_list_update)
  then show "queued (s\<lparr>mlq := (mlq s)[i := q']\<rparr>) + mset (qlist (mlq s ! i)) = queued s + mset (qlist q')"
    using level_mset_upd [OF assms(2), of "lv s" "qlist q'"] assms(2) by (simp add: queued_def lv_def)
  show "queues_ok (s\<lparr>mlq := (mlq s)[i := q']\<rparr>)" using assms by (simp add: queues_ok_def nth_list_update)
qed

lemma queues_reset:
  assumes "queues_ok s"
  shows "queues_ok (resetSlot s)" "queued (resetSlot s) = queued s"
proof -
  show "queues_ok (resetSlot s)" using assms by (simp add: queues_ok_def)
  have "lv (resetSlot s) = lv s" using assms by (auto simp: queues_ok_def lv_def fun_eq_iff)
  then show "queued (resetSlot s) = queued s" by (simp add: queued_def)
qed

lemma get_step_take:
  assumes "queues_ok s" "get_step (GTake i) s = Inr (c, s')"
  shows "queues_ok s' \<and> queued s = queued s' + transit c"
proof -
  let ?q = "mlq s ! i"
  have i: "i < MAX_PRIO" using assms by (auto simp: get_step.simps arr_get_def queues_ok_def res_simps split: if_splits)
  then have ok: "queue_ok ?q" and len: "length (mlq s) = MAX_PRIO" using assms(1) by (simp_all add: queues_ok_def)
  obtain p q' where d: "dequeue ?q = Inr (p, q')" "c = GRet p" "s' = s\<lparr>mlq := (mlq s)[i := q'\<lparr>q_slot := u32_dec (q_slot q')\<rparr>]\<rparr>"
    using assms(2) i len by (auto simp: get_step.simps res_simps)
  have q': "queue_ok q' \<and> mset (qlist ?q) = mset (qlist q') + opt_mset p"
  proof (cases "qlist ?q")
    case Nil
    then show ?thesis using dequeue_Nil [OF ok Nil] d(1) ok by (simp add: opt_mset_def)
  next
    case (Cons x xs)
    then show ?thesis using dequeue_Cons [OF ok Cons] d(1) by (auto simp: opt_mset_def)
  qed
  then show ?thesis
    using queues_upd [OF assms(1) i, of "q'\<lparr>q_slot := u32_dec (q_slot q')\<rparr>"] d(2,3) by (simp add: ac_simps)
qed

lemma get_step_keeps:
  assumes "queues_ok s" "in_call c" "get_step c s = Inr (c', s')"
  shows "queues_ok s' \<and> queued s = queued s' + transit c'"
proof (cases c)
  case (GTake i)
  then show ?thesis using get_step_take assms by simp
qed (use assms queues_reset [OF assms(1)] in
    \<open>auto simp: get_step.simps res_simps opt_mset_def split: if_splits\<close>)

lemma put_proc_queues:
  assumes "queues_ok s" "put_proc s p = Inr s'"
  shows "queues_ok s' \<and> queued s' = add_mset p (queued s)"
proof -
  let ?i = "nat (prio p)"
  have len: "length (mlq s) = MAX_PRIO" using assms(1) by (simp add: queues_ok_def)
  then have i: "?i < MAX_PRIO" and e: "enqueue (mlq s ! ?i) p \<noteq> Inl OutOfBounds"
    using assms(2) by (auto simp: put_proc_def put_mlq_proc_def arr_get_def res_simps split: if_splits)
  then have ok: "queue_ok (mlq s ! ?i)" using assms(1) by (simp add: queues_ok_def)
  then obtain q' where q': "enqueue (mlq s ! ?i) p = Inr q'" "queue_ok q'" "qlist q' = qlist (mlq s ! ?i) @ [p]"
    using enqueue_room [OF ok, of p] enqueue_full [OF ok, of p] e q.elems_cap [OF ok] by (force simp: order_le_less)
  then have "s' = s\<lparr>mlq := (mlq s)[?i := q']\<rparr>" using assms(2) i len by (simp add: put_proc_def put_mlq_proc_def)
  then show ?thesis using queues_upd [OF assms(1) i q'(2)] q'(3) by simp
qed

definition par_inv :: "par \<Rightarrow> bool" where
  "par_inv s \<longleftrightarrow> queues_ok (par_sched s) \<and>
     queued (par_sched s) + in_transit (par_pcs s) + par_got s = par_put s"

lemma par_inv_step:
  assumes "par_step s s'" "par_inv s"
  shows "par_inv s'"
  using assms(1)
proof (cases rule: par_step.cases)
  case (Call k)
  then show ?thesis using in_transit_upd [OF Call(2), of "GEmpty 0"] assms(2) by (simp add: par_inv_def)
next
  case (Go k c q)
  have "queues_ok q \<and> queued (par_sched s) = queued q + transit c"
    using get_step_keeps [OF _ Go(3,4)] assms(2) by (simp add: par_inv_def)
  then show ?thesis
    using in_transit_upd [OF Go(2), of c] not_in_call [OF Go(3)] Go(1) assms(2)
    by (simp add: par_inv_def ac_simps)
next
  case (Return k p)
  then show ?thesis
    using in_transit_upd [OF Return(2), of GOut] assms(2) by (auto simp: par_inv_def ac_simps)
next
  case (Put p q)
  then show ?thesis using put_proc_queues [OF _ Put(2)] assms(2) by (simp add: par_inv_def)
qed

lemma par_inv_init: "par_inv (par_init n)"
proof -
  have "in_transit (replicate n GOut) = {#}" by (induction n) (simp_all add: in_transit_def)
  moreover have "queued (init_scheduler static_sched) = {#}" by (simp add: queued_def level_mset_empty)
  ultimately show ?thesis
    using init_sched_ok by (simp add: par_inv_def par_init_def queues_ok_def sched_ok_def)
qed

lemma par_inv_reachable: "par_step\<^sup>*\<^sup>* (par_init n) s \<Longrightarrow> par_inv s"
  by (induction rule: rtranclp_induct) (auto intro: par_inv_init par_inv_step)

section \<open>The window between the test and the removal\<close>

lemma alone_par:
  assumes "alone\<^sup>*\<^sup>* (c, q) (c', q')" "k < length (par_pcs s)" "par_pcs s ! k = c" "par_sched s = q"
  shows "par_step\<^sup>*\<^sup>* s (s\<lparr>par_sched := q', par_pcs := (par_pcs s)[k := c']\<rparr>)"
  using assms(1)
proof (induction rule: rtranclp_induct2)
  case refl
  have "s\<lparr>par_sched := q, par_pcs := (par_pcs s)[k := c]\<rparr> = s" using assms(2-4) by (simp add: list_update_same_conv)
  then show ?case by simp
next
  case (step c1 q1 c2 q2)
  let ?s1 = "s\<lparr>par_sched := q1, par_pcs := (par_pcs s)[k := c1]\<rparr>"
  have "in_call c1" "get_step c1 q1 = Inr (c2, q2)" using step(2) by auto
  then have "par_step ?s1 (?s1\<lparr>par_sched := q2, par_pcs := (par_pcs ?s1)[k := c2]\<rparr>)"
    using assms(2) by (intro par_step.Go) simp_all
  then show ?case using step.IH by (simp add: rtranclp.rtrancl_into_rtrancl)
qed

lemma alone_reach_take:
  assumes "length (mlq s) = MAX_PRIO" "i \<le> k" "k < MAX_PRIO" "\<forall>j < k. empty (Some (mlq s ! j))"
    "\<not> empty (Some (mlq s ! k))" "0 < q_slot (mlq s ! k)"
  shows "alone\<^sup>*\<^sup>* (GTest i, s) (GTake k, s)"
  using assms(2)
proof (induction "k - i" arbitrary: i)
  case 0
  then have [simp]: "i = k" by simp
  have "alone (GTest k, s) (GSlot k, s)" "alone (GSlot k, s) (GTake k, s)"
    using assms by (auto intro!: alone.intros simp: get_step.simps)
  then show ?case by (auto intro: converse_rtranclp_into_rtranclp)
next
  case (Suc n)
  have "alone (GTest i, s) (GTest (Suc i), s)"
    using assms Suc.hyps(2) by (auto intro!: alone.intros simp: get_step.simps)
  moreover have "alone\<^sup>*\<^sup>* (GTest (Suc i), s) (GTake k, s)" using Suc.hyps by (intro Suc.hyps(1)) auto
  ultimately show ?case by (rule converse_rtranclp_into_rtranclp)
qed

lemma alone_to_take:
  assumes "length (mlq s) = MAX_PRIO" "k < MAX_PRIO" "\<forall>j < k. empty (Some (mlq s ! j))"
    "\<not> empty (Some (mlq s ! k))" "0 < q_slot (mlq s ! k)"
  shows "alone\<^sup>*\<^sup>* (GEmpty 0, s) (GTake k, s)"
proof -
  have "\<not> queue_empty s" using assms by (auto simp: queue_empty_def list_ex_length)
  then have "alone\<^sup>*\<^sup>* (GEmpty 0, s) (GTest 0, s)" using alone_scan [OF assms(1), of 0] by simp
  then show ?thesis using alone_reach_take [OF assms(1) _ assms(2-5), of 0] by (simp add: rtranclp_trans)
qed

text \<open>A thread that has started its call and reached the removal; then its removal and return.\<close>

lemma par_to_take:
  assumes "k < length (par_pcs s)" "par_pcs s ! k = GOut" "alone\<^sup>*\<^sup>* (GEmpty 0, par_sched s) (GTake i, par_sched s)"
  shows "par_step\<^sup>*\<^sup>* s (s\<lparr>par_pcs := (par_pcs s)[k := GTake i]\<rparr>)"
proof -
  let ?s = "s\<lparr>par_pcs := (par_pcs s)[k := GEmpty 0]\<rparr>"
  have "par_step s ?s" using assms(1,2) by (rule par_step.Call)
  moreover have "par_step\<^sup>*\<^sup>* ?s (s\<lparr>par_pcs := (par_pcs s)[k := GTake i]\<rparr>)"
    using alone_par [OF assms(3), of k ?s] assms(1) by simp
  ultimately show ?thesis by (rule converse_rtranclp_into_rtranclp)
qed

lemma par_take_return:
  assumes k: "k < length (par_pcs s)" "par_pcs s ! k = GTake i"
    and i: "i < length (mlq (par_sched s))" and d: "dequeue (mlq (par_sched s) ! i) = Inr (p, q')"
  shows "par_step\<^sup>*\<^sup>* s (s\<lparr>par_sched := (par_sched s)\<lparr>mlq := (mlq (par_sched s))[i := q'\<lparr>q_slot := u32_dec (q_slot q')\<rparr>]\<rparr>,
    par_pcs := (par_pcs s)[k := GOut], par_got := par_got s + opt_mset p\<rparr>)"
proof -
  let ?q = "(par_sched s)\<lparr>mlq := (mlq (par_sched s))[i := q'\<lparr>q_slot := u32_dec (q_slot q')\<rparr>]\<rparr>"
  let ?s = "s\<lparr>par_sched := ?q, par_pcs := (par_pcs s)[k := GRet p]\<rparr>"
  have "par_step s ?s" using k i d by (intro par_step.Go) (simp_all add: get_step.simps)
  moreover have "par_step ?s (?s\<lparr>par_pcs := (par_pcs ?s)[k := GOut], par_got := par_got ?s + opt_mset p\<rparr>)"
    using k by (intro par_step.Return) simp_all
  ultimately show ?thesis by (simp add: rtranclp.rtrancl_into_rtrancl)
qed

lemma underflow_reachable:
  assumes ok: "sched_ok (par_sched s)" and k: "k < MAX_PRIO" "\<forall>j < k. lv (par_sched s) j = []"
    "lv (par_sched s) k = [p]" "bud (par_sched s) k = 1" and pcs: "par_pcs s = [GOut, GOut]"
  shows "\<exists>s'. par_step\<^sup>*\<^sup>* s s' \<and> par_pcs s' = [GOut, GOut] \<and> par_got s' = add_mset p (par_got s) \<and>
    q_slot (mlq (par_sched s') ! k) = 2 ^ 32 - 1"
proof -
  let ?q = "mlq (par_sched s) ! k"
  have len: "length (mlq (par_sched s)) = MAX_PRIO" and qok: "queue_ok ?q" using ok k(1) by (simp_all add: sched_ok_def)
  have q: "qlist ?q = [p]" "q_slot ?q = 1" using k by (simp_all add: lv_def bud_def)
  have e: "\<forall>j < k. empty (Some (mlq (par_sched s) ! j))" "\<not> empty (Some ?q)" using k ok by (auto simp: lv_Nil_iff)
  have run: "alone\<^sup>*\<^sup>* (GEmpty 0, par_sched s) (GTake k, par_sched s)" using alone_to_take [OF len k(1) e] q(2) by simp
  let ?s1 = "s\<lparr>par_pcs := [GTake k, GOut]\<rparr>" and ?s2 = "s\<lparr>par_pcs := [GTake k, GTake k]\<rparr>"
  have 1: "par_step\<^sup>*\<^sup>* s ?s1" using par_to_take [of 0 s k] pcs run by simp
  have 2: "par_step\<^sup>*\<^sup>* ?s1 ?s2" using par_to_take [of 1 ?s1 k] run by simp
  obtain q' where q': "dequeue ?q = Inr (Some p, q')" "queue_ok q'" "qlist q' = []" "q_slot q' = 1"
    using dequeue_Cons [OF qok q(1)] q(2) by auto
  let ?sc = "(par_sched s)\<lparr>mlq := (mlq (par_sched s))[k := q'\<lparr>q_slot := 0\<rparr>]\<rparr>"
  let ?s3 = "s\<lparr>par_sched := ?sc, par_pcs := [GOut, GTake k], par_got := add_mset p (par_got s)\<rparr>"
  have 3: "par_step\<^sup>*\<^sup>* ?s2 ?s3" using par_take_return [of 0 ?s2 k "Some p" q'] q' k(1) len by (simp add: u32_dec_def opt_mset_def)
  have "dequeue (q'\<lparr>q_slot := 0\<rparr>) = Inr (None, q'\<lparr>q_slot := 0\<rparr>)" using dequeue_Nil [of "q'\<lparr>q_slot := 0\<rparr>"] q'(2,3) by (simp add: queue_ok_def)
  then have 4: "par_step\<^sup>*\<^sup>* ?s3 (s\<lparr>par_sched := ?sc\<lparr>mlq := (mlq ?sc)[k := q'\<lparr>q_slot := 2 ^ 32 - 1\<rparr>]\<rparr>,
      par_pcs := [GOut, GOut], par_got := add_mset p (par_got s)\<rparr>)"
    using par_take_return [of 1 ?s3 k None "q'\<lparr>q_slot := 0\<rparr>"] k(1) len by (simp add: u32_dec_def opt_mset_def)
  have "par_step\<^sup>*\<^sup>* s (s\<lparr>par_sched := ?sc\<lparr>mlq := (mlq ?sc)[k := q'\<lparr>q_slot := 2 ^ 32 - 1\<rparr>]\<rparr>,
      par_pcs := [GOut, GOut], par_got := add_mset p (par_got s)\<rparr>)"
    using 1 2 3 4 by (meson rtranclp_trans)
  then show ?thesis using k(1) len by (intro exI conjI) (assumption | simp)+
qed

lemma get_steps_equivalent:
  assumes "sched_ok s"
  shows "alone\<^sup>*\<^sup>* (GEmpty 0, s) (GRet p, s') \<longleftrightarrow> get_proc s = Inr (p, s')"
proof
  obtain p0 s0 where g: "get_proc s = Inr (p0, s0)" using pool.get_total [OF assms] by blast
  assume "alone\<^sup>*\<^sup>* (GEmpty 0, s) (GRet p, s')"
  then show "get_proc s = Inr (p, s')"
    using alone_confluent [OF _ alone_get [OF sched_ok_length [OF assms] g]] g by blast
next
  assume "get_proc s = Inr (p, s')"
  then show "alone\<^sup>*\<^sup>* (GEmpty 0, s) (GRet p, s')" by (rule alone_get [OF sched_ok_length [OF assms]])
qed

section \<open>Properties\<close>

text \<open>
  C16: a call that no other thread interrupts follows the policy of the scheduler: from every
  well-formed state its steps reach a return, and whatever return they reach, the state is
  well formed and the process returned, the queues and the budgets are those of the abstract
  policy.
\<close>

theorem get_steps_follow_policy:
  assumes "sched_ok s"
  shows "(\<exists>p s'. alone\<^sup>*\<^sup>* (GEmpty 0, s) (GRet p, s')) \<and>
    (\<forall>p s'. alone\<^sup>*\<^sup>* (GEmpty 0, s) (GRet p, s') \<longrightarrow> sched_ok s' \<and> (p, lv s', bud s') = mlq_policy (lv s) (bud s))"
  using pool.get_total [OF assms] get_proc_policy [OF assms] get_steps_equivalent [OF assms] by blast

theorem get_steps_follow_policy_witness:
  "\<exists>s s'. put_proc (init_scheduler static_sched) (sample_pcb 1 0) = Inr s \<and>
    alone\<^sup>*\<^sup>* (GEmpty 0, s) (GRet (Some (sample_pcb 1 0)), s') \<and> bud s' 0 = 139"
proof -
  obtain s where s: "put_proc (init_scheduler static_sched) (sample_pcb 1 0) = Inr s" "sched_ok s"
      "lv s = (\<lambda>_. [])(0 := [sample_pcb 1 0])" "bud s = full_budget"
    using init_put [of "sample_pcb 1 0"] by (auto simp: MAX_PRIO_def)
  obtain p s' where r: "alone\<^sup>*\<^sup>* (GEmpty 0, s) (GRet p, s')" "(p, lv s', bud s') = mlq_policy (lv s) (bud s)"
    using get_steps_follow_policy [OF s(2)] by blast
  have "p = Some (sample_pcb 1 0)" "bud s' 0 = 139"
    using r(2) s(3,4) by (cases rule: mlq_policy_cases; fastforce simp: full_budget_def MAX_PRIO_def)+
  then show ?thesis using s(1) r(1) by blast
qed

text \<open>
  C15: however the calls of any number of threads interleave, inside \<open>get_mlq_proc\<close> too, the
  scheduler delivers every process at most once and loses none: the processes put are
  those queued, those in the hands of a returning call, and those returned.
\<close>

theorem races_lose_nothing:
  assumes "par_step\<^sup>*\<^sup>* (par_init n) s"
  shows "queued (par_sched s) + in_transit (par_pcs s) + par_got s = par_put s \<and> queues_ok (par_sched s)"
  using par_inv_reachable [OF assms] by (simp add: par_inv_def)

text \<open>Two threads, one process of the least urgent priority.\<close>

lemma sample_race:
  obtains s where "par_step (par_init 2) s" "sched_ok (par_sched s)" "lv (par_sched s) = (\<lambda>_. [])(139 := [sample_pcb 1 139])"
    "bud (par_sched s) = full_budget" "par_pcs s = [GOut, GOut]" "par_got s = {#}"
proof -
  obtain q where q: "put_proc (init_scheduler static_sched) (sample_pcb 1 139) = Inr q" "sched_ok q"
    "lv q = (\<lambda>_. [])(139 := [sample_pcb 1 139])" "bud q = full_budget"
    using init_put [of "sample_pcb 1 139"] by (auto simp: MAX_PRIO_def)
  have "par_step (par_init 2) ((par_init 2)\<lparr>par_sched := q, par_put := add_mset (sample_pcb 1 139) (par_put (par_init 2))\<rparr>)"
    using q(1) by (intro par_step.Put) (simp add: par_init_def)
  then show thesis using that q by (simp add: par_init_def numeral_2_eq_2)
qed

theorem races_lose_nothing_witness:
  "\<exists>s. par_step\<^sup>*\<^sup>* (par_init 2) s \<and> par_put s = queued (par_sched s) + in_transit (par_pcs s) + par_got s \<and> queued (par_sched s) \<noteq> {#}"
proof -
  obtain s where s: "par_step (par_init 2) s" "lv (par_sched s) = (\<lambda>_. [])(139 := [sample_pcb 1 139])"
    by (rule sample_race)
  have "par_step\<^sup>*\<^sup>* (par_init 2) s" using s(1) by (rule r_into_rtranclp)
  moreover have "queued (par_sched s) \<noteq> {#}" using s(2) by (simp add: queued_def level_mset_empty MAX_PRIO_def)
  ultimately show ?thesis using races_lose_nothing [of 2 s] by auto
qed

text \<open>
  C34: the budget of a queue is read outside the lock: with one process at a priority whose
  budget is down to one, two threads can both pass the test; the second removal finds the
  queue empty, returns nothing, and its decrement turns the budget from 0 into
  \<open>2 ^ 32 - 1\<close> dispatches.
\<close>

theorem budget_underflow:
  assumes "sched_ok (par_sched s)" and "k < MAX_PRIO" and "\<forall>j < k. lv (par_sched s) j = []"
    and "lv (par_sched s) k = [p]" and "bud (par_sched s) k = 1" and "par_pcs s = [GOut, GOut]"
  shows "\<exists>s'. par_step\<^sup>*\<^sup>* s s' \<and> par_pcs s' = [GOut, GOut] \<and> par_got s' = add_mset p (par_got s) \<and>
    q_slot (mlq (par_sched s') ! k) = 2 ^ 32 - 1"
  by (rule underflow_reachable [OF assms])

theorem budget_underflow_witness:
  "\<exists>s. par_step\<^sup>*\<^sup>* (par_init 2) s \<and> q_slot (mlq (par_sched s) ! 139) = 4294967295"
proof -
  obtain s where s: "par_step (par_init 2) s" "sched_ok (par_sched s)" "lv (par_sched s) = (\<lambda>_. [])(139 := [sample_pcb 1 139])"
    "bud (par_sched s) = full_budget" "par_pcs s = [GOut, GOut]"
    by (rule sample_race)
  obtain s' where "par_step\<^sup>*\<^sup>* s s'" "q_slot (mlq (par_sched s') ! 139) = 4294967295"
    using budget_underflow [OF s(2), of 139 "sample_pcb 1 139"] s(3-5) by (auto simp: MAX_PRIO_def full_budget_def)
  then show ?thesis using s(1) by (meson converse_rtranclp_into_rtranclp)
qed

end
