(* ===== verification/OS_FrameRace.thy ===== *)
theory OS_FrameRace
  imports OS_MM
begin

text \<open>
  Frames handed out while several threads ask for them. \<open>alloc_pages_range\<close> takes
  \<open>lock_mem\<close> twice for each page, in \<open>MEMPHY_get_freefp\<close> and in
  \<open>MEMPHY_put_usedfp\<close>, so that the calls of different CPUs interleave between these critical
  sections; RAM and swap are shared by all of them. The page fault takes a frame of the swap
  device with \<open>MEMPHY_get_freefp\<close>, too.
\<close>

section \<open>One call as steps\<close>

text \<open>
  Where a call is: in front of the request for a RAM frame; in front of entering the frame it
  got into the used list of RAM; the same two for swap; returning. Its locals are the loop
  counter, the number of pages asked for, and the two lists of frames it has so far.
\<close>

datatype alloc_pc =
    AGet
  | AUsed int
  | AGetSwp
  | AUsedSwp int
  | ARet int

record alloc_call =
  a_pc :: alloc_pc
  a_it :: int
  a_req :: int
  a_frm :: "int clist"
  a_swp :: "int clist"

definition call_alloc :: "int \<Rightarrow> alloc_call" where
  "call_alloc n = \<lparr>a_pc = AGet, a_it = 0, a_req = n, a_frm = CNull, a_swp = CNull\<rparr>"

fun alloc_step ::
  "alloc_call \<Rightarrow> memphy_struct \<Rightarrow> memphy_struct \<Rightarrow> (alloc_call \<times> memphy_struct \<times> memphy_struct) res" where
  "alloc_step a ram sw =
     (case a_pc a of
        AGet \<Rightarrow>
          if a_it a < a_req a then
            rbind (MEMPHY_get_freefp ram) (\<lambda>(r, f, ram).
              if r = 0 then
                (case f of None \<Rightarrow> Inl UninitRead
                 | Some fpn \<Rightarrow> Inr (a\<lparr>a_pc := AUsed fpn, a_frm := CNode fpn (a_frm a)\<rparr>, ram, sw))
              else Inr (a\<lparr>a_pc := AGetSwp\<rparr>, ram, sw))
          else Inr (a\<lparr>a_pc := ARet 0\<rparr>, ram, sw)
      | AUsed fpn \<Rightarrow> Inr (a\<lparr>a_pc := AGet, a_it := a_it a + 1\<rparr>, snd (MEMPHY_put_usedfp ram fpn), sw)
      | AGetSwp \<Rightarrow>
          rbind (MEMPHY_get_freefp sw) (\<lambda>(r, f, sw).
            if r = 0 then
              (case f of None \<Rightarrow> Inl UninitRead
               | Some fpn \<Rightarrow> Inr (a\<lparr>a_pc := AUsedSwp fpn, a_swp := CNode fpn (a_swp a)\<rparr>, ram, sw))
            else Inr (a\<lparr>a_pc := ARet (-3000)\<rparr>, ram, sw))
      | AUsedSwp fpn \<Rightarrow> Inr (a\<lparr>a_pc := AGet, a_it := a_it a + 1\<rparr>, ram, snd (MEMPHY_put_usedfp sw fpn))
      | ARet r \<Rightarrow> Inr (a, ram, sw))"

declare alloc_step.simps [simp del]

fun alloc_runs :: "alloc_pc \<Rightarrow> bool" where
  "alloc_runs (ARet r) = False"
| "alloc_runs p = True"

text \<open>A call that no other thread interrupts.\<close>

inductive alloc_alone ::
  "alloc_call \<times> memphy_struct \<times> memphy_struct \<Rightarrow> alloc_call \<times> memphy_struct \<times> memphy_struct \<Rightarrow> bool" where
  "alloc_runs (a_pc a) \<Longrightarrow> alloc_step a ram sw = Inr x \<Longrightarrow> alloc_alone (a, ram, sw) x"

inductive_cases alloc_aloneE [elim!]: "alloc_alone (a, ram, sw) x"

section \<open>The steps compute the function\<close>

text \<open>What is left of \<open>alloc_pages_range\<close> for a call in progress.\<close>

definition get_swap ::
  "int \<Rightarrow> int \<Rightarrow> vmctx \<Rightarrow> int clist \<Rightarrow> int clist \<Rightarrow> (int \<times> int clist \<times> int clist \<times> vmctx) res" where
  "get_swap it n c frm swp =
     rbind (MEMPHY_get_freefp (c_mswp c)) (\<lambda>(r, f, m).
       if r = 0 then
         (case f of None \<Rightarrow> Inl UninitRead
          | Some fpn \<Rightarrow> alloc_pages_loop (it + 1) n (c\<lparr>c_mswp := snd (MEMPHY_put_usedfp m fpn)\<rparr>) frm (CNode fpn swp))
       else Inr (-3000, frm, swp, c))"

fun rest_of ::
  "mm_struct \<Rightarrow> alloc_call \<times> memphy_struct \<times> memphy_struct \<Rightarrow> (int \<times> int clist \<times> int clist \<times> vmctx) res" where
  "rest_of mm (a, ram, sw) =
     (let c = \<lparr>c_mm = mm, c_mram = ram, c_mswp = sw\<rparr>
      in case a_pc a of
           AGet \<Rightarrow> alloc_pages_loop (a_it a) (a_req a) c (a_frm a) (a_swp a)
         | AUsed f \<Rightarrow> alloc_pages_loop (a_it a + 1) (a_req a) (c\<lparr>c_mram := snd (MEMPHY_put_usedfp ram f)\<rparr>) (a_frm a) (a_swp a)
         | AGetSwp \<Rightarrow> get_swap (a_it a) (a_req a) c (a_frm a) (a_swp a)
         | AUsedSwp f \<Rightarrow> alloc_pages_loop (a_it a + 1) (a_req a) (c\<lparr>c_mswp := snd (MEMPHY_put_usedfp sw f)\<rparr>) (a_frm a) (a_swp a)
         | ARet r \<Rightarrow> Inr (r, a_frm a, a_swp a, c))"

text \<open>A request that RAM refuses leaves RAM as it is.\<close>

lemma get_freefp_cases:
  obtains "MEMPHY_get_freefp m = Inl WildDeref"
  | "free_fp_list m = CNull" "MEMPHY_get_freefp m = Inr (-1, None, m)"
  | f l where "free_fp_list m = CNode f l" "MEMPHY_get_freefp m = Inr (0, Some f, m\<lparr>free_fp_list := l\<rparr>)"
  by (cases "free_fp_list m") (simp_all add: MEMPHY_get_freefp_def)

lemma rest_of_step:
  assumes "alloc_runs (a_pc a)"
  shows "rest_of mm (a, ram, sw) = rbind (alloc_step a ram sw) (rest_of mm)"
proof (cases "a_pc a")
  case AGet
  show ?thesis
    using AGet by (rule_tac m = ram in get_freefp_cases)
      (simp_all add: alloc_step.simps alloc_pages_loop.simps [of "a_it a"] get_swap_def Let_def)
next
  case AGetSwp
  show ?thesis
    using AGetSwp by (rule_tac m = sw in get_freefp_cases) (simp_all add: alloc_step.simps get_swap_def Let_def)
qed (use assms in \<open>simp_all add: alloc_step.simps Let_def MEMPHY_put_usedfp_def\<close>)

lemma rest_of_alone: "alloc_alone\<^sup>*\<^sup>* x y \<Longrightarrow> rest_of mm x = rest_of mm y"
proof (induction rule: rtranclp_induct)
  case (step y z)
  then obtain a ram sw where "y = (a, ram, sw)" "alloc_runs (a_pc a)" "alloc_step a ram sw = Inr z"
    by (auto elim!: alloc_alone.cases)
  then show ?case using step.IH rest_of_step by simp
qed simp

lemma alloc_alone_step:
  "alloc_runs (a_pc a) \<Longrightarrow> alloc_step a ram sw = Inr x \<Longrightarrow> alloc_alone\<^sup>*\<^sup>* x y \<Longrightarrow> alloc_alone\<^sup>*\<^sup>* (a, ram, sw) y"
  by (auto intro: alloc_alone.intros converse_rtranclp_into_rtranclp)

text \<open>The call in progress with counter \<open>it\<close> and the lists \<open>frm\<close> and \<open>swp\<close>.\<close>

abbreviation call_at :: "alloc_pc \<Rightarrow> int \<Rightarrow> int \<Rightarrow> int clist \<Rightarrow> int clist \<Rightarrow> alloc_call" where
  "call_at p it n frm swp \<equiv> \<lparr>a_pc = p, a_it = it, a_req = n, a_frm = frm, a_swp = swp\<rparr>"

lemma alloc_alone_loop:
  "alloc_pages_loop it n c frm swp = Inr (r, frm', swp', c') \<Longrightarrow>
     \<exists>it'. alloc_alone\<^sup>*\<^sup>* (call_at AGet it n frm swp, c_mram c, c_mswp c)
       (call_at (ARet r) it' n frm' swp', c_mram c', c_mswp c')"
proof (induction it n c frm swp rule: alloc_pages_loop.induct)
  case (1 it n c frm swp)
  show ?case
  proof (cases "it < n")
    case False
    then show ?thesis
      using "1.prems" by (intro exI alloc_alone_step [OF _ _ rtranclp.rtrancl_refl])
        (auto simp: alloc_step.simps alloc_pages_loop.simps [of it])
  next
    case it: True
    show ?thesis
    proof (rule get_freefp_cases [of "c_mram c"])
      assume "MEMPHY_get_freefp (c_mram c) = Inl WildDeref"
      then show ?thesis using "1.prems" it by (simp add: alloc_pages_loop.simps [of it])
    next
      fix f l
      assume f: "MEMPHY_get_freefp (c_mram c) = Inr (0, Some f, (c_mram c)\<lparr>free_fp_list := l\<rparr>)"
      let ?m = "(c_mram c)\<lparr>free_fp_list := l\<rparr>"
      let ?c = "c\<lparr>c_mram := snd (MEMPHY_put_usedfp ?m f)\<rparr>"
      obtain it' where "alloc_alone\<^sup>*\<^sup>* (call_at AGet (it + 1) n (CNode f frm) swp, c_mram ?c, c_mswp c)
          (call_at (ARet r) it' n frm' swp', c_mram c', c_mswp c')"
        using "1.IH"(1) [OF it f refl refl refl refl] "1.prems" it f by (auto simp: alloc_pages_loop.simps [of it])
      then have "alloc_alone\<^sup>*\<^sup>* (call_at (AUsed f) it n (CNode f frm) swp, ?m, c_mswp c)
          (call_at (ARet r) it' n frm' swp', c_mram c', c_mswp c')"
        by - (rule alloc_alone_step, auto simp: alloc_step.simps)
      then show ?thesis using it f by - (rule exI, rule alloc_alone_step, auto simp: alloc_step.simps)
    next
      assume N: "MEMPHY_get_freefp (c_mram c) = Inr (-1, None, c_mram c)"
      have "\<exists>it'. alloc_alone\<^sup>*\<^sup>* (call_at AGetSwp it n frm swp, c_mram c, c_mswp c)
          (call_at (ARet r) it' n frm' swp', c_mram c', c_mswp c')"
      proof (rule get_freefp_cases [of "c_mswp c"])
        assume "MEMPHY_get_freefp (c_mswp c) = Inl WildDeref"
        then show ?thesis using "1.prems" it N by (simp add: alloc_pages_loop.simps [of it])
      next
        assume "MEMPHY_get_freefp (c_mswp c) = Inr (-1, None, c_mswp c)"
        then show ?thesis
          using "1.prems" it N by (intro exI alloc_alone_step [OF _ _ rtranclp.rtrancl_refl])
            (auto simp: alloc_step.simps alloc_pages_loop.simps [of it])
      next
        fix f l
        assume f: "MEMPHY_get_freefp (c_mswp c) = Inr (0, Some f, (c_mswp c)\<lparr>free_fp_list := l\<rparr>)"
        let ?m = "(c_mswp c)\<lparr>free_fp_list := l\<rparr>"
        let ?c = "c\<lparr>c_mswp := snd (MEMPHY_put_usedfp ?m f)\<rparr>"
        obtain it' where "alloc_alone\<^sup>*\<^sup>* (call_at AGet (it + 1) n frm (CNode f swp), c_mram c, c_mswp ?c)
            (call_at (ARet r) it' n frm' swp', c_mram c', c_mswp c')"
          using "1.IH"(2) [OF it N refl refl _ f refl refl refl refl] "1.prems" it f N by (auto simp: alloc_pages_loop.simps [of it])
        then have "alloc_alone\<^sup>*\<^sup>* (call_at (AUsedSwp f) it n frm (CNode f swp), c_mram c, ?m)
            (call_at (ARet r) it' n frm' swp', c_mram c', c_mswp c')"
          by - (rule alloc_alone_step, auto simp: alloc_step.simps)
        then show ?thesis using it f by - (rule exI, rule alloc_alone_step, auto simp: alloc_step.simps)
      qed
      then show ?thesis using it N by - (erule exE, rule exI, rule alloc_alone_step, auto simp: alloc_step.simps)
    qed
  qed
qed

lemma alloc_steps_compute:
  "(\<exists>it. alloc_alone\<^sup>*\<^sup>* (call_alloc n, c_mram c, c_mswp c) (call_at (ARet r) it n frm swp, ram, sw)) \<longleftrightarrow>
     alloc_pages_range c n CNull CNull = Inr (r, frm, swp, c\<lparr>c_mram := ram, c_mswp := sw\<rparr>)"
proof
  assume "\<exists>it. alloc_alone\<^sup>*\<^sup>* (call_alloc n, c_mram c, c_mswp c) (call_at (ARet r) it n frm swp, ram, sw)"
  then show "alloc_pages_range c n CNull CNull = Inr (r, frm, swp, c\<lparr>c_mram := ram, c_mswp := sw\<rparr>)"
    by (cases c) (auto simp: call_alloc_def alloc_pages_range_def Let_def dest!: rest_of_alone [where mm = "c_mm c"])
next
  assume "alloc_pages_range c n CNull CNull = Inr (r, frm, swp, c\<lparr>c_mram := ram, c_mswp := sw\<rparr>)"
  then show "\<exists>it. alloc_alone\<^sup>*\<^sup>* (call_alloc n, c_mram c, c_mswp c) (call_at (ARet r) it n frm swp, ram, sw)"
    using alloc_alone_loop [of 0 n c CNull CNull] by (simp add: alloc_pages_range_def call_alloc_def)
qed

section \<open>Several threads\<close>

text \<open>
  A thread is outside or in a call; \<open>t_ram\<close> and \<open>t_swp\<close> record the frames its finished calls
  returned and \<open>t_flt\<close> the swap frames its page faults took. The devices are shared.
\<close>

record frame_thr =
  t_call :: "alloc_call option"
  t_ram :: "int list"
  t_swp :: "int list"
  t_flt :: "int list"

record frame_par =
  fp_ram :: memphy_struct
  fp_swp :: memphy_struct
  fp_thr :: "frame_thr list"

inductive frame_step :: "frame_par \<Rightarrow> frame_par \<Rightarrow> bool" where
  Begin: "k < length (fp_thr s) \<Longrightarrow> t_call (fp_thr s ! k) = None \<Longrightarrow>
    frame_step s (s\<lparr>fp_thr := (fp_thr s)[k := (fp_thr s ! k)\<lparr>t_call := Some (call_alloc n)\<rparr>]\<rparr>)"
| Advance: "k < length (fp_thr s) \<Longrightarrow> t_call (fp_thr s ! k) = Some a \<Longrightarrow> alloc_runs (a_pc a) \<Longrightarrow>
    alloc_step a (fp_ram s) (fp_swp s) = Inr (a', ram, sw) \<Longrightarrow>
    frame_step s (s\<lparr>fp_ram := ram, fp_swp := sw, fp_thr := (fp_thr s)[k := (fp_thr s ! k)\<lparr>t_call := Some a'\<rparr>]\<rparr>)"
| Finish: "k < length (fp_thr s) \<Longrightarrow> t_call (fp_thr s ! k) = Some a \<Longrightarrow> a_pc a = ARet r \<Longrightarrow>
    frame_step s (s\<lparr>fp_thr := (fp_thr s)[k := (fp_thr s ! k)\<lparr>t_call := None,
      t_ram := celems (a_frm a) @ t_ram (fp_thr s ! k), t_swp := celems (a_swp a) @ t_swp (fp_thr s ! k)\<rparr>]\<rparr>)"
| Fault: "k < length (fp_thr s) \<Longrightarrow> t_call (fp_thr s ! k) = None \<Longrightarrow>
    MEMPHY_get_freefp (fp_swp s) = Inr (0, Some f, sw) \<Longrightarrow>
    frame_step s (s\<lparr>fp_swp := sw, fp_thr := (fp_thr s)[k := (fp_thr s ! k)\<lparr>t_flt := f # t_flt (fp_thr s ! k)\<rparr>]\<rparr>)"

definition idle_thr :: frame_thr where
  "idle_thr = \<lparr>t_call = None, t_ram = [], t_swp = [], t_flt = []\<rparr>"

definition frame_init :: "memphy_struct \<Rightarrow> memphy_struct \<Rightarrow> nat \<Rightarrow> frame_par" where
  "frame_init ram sw n = \<lparr>fp_ram = ram, fp_swp = sw, fp_thr = replicate n idle_thr\<rparr>"

text \<open>
  The frames of each device a thread holds, and those it has taken and not yet entered into
  the used list of the device.
\<close>

definition ram_held :: "frame_thr \<Rightarrow> int multiset" where
  "ram_held t = mset (case t_call t of None \<Rightarrow> [] | Some a \<Rightarrow> celems (a_frm a)) + mset (t_ram t)"

definition swp_held :: "frame_thr \<Rightarrow> int multiset" where
  "swp_held t = mset (case t_call t of None \<Rightarrow> [] | Some a \<Rightarrow> celems (a_swp a)) + mset (t_swp t) + mset (t_flt t)"

definition ram_pending :: "frame_thr \<Rightarrow> int multiset" where
  "ram_pending t = (case t_call t of None \<Rightarrow> {#} | Some a \<Rightarrow> (case a_pc a of AUsed f \<Rightarrow> {#f#} | _ \<Rightarrow> {#}))"

definition swp_pending :: "frame_thr \<Rightarrow> int multiset" where
  "swp_pending t = mset (t_flt t) +
     (case t_call t of None \<Rightarrow> {#} | Some a \<Rightarrow> (case a_pc a of AUsedSwp f \<Rightarrow> {#f#} | _ \<Rightarrow> {#}))"

lemmas frame_counts = ram_held_def swp_held_def ram_pending_def swp_pending_def

definition over :: "(frame_thr \<Rightarrow> int multiset) \<Rightarrow> frame_par \<Rightarrow> int multiset" where
  "over g s = sum_list (map g (fp_thr s))"

text \<open>The share of one thread, and the rest, which the steps of that thread do not change.\<close>

lemma over_split:
  assumes "k < length (fp_thr s)"
  obtains R where "over g s = R + g (fp_thr s ! k)" "\<forall>t. over g (s\<lparr>fp_thr := (fp_thr s)[k := t]\<rparr>) = R + g t"
proof
  let ?R = "sum_list (map g (take k (fp_thr s))) + sum_list (map g (drop (Suc k) (fp_thr s)))"
  show "over g s = ?R + g (fp_thr s ! k)"
    unfolding over_def by (subst id_take_nth_drop [OF assms]) (simp add: ac_simps)
  show "\<forall>t. over g (s\<lparr>fp_thr := (fp_thr s)[k := t]\<rparr>) = ?R + g t"
    using assms by (simp add: over_def upd_conv_take_nth_drop ac_simps)
qed

lemma over_dev [simp]:
  "over g (s\<lparr>fp_ram := ram\<rparr>) = over g s" "over g (s\<lparr>fp_swp := sw\<rparr>) = over g s"
  by (simp_all add: over_def)

section \<open>What holds in every interleaving\<close>

text \<open>
  One device: the frames it had free are now free or held, those not yet recorded are
  missing from its used list, and its bytes are untouched.
\<close>

definition dev_inv :: "memphy_struct \<Rightarrow> memphy_struct \<Rightarrow> int multiset \<Rightarrow> int multiset \<Rightarrow> bool" where
  "dev_inv d0 d held pend \<longleftrightarrow>
     proper (free_fp_list d) \<and> same_bytes d0 d \<and>
     mset (free_of d) + held = mset (free_of d0) \<and>
     mset (used_of d) + pend = mset (used_of d0) + held"

definition frame_inv :: "frame_par \<Rightarrow> frame_par \<Rightarrow> bool" where
  "frame_inv s0 s \<longleftrightarrow>
     dev_inv (fp_ram s0) (fp_ram s) (over ram_held s) (over ram_pending s) \<and>
     dev_inv (fp_swp s0) (fp_swp s) (over swp_held s) (over swp_pending s)"

lemma dev_inv_get:
  assumes "dev_inv d0 d h p" "MEMPHY_get_freefp d = Inr (r, f, d')"
  shows "case f of None \<Rightarrow> r = -1 \<and> d' = d | Some f \<Rightarrow> r = 0 \<and> dev_inv d0 d' (add_mset f h) (add_mset f p)"
  using assms by (rule_tac m = d in get_freefp_cases) (auto simp: dev_inv_def same_bytes_def)

lemma dev_inv_used:
  assumes "dev_inv d0 d h (add_mset f p)"
  shows "dev_inv d0 (snd (MEMPHY_put_usedfp d f)) h p"
  using assms by (simp add: dev_inv_def same_bytes_def MEMPHY_put_usedfp_def)

text \<open>A step of a call changes the share of its thread only.\<close>

definition thr_inv ::
  "frame_par \<Rightarrow> memphy_struct \<Rightarrow> memphy_struct \<Rightarrow> int multiset \<times> int multiset \<Rightarrow> int multiset \<times> int multiset \<Rightarrow> frame_thr \<Rightarrow> bool" where
  "thr_inv s0 ram sw R S t \<longleftrightarrow>
     dev_inv (fp_ram s0) ram (fst R + ram_held t) (snd R + ram_pending t) \<and>
     dev_inv (fp_swp s0) sw (fst S + swp_held t) (snd S + swp_pending t)"

lemma thr_inv_advance:
  assumes "thr_inv s0 ram sw R S t" "t_call t = Some a" "alloc_runs (a_pc a)"
    "alloc_step a ram sw = Inr (a', ram', sw')"
  shows "thr_inv s0 ram' sw' R S (t\<lparr>t_call := Some a'\<rparr>)"
proof (cases "a_pc a")
  case AGet
  then show ?thesis
    using assms dev_inv_get [of "fp_ram s0" ram "fst R + ram_held t" "snd R + ram_pending t"]
    by (auto simp: thr_inv_def alloc_step.simps frame_counts res_simps split: if_splits option.splits
        dest: arg_cong [of _ _ a_pc])
next
  case AGetSwp
  then show ?thesis
    using assms dev_inv_get [of "fp_swp s0" sw "fst S + swp_held t" "snd S + swp_pending t"]
    by (auto simp: thr_inv_def alloc_step.simps frame_counts res_simps split: if_splits option.splits
        dest: arg_cong [of _ _ a_pc])
qed (use assms in \<open>auto simp: thr_inv_def alloc_step.simps frame_counts intro: dev_inv_used\<close>)

lemma frame_inv_split:
  assumes "k < length (fp_thr s)"
  obtains R S where "frame_inv s0 s \<longleftrightarrow> thr_inv s0 (fp_ram s) (fp_swp s) R S (fp_thr s ! k)"
    "\<forall>ram sw t. frame_inv s0 (s\<lparr>fp_ram := ram, fp_swp := sw, fp_thr := (fp_thr s)[k := t]\<rparr>) \<longleftrightarrow> thr_inv s0 ram sw R S t"
proof -
  obtain R1 where R1: "over ram_held s = R1 + ram_held (fp_thr s ! k)"
    "\<forall>t. over ram_held (s\<lparr>fp_thr := (fp_thr s)[k := t]\<rparr>) = R1 + ram_held t"
    by (rule over_split [OF assms, of ram_held])
  obtain R2 where R2: "over ram_pending s = R2 + ram_pending (fp_thr s ! k)"
    "\<forall>t. over ram_pending (s\<lparr>fp_thr := (fp_thr s)[k := t]\<rparr>) = R2 + ram_pending t"
    by (rule over_split [OF assms, of ram_pending])
  obtain S1 where S1: "over swp_held s = S1 + swp_held (fp_thr s ! k)"
    "\<forall>t. over swp_held (s\<lparr>fp_thr := (fp_thr s)[k := t]\<rparr>) = S1 + swp_held t"
    by (rule over_split [OF assms, of swp_held])
  obtain S2 where S2: "over swp_pending s = S2 + swp_pending (fp_thr s ! k)"
    "\<forall>t. over swp_pending (s\<lparr>fp_thr := (fp_thr s)[k := t]\<rparr>) = S2 + swp_pending t"
    by (rule over_split [OF assms, of swp_pending])
  have "over g (s\<lparr>fp_ram := ram, fp_swp := sw, fp_thr := ts\<rparr>) = over g (s\<lparr>fp_thr := ts\<rparr>)" for g ram sw ts
    by (simp add: over_def)
  then show thesis
    using R1 R2 S1 S2 by (intro that [of "(R1, R2)" "(S1, S2)"]) (simp_all add: frame_inv_def thr_inv_def)
qed

lemma frame_inv_step:
  assumes "frame_step s s'" "frame_inv s0 s"
  shows "frame_inv s0 s'"
  using assms(1)
proof (cases rule: frame_step.cases)
  case (Begin k n)
  obtain R S where i: "frame_inv s0 s \<longleftrightarrow> thr_inv s0 (fp_ram s) (fp_swp s) R S (fp_thr s ! k)"
    "\<forall>ram sw t. frame_inv s0 (s\<lparr>fp_ram := ram, fp_swp := sw, fp_thr := (fp_thr s)[k := t]\<rparr>) \<longleftrightarrow> thr_inv s0 ram sw R S t"
    by (rule frame_inv_split [OF Begin(2)])
  have "thr_inv s0 (fp_ram s) (fp_swp s) R S ((fp_thr s ! k)\<lparr>t_call := Some (call_alloc n)\<rparr>)"
    using assms(2) i(1) Begin(3) by (simp add: thr_inv_def frame_counts call_alloc_def)
  then show ?thesis using i(2) [THEN spec [of _ "fp_ram s"], THEN spec [of _ "fp_swp s"]] Begin(1) by simp
next
  case (Advance k a a' ram sw)
  obtain R S where i: "frame_inv s0 s \<longleftrightarrow> thr_inv s0 (fp_ram s) (fp_swp s) R S (fp_thr s ! k)"
    "\<forall>ram sw t. frame_inv s0 (s\<lparr>fp_ram := ram, fp_swp := sw, fp_thr := (fp_thr s)[k := t]\<rparr>) \<longleftrightarrow> thr_inv s0 ram sw R S t"
    by (rule frame_inv_split [OF Advance(2)])
  then show ?thesis using thr_inv_advance [OF _ Advance(3-5)] assms(2) Advance(1) by simp
next
  case (Finish k a r)
  obtain R S where i: "frame_inv s0 s \<longleftrightarrow> thr_inv s0 (fp_ram s) (fp_swp s) R S (fp_thr s ! k)"
    "\<forall>ram sw t. frame_inv s0 (s\<lparr>fp_ram := ram, fp_swp := sw, fp_thr := (fp_thr s)[k := t]\<rparr>) \<longleftrightarrow> thr_inv s0 ram sw R S t"
    by (rule frame_inv_split [OF Finish(2)])
  let ?t = "fp_thr s ! k"
  have "thr_inv s0 (fp_ram s) (fp_swp s) R S (?t\<lparr>t_call := None,
      t_ram := celems (a_frm a) @ t_ram ?t, t_swp := celems (a_swp a) @ t_swp ?t\<rparr>)"
    using assms(2) i(1) Finish(3,4) by (simp add: thr_inv_def frame_counts add.assoc)
  then show ?thesis using i(2) [THEN spec [of _ "fp_ram s"], THEN spec [of _ "fp_swp s"]] Finish(1) by simp
next
  case (Fault k f sw)
  obtain R S where i: "frame_inv s0 s \<longleftrightarrow> thr_inv s0 (fp_ram s) (fp_swp s) R S (fp_thr s ! k)"
    "\<forall>ram sw t. frame_inv s0 (s\<lparr>fp_ram := ram, fp_swp := sw, fp_thr := (fp_thr s)[k := t]\<rparr>) \<longleftrightarrow> thr_inv s0 ram sw R S t"
    by (rule frame_inv_split [OF Fault(2)])
  have "thr_inv s0 (fp_ram s) sw R S ((fp_thr s ! k)\<lparr>t_flt := f # t_flt (fp_thr s ! k)\<rparr>)"
    using assms(2) i(1) dev_inv_get [OF _ Fault(4), of "fp_swp s0"] Fault(3) by (auto simp: thr_inv_def frame_counts)
  then show ?thesis using i(2) [THEN spec [of _ "fp_ram s"]] Fault(1) by simp
qed

lemma frame_inv_init:
  "frames_ok ram \<Longrightarrow> frames_ok sw \<Longrightarrow> frame_inv (frame_init ram sw n) (frame_init ram sw n)"
proof -
  have "over g (frame_init ram sw n) = {#}" if "g idle_thr = {#}" for g
    using that by (induction n) (simp_all add: over_def frame_init_def)
  then show "frames_ok ram \<Longrightarrow> frames_ok sw \<Longrightarrow> frame_inv (frame_init ram sw n) (frame_init ram sw n)"
    by (simp add: frame_inv_def dev_inv_def frames_ok_def frame_counts idle_thr_def frame_init_def)
qed

lemma frame_inv_reachable:
  assumes "frame_step\<^sup>*\<^sup>* (frame_init ram sw n) s" "frames_ok ram" "frames_ok sw"
  shows "frame_inv (frame_init ram sw n) s" "length (fp_thr s) = n"
proof -
  show "frame_inv (frame_init ram sw n) s"
    using assms(1) by (induction rule: rtranclp_induct) (auto intro: frame_inv_init [OF assms(2,3)] frame_inv_step)
  have len: "frame_step s s' \<Longrightarrow> length (fp_thr s') = length (fp_thr s)" for s s'
    by (auto elim: frame_step.cases)
  from assms(1) show "length (fp_thr s) = n"
    by (induction rule: rtranclp_induct) (simp_all add: frame_init_def len)
qed

lemma distinct_share: "A + B \<subseteq># mset xs \<Longrightarrow> distinct xs \<Longrightarrow> set_mset A \<inter> set_mset B = {}"
proof (rule ccontr)
  assume s: "A + B \<subseteq># mset xs" "distinct xs" "set_mset A \<inter> set_mset B \<noteq> {}"
  then obtain f where f: "f \<in># A" "f \<in># B" by auto
  have "count (A + B) f \<le> count (mset xs) f" using s(1) by (rule mset_subset_eq_count)
  moreover have "count (mset xs) f \<le> 1" using s(2) by (simp add: distinct_count_atmost_1)
  ultimately show False using f by (simp add: count_inI flip: count_greater_zero_iff)
qed

text \<open>What the counts say of one device whose frames were distinct.\<close>

lemma dev_inv_apart:
  assumes d: "dev_inv d0 d (over g s) p" "distinct (free_of d0)"
    and k: "i < length (fp_thr s)" "j < length (fp_thr s)" "i \<noteq> j"
  shows "set_mset (g (fp_thr s ! i)) \<inter> set_mset (g (fp_thr s ! j)) = {}"
    "set_mset (g (fp_thr s ! i)) \<inter> set (free_of d) = {}"
    "set_mset (g (fp_thr s ! i)) \<subseteq> set (free_of d0)"
proof -
  let ?x = "g (fp_thr s ! i)" and ?y = "g (fp_thr s ! j)"
  have F: "mset (free_of d0) = mset (free_of d) + over g s" using d(1) by (simp add: dev_inv_def)
  have two: "?x + ?y \<subseteq># over g s" unfolding over_def by (rule sum_list_two [OF k])
  have "?x + ?y \<subseteq># mset (free_of d0)" unfolding F using two by (rule subset_mset.add_increasing [OF empty_le])
  then show "set_mset ?x \<inter> set_mset ?y = {}" using d(2) by (rule distinct_share)
  have x: "?x \<subseteq># over g s" using two by (metis mset_subset_eq_add_left subset_mset.order_trans)
  then have xF: "?x + mset (free_of d) \<subseteq># mset (free_of d0)" using F by (simp add: add.commute)
  then have "set_mset ?x \<inter> set_mset (mset (free_of d)) = {}" using d(2) by (rule distinct_share)
  then show "set_mset ?x \<inter> set (free_of d) = {}" by simp
  show "set_mset ?x \<subseteq> set (free_of d0)" using set_mset_mono [OF xF] by simp
qed

section \<open>Two calls that defeat each other\<close>

lemma alone_frames:
  assumes "alloc_alone\<^sup>*\<^sup>* (a, ram, sw) (a', ram', sw')"
    "k < length (fp_thr s)" "t_call (fp_thr s ! k) = Some a" "fp_ram s = ram" "fp_swp s = sw"
  shows "frame_step\<^sup>*\<^sup>* s (s\<lparr>fp_ram := ram', fp_swp := sw', fp_thr := (fp_thr s)[k := (fp_thr s ! k)\<lparr>t_call := Some a'\<rparr>]\<rparr>)"
  using assms(1)
proof (induction "(a', ram', sw')" arbitrary: a' ram' sw' rule: rtranclp_induct)
  case base
  have "(fp_thr s ! k)\<lparr>t_call := Some a\<rparr> = fp_thr s ! k" using assms(3) by simp
  then show ?case using base assms(2,4,5) by (cases s) simp
next
  case (step y)
  obtain a1 ram1 sw1 where y: "y = (a1, ram1, sw1)" by (cases y)
  let ?s1 = "s\<lparr>fp_ram := ram1, fp_swp := sw1, fp_thr := (fp_thr s)[k := (fp_thr s ! k)\<lparr>t_call := Some a1\<rparr>]\<rparr>"
  have "alloc_runs (a_pc a1)" "alloc_step a1 ram1 sw1 = Inr (a', ram', sw')" using step(2) y by auto
  then have "frame_step ?s1 (?s1\<lparr>fp_ram := ram', fp_swp := sw',
      fp_thr := (fp_thr ?s1)[k := (fp_thr ?s1 ! k)\<lparr>t_call := Some a'\<rparr>]\<rparr>)"
    using assms(2) by (intro frame_step.Advance) simp_all
  then show ?case using step.hyps(3) [OF y] assms(2) by (simp add: rtranclp.rtrancl_into_rtrancl)
qed

text \<open>One page, from whichever device has a frame.\<close>

lemma alloc_alone_one:
  assumes ok: "frames_ok (c_mram c)" "frames_ok (c_mswp c)" and it: "it < n"
    and fr: "0 < length (free_of (c_mram c)) + length (free_of (c_mswp c))"
  obtains c1 frm' swp' where "frames_taken 1 c c1"
    "alloc_alone\<^sup>*\<^sup>* (call_at AGet it n frm swp, c_mram c, c_mswp c) (call_at AGet (it + 1) n frm' swp', c_mram c1, c_mswp c1)"
proof (cases "free_of (c_mram c)")
  case (Cons f R)
  obtain m1 where m1: "MEMPHY_get_freefp (c_mram c) = Inr (0, Some f, m1)"
      "let m' = snd (MEMPHY_put_usedfp m1 f)
       in frames_ok m' \<and> free_of m' = R \<and> used_of m' = f # used_of (c_mram c) \<and> same_bytes (c_mram c) m'"
    using get_and_use_frame [OF ok(1) Cons] by blast
  let ?c = "c\<lparr>c_mram := snd (MEMPHY_put_usedfp m1 f)\<rparr>"
  have "frames_taken 1 c ?c" using m1(2) ok Cons by (simp add: frames_taken_def Let_def)
  moreover have "alloc_alone\<^sup>*\<^sup>* (call_at (AUsed f) it n (CNode f frm) swp, m1, c_mswp c)
      (call_at AGet (it + 1) n (CNode f frm) swp, c_mram ?c, c_mswp ?c)"
    by (rule alloc_alone_step [OF _ _ rtranclp.rtrancl_refl]) (simp_all add: alloc_step.simps)
  then have "alloc_alone\<^sup>*\<^sup>* (call_at AGet it n frm swp, c_mram c, c_mswp c)
      (call_at AGet (it + 1) n (CNode f frm) swp, c_mram ?c, c_mswp ?c)"
    by (rule alloc_alone_step [rotated 2]) (use it m1(1) in \<open>simp_all add: alloc_step.simps\<close>)
  ultimately show thesis by (rule that)
next
  case Nil
  then obtain f S where S: "free_of (c_mswp c) = f # S" using fr by (cases "free_of (c_mswp c)") auto
  obtain m1 where m1: "MEMPHY_get_freefp (c_mswp c) = Inr (0, Some f, m1)"
      "let m' = snd (MEMPHY_put_usedfp m1 f)
       in frames_ok m' \<and> free_of m' = S \<and> used_of m' = f # used_of (c_mswp c) \<and> same_bytes (c_mswp c) m'"
    using get_and_use_frame [OF ok(2) S] by blast
  let ?c = "c\<lparr>c_mswp := snd (MEMPHY_put_usedfp m1 f)\<rparr>"
  have "frames_taken 1 c ?c" using m1(2) ok Nil S by (simp add: frames_taken_def Let_def)
  moreover have "alloc_alone\<^sup>*\<^sup>* (call_at (AUsedSwp f) it n frm (CNode f swp), c_mram c, m1)
      (call_at AGet (it + 1) n frm (CNode f swp), c_mram ?c, c_mswp ?c)"
    by (rule alloc_alone_step [OF _ _ rtranclp.rtrancl_refl]) (simp_all add: alloc_step.simps)
  then have "alloc_alone\<^sup>*\<^sup>* (call_at AGetSwp it n frm swp, c_mram c, c_mswp c)
      (call_at AGet (it + 1) n frm (CNode f swp), c_mram ?c, c_mswp ?c)"
    by (rule alloc_alone_step [rotated 2]) (use m1(1) in \<open>simp_all add: alloc_step.simps\<close>)
  then have "alloc_alone\<^sup>*\<^sup>* (call_at AGet it n frm swp, c_mram c, c_mswp c)
      (call_at AGet (it + 1) n frm (CNode f swp), c_mram ?c, c_mswp ?c)"
    by (rule alloc_alone_step [rotated 2]) (use it get_freefp_Nil [OF ok(1) Nil] in \<open>simp_all add: alloc_step.simps\<close>)
  ultimately show thesis by (rule that)
qed

lemma alloc_alone_oom:
  assumes ok: "frames_ok (c_mram c)" "frames_ok (c_mswp c)"
    and n: "int (length (free_of (c_mram c)) + length (free_of (c_mswp c))) < n - it"
  obtains c1 it' frm' swp' where "frames_taken (length (free_of (c_mram c)) + length (free_of (c_mswp c))) c c1"
    "alloc_alone\<^sup>*\<^sup>* (call_at AGet it n frm swp, c_mram c, c_mswp c) (call_at (ARet (-3000)) it' n frm' swp', c_mram c1, c_mswp c1)"
proof -
  obtain c1 frm' swp' where "frames_taken (length (free_of (c_mram c)) + length (free_of (c_mswp c))) c c1"
    "alloc_pages_loop it n c frm swp = Inr (-3000, frm', swp', c1)"
    using alloc_pages_loop_oom [OF ok refl n] by blast
  then show thesis using alloc_alone_loop that by blast
qed

lemma frames_taken_all:
  assumes "frames_taken n c c1" "n = length (free_of (c_mram c)) + length (free_of (c_mswp c))"
  shows "free_of (c_mram c1) = []" "free_of (c_mswp c1) = []"
  using assms by (simp_all add: frames_taken_def Let_def)

abbreviation frames_left :: "vmctx \<Rightarrow> nat" where
  "frames_left c \<equiv> length (free_of (c_mram c)) + length (free_of (c_mswp c))"

lemma frames_taken_left: "frames_taken n c c1 \<Longrightarrow> frames_left c1 = frames_left c - n"
  by (auto simp: frames_taken_def Let_def)

lemma frames_taken_ok: "frames_taken n c c1 \<Longrightarrow> frames_ok (c_mram c1) \<and> frames_ok (c_mswp c1)"
  by (simp add: frames_taken_def)

lemma alloc_alone_many:
  "frames_ok (c_mram c) \<Longrightarrow> frames_ok (c_mswp c) \<Longrightarrow> it + int k \<le> n \<Longrightarrow> k \<le> frames_left c \<Longrightarrow>
     \<exists>c1 frm' swp'. frames_taken k c c1 \<and>
       alloc_alone\<^sup>*\<^sup>* (call_at AGet it n frm swp, c_mram c, c_mswp c) (call_at AGet (it + int k) n frm' swp', c_mram c1, c_mswp c1)"
proof (induction k arbitrary: it c frm swp)
  case 0
  then show ?case using frames_taken_0 by auto
next
  case (Suc k)
  have it: "it < n" using Suc.prems(3) by simp
  have left: "0 < frames_left c" using Suc.prems(4) by linarith
  obtain c1 frm1 swp1 where c1: "frames_taken 1 c c1"
    "alloc_alone\<^sup>*\<^sup>* (call_at AGet it n frm swp, c_mram c, c_mswp c) (call_at AGet (it + 1) n frm1 swp1, c_mram c1, c_mswp c1)"
    by (rule alloc_alone_one [OF Suc.prems(1,2) it left, of frm swp])
  have "k \<le> frames_left c1" using frames_taken_left [OF c1(1)] Suc.prems(4) by simp
  then obtain c2 frm2 swp2 where c2: "frames_taken k c1 c2"
    "alloc_alone\<^sup>*\<^sup>* (call_at AGet (it + 1) n frm1 swp1, c_mram c1, c_mswp c1)
       (call_at AGet (it + 1 + int k) n frm2 swp2, c_mram c2, c_mswp c2)"
    using Suc.IH [of c1 "it + 1" frm1 swp1] frames_taken_ok [OF c1(1)] Suc.prems(3) by auto
  have "frames_taken (Suc k) c c2" using frames_taken_Suc [OF c1(1) c2(1)] .
  moreover have "alloc_alone\<^sup>*\<^sup>* (call_at AGet it n frm swp, c_mram c, c_mswp c)
      (call_at AGet (it + int (Suc k)) n frm2 swp2, c_mram c2, c_mswp c2)"
    using rtranclp_trans [OF c1(2) c2(2)] by (simp add: add.assoc)
  ultimately show ?case by blast
qed

lemma both_begin:
  "frame_step\<^sup>*\<^sup>* (frame_init ram sw 2) \<lparr>fp_ram = ram, fp_swp = sw,
     fp_thr = [idle_thr\<lparr>t_call := Some (call_alloc n)\<rparr>, idle_thr\<lparr>t_call := Some (call_alloc n)\<rparr>]\<rparr>"
proof -
  let ?s = "frame_init ram sw 2"
  let ?s1 = "?s\<lparr>fp_thr := (fp_thr ?s)[0 := (fp_thr ?s ! 0)\<lparr>t_call := Some (call_alloc n)\<rparr>]\<rparr>"
  let ?s2 = "?s1\<lparr>fp_thr := (fp_thr ?s1)[1 := (fp_thr ?s1 ! 1)\<lparr>t_call := Some (call_alloc n)\<rparr>]\<rparr>"
  have "frame_step ?s ?s1" by (rule frame_step.Begin) (simp_all add: frame_init_def idle_thr_def)
  moreover have "frame_step ?s1 ?s2" by (rule frame_step.Begin) (simp_all add: frame_init_def idle_thr_def)
  ultimately have "frame_step\<^sup>*\<^sup>* ?s ?s2" by (simp add: rtranclp.rtrancl_into_rtrancl)
  then show ?thesis by (simp add: frame_init_def numeral_2_eq_2)
qed

text \<open>The first call gets all but one of its frames; the second takes the rest; both fail.\<close>

lemma both_fail:
  assumes ok: "frames_ok (c_mram c)" "frames_ok (c_mswp c)"
    and n: "n \<le> frames_left c" "frames_left c + 2 \<le> 2 * n"
  obtains a b c' where "frame_step\<^sup>*\<^sup>* (frame_init (c_mram c) (c_mswp c) 2)
      \<lparr>fp_ram = c_mram (c' :: vmctx), fp_swp = c_mswp c', fp_thr = [idle_thr\<lparr>t_call := Some a\<rparr>, idle_thr\<lparr>t_call := Some b\<rparr>]\<rparr>"
    "a_pc a = ARet (-3000)" "a_pc b = ARet (-3000)" "free_of (c_mram c') = []" "free_of (c_mswp c') = []"
proof -
  let ?start = "call_at AGet 0 (int n) CNull CNull"
  let ?st = "\<lambda>c a b. \<lparr>fp_ram = c_mram c, fp_swp = c_mswp c,
      fp_thr = [idle_thr\<lparr>t_call := Some a\<rparr>, idle_thr\<lparr>t_call := Some b\<rparr>]\<rparr>"
  have k: "0 + int (n - 1) \<le> int n" "n - 1 \<le> frames_left c" using n by simp_all
  obtain c1 f1 s1 where c1: "frames_taken (n - 1) c c1"
    "alloc_alone\<^sup>*\<^sup>* (?start, c_mram c, c_mswp c) (call_at AGet (int (n - 1)) (int n) f1 s1, c_mram c1, c_mswp c1)"
    using alloc_alone_many [OF ok k, of CNull CNull] by auto
  have l1: "int (frames_left c1) < int n - 0" using frames_taken_left [OF c1(1)] n by simp
  have ok1: "frames_ok (c_mram c1)" "frames_ok (c_mswp c1)" using frames_taken_ok [OF c1(1)] by simp_all
  obtain c2 i2 f2 s2 where c2: "frames_taken (frames_left c1) c1 c2"
    "alloc_alone\<^sup>*\<^sup>* (?start, c_mram c1, c_mswp c1) (call_at (ARet (-3000)) i2 (int n) f2 s2, c_mram c2, c_mswp c2)"
    by (rule alloc_alone_oom [OF ok1 l1, of CNull CNull])
  have l2: "int (frames_left c2) < int n - int (n - 1)" using frames_taken_left [OF c2(1)] n by simp
  have ok2: "frames_ok (c_mram c2)" "frames_ok (c_mswp c2)" using frames_taken_ok [OF c2(1)] by simp_all
  obtain c3 i3 f3 s3 where c3: "frames_taken (frames_left c2) c2 c3"
    "alloc_alone\<^sup>*\<^sup>* (call_at AGet (int (n - 1)) (int n) f1 s1, c_mram c2, c_mswp c2)
       (call_at (ARet (-3000)) i3 (int n) f3 s3, c_mram c3, c_mswp c3)"
    by (rule alloc_alone_oom [OF ok2 l2, of f1 s1])
  have 0: "frame_step\<^sup>*\<^sup>* (frame_init (c_mram c) (c_mswp c) 2) (?st c ?start ?start)"
    using both_begin [of "c_mram c" "c_mswp c" "int n"] by (simp add: call_alloc_def)
  have 1: "frame_step\<^sup>*\<^sup>* (?st c ?start ?start) (?st c1 (call_at AGet (int (n - 1)) (int n) f1 s1) ?start)"
    using alone_frames [OF c1(2), of 0 "?st c ?start ?start"] by simp
  have 2: "frame_step\<^sup>*\<^sup>* (?st c1 (call_at AGet (int (n - 1)) (int n) f1 s1) ?start)
      (?st c2 (call_at AGet (int (n - 1)) (int n) f1 s1) (call_at (ARet (-3000)) i2 (int n) f2 s2))"
    using alone_frames [OF c2(2), of 1 "?st c1 (call_at AGet (int (n - 1)) (int n) f1 s1) ?start"] by simp
  have 3: "frame_step\<^sup>*\<^sup>* (?st c2 (call_at AGet (int (n - 1)) (int n) f1 s1) (call_at (ARet (-3000)) i2 (int n) f2 s2))
      (?st c3 (call_at (ARet (-3000)) i3 (int n) f3 s3) (call_at (ARet (-3000)) i2 (int n) f2 s2))"
    using alone_frames [OF c3(2), of 0 "?st c2 (call_at AGet (int (n - 1)) (int n) f1 s1) (call_at (ARet (-3000)) i2 (int n) f2 s2)"] by simp
  show thesis
    by (rule that [OF rtranclp_trans [OF rtranclp_trans [OF rtranclp_trans [OF 0 1] 2] 3]])
      (simp_all add: frames_taken_all [OF c3(1)])
qed

lemma alloc_step_total:
  assumes "proper (free_fp_list ram)" "proper (free_fp_list sw)"
  shows "\<exists>x. alloc_step a ram sw = Inr x"
proof (cases "a_pc a")
  case AGet
  then show ?thesis using assms(1) by (cases "free_fp_list ram") (auto simp: alloc_step.simps MEMPHY_get_freefp_def)
next
  case AGetSwp
  then show ?thesis using assms(2) by (cases "free_fp_list sw") (auto simp: alloc_step.simps MEMPHY_get_freefp_def)
qed (simp_all add: alloc_step.simps)

section \<open>Properties\<close>

text \<open>
  C17: a request for \<open>n\<close> pages that no other thread interrupts ends, and with enough free frames it
  returns 0 and the first free frames, those of RAM first and the rest from swap, which are then
  used and not free; without, it returns -3000 and has taken all frames of both devices. No byte of
  a device changes.
\<close>

theorem alloc_steps_take_frames:
  assumes "frames_ok (c_mram c)" and "frames_ok (c_mswp c)"
  shows "(\<exists>a ram sw r. alloc_alone\<^sup>*\<^sup>* (call_alloc (int n), c_mram c, c_mswp c) (a, ram, sw) \<and> a_pc a = ARet r) \<and>
    (\<forall>a ram sw r. alloc_alone\<^sup>*\<^sup>* (call_alloc (int n), c_mram c, c_mswp c) (a, ram, sw) \<and> a_pc a = ARet r \<longrightarrow>
      (let R = free_of (c_mram c); S = free_of (c_mswp c); c' = c\<lparr>c_mram := ram, c_mswp := sw\<rparr>
       in if n \<le> length R + length S
          then r = 0 \<and> celems (a_frm a) = rev (take n R) \<and> celems (a_swp a) = rev (take (n - length R) S) \<and>
            frames_taken n c c'
          else r = -3000 \<and> frames_taken (length R + length S) c c'))"
proof -
  let ?R = "free_of (c_mram c)" and ?S = "free_of (c_mswp c)"
  obtain r frm swp c' where c': "alloc_pages_range c (int n) CNull CNull = Inr (r, frm, swp, c')"
    and spec: "if n \<le> length ?R + length ?S
      then r = 0 \<and> celems frm = rev (take n ?R) \<and> celems swp = rev (take (n - length ?R) ?S) \<and> frames_taken n c c'
      else r = -3000 \<and> frames_taken (length ?R + length ?S) c c'"
  proof (cases "n \<le> length ?R + length ?S")
    case True
    then show thesis using that alloc_pages_loop_ok [OF assms, of n "int n" 0 "[]" "[]"] by (auto simp: alloc_pages_range_def)
  next
    case False
    then show thesis
      using that alloc_pages_loop_oom [OF assms refl, of "int n" 0 CNull CNull] by (auto simp: alloc_pages_range_def)
  qed
  have "c_mm c' = c_mm c" using spec by (auto simp: frames_taken_def split: if_splits)
  then have "c\<lparr>c_mram := c_mram c', c_mswp := c_mswp c'\<rparr> = c'" by (cases c; cases c') simp
  then have "\<exists>a ram sw r. alloc_alone\<^sup>*\<^sup>* (call_alloc (int n), c_mram c, c_mswp c) (a, ram, sw) \<and> a_pc a = ARet r"
    using alloc_steps_compute [of "int n" c r frm swp "c_mram c'" "c_mswp c'"] c' by force
  moreover have u: "x = r \<and> a_frm a = frm \<and> a_swp a = swp \<and> c\<lparr>c_mram := ram, c_mswp := sw\<rparr> = c'"
    if "alloc_alone\<^sup>*\<^sup>* (call_alloc (int n), c_mram c, c_mswp c) (a, ram, sw)" "a_pc a = ARet x" for a ram sw x
    using rest_of_alone [OF that(1), where mm = "c_mm c"] that(2) c'
    by (cases c) (auto simp: call_alloc_def alloc_pages_range_def Let_def)
  ultimately show ?thesis
  proof (intro conjI allI impI, goal_cases)
    case (2 a ram sw x)
    then show ?case using u [of a ram sw x] spec by (simp add: Let_def)
  qed
qed

theorem alloc_steps_take_frames_witness:
  "\<exists>a ram sw. alloc_alone\<^sup>*\<^sup>* (call_alloc 5, c_mram sample_ctx, c_mswp sample_ctx) (a, ram, sw) \<and> a_pc a = ARet 0 \<and>
    celems (a_frm a) = [3, 2, 1, 0] \<and> celems (a_swp a) = [0] \<and> free_of sw = [1, 2, 3]"
proof -
  have ok: "frames_ok (c_mram sample_ctx)" "frames_ok (c_mswp sample_ctx)"
    and f: "free_of (c_mram sample_ctx) = [0, 1, 2, 3]" "free_of (c_mswp sample_ctx) = [0, 1, 2, 3]"
    by (simp_all add: sample_ctx_def sample_dev_ok)
  from alloc_steps_take_frames [OF ok, of 5]
  obtain a ram sw where "alloc_alone\<^sup>*\<^sup>* (call_alloc 5, c_mram sample_ctx, c_mswp sample_ctx) (a, ram, sw)" "a_pc a = ARet 0"
      "celems (a_frm a) = [3, 2, 1, 0]" "celems (a_swp a) = [0]" "frames_taken 5 sample_ctx (sample_ctx\<lparr>c_mram := ram, c_mswp := sw\<rparr>)"
    unfolding f Let_def by fastforce
  then show ?thesis using f by (auto simp: frames_taken_def Let_def)
qed

text \<open>
  C13: however the allocations and page faults of any number of threads interleave, no frame
  is lost or handed out twice: the frames of each device that were free are now free or held
  by a thread, so that two threads never hold the same frame of a device and no frame in use
  is free; the bytes of the devices stay as they are, and a call in progress can always go on.
\<close>

theorem frames_never_shared:
  assumes "frames_ok ram" and "frames_ok sw" and "frame_step\<^sup>*\<^sup>* (frame_init ram sw n) s"
    and "i < n" and "j < n" and "i \<noteq> j"
  shows "mset (free_of (fp_ram s)) + over ram_held s = mset (free_of ram) \<and>
    mset (free_of (fp_swp s)) + over swp_held s = mset (free_of sw) \<and>
    set_mset (ram_held (fp_thr s ! i)) \<inter> (set_mset (ram_held (fp_thr s ! j)) \<union> set (free_of (fp_ram s))) = {} \<and>
    set_mset (swp_held (fp_thr s ! i)) \<inter> (set_mset (swp_held (fp_thr s ! j)) \<union> set (free_of (fp_swp s))) = {} \<and>
    storage (fp_ram s) = storage ram \<and> storage (fp_swp s) = storage sw \<and>
    (\<forall>a. t_call (fp_thr s ! i) = Some a \<longrightarrow> (\<exists>x. alloc_step a (fp_ram s) (fp_swp s) = Inr x))"
proof -
  have inv: "dev_inv ram (fp_ram s) (over ram_held s) (over ram_pending s)"
    "dev_inv sw (fp_swp s) (over swp_held s) (over swp_pending s)"
    using frame_inv_reachable(1) [OF assms(3,1,2)] by (simp_all add: frame_inv_def frame_init_def)
  have d: "distinct (free_of ram)" "distinct (free_of sw)" using assms(1,2) by (simp_all add: frames_ok_def)
  have k: "i < length (fp_thr s)" "j < length (fp_thr s)"
    using frame_inv_reachable(2) [OF assms(3,1,2)] assms(4,5) by simp_all
  show ?thesis
    using inv dev_inv_apart [OF inv(1) d(1) k assms(6)] dev_inv_apart [OF inv(2) d(2) k assms(6)]
      alloc_step_total [of "fp_ram s" "fp_swp s"]
    by (simp add: dev_inv_def same_bytes_def Int_Un_distrib)
qed

theorem frames_never_shared_witness:
  "\<exists>s. frame_step\<^sup>*\<^sup>* (frame_init (sample_dev 512 [0, 1]) (sample_dev 256 []) 2) s \<and>
     ram_held (fp_thr s ! 0) = {#0#} \<and> 0 \<notin># ram_held (fp_thr s ! 1) \<and> 0 \<notin> set (free_of (fp_ram s))"
proof -
  let ?d = "sample_dev 512 [0, 1]" and ?e = "sample_dev 256 []"
  let ?s = "\<lparr>fp_ram = ?d, fp_swp = ?e,
     fp_thr = [idle_thr\<lparr>t_call := Some (call_alloc 1)\<rparr>, idle_thr\<lparr>t_call := Some (call_alloc 1)\<rparr>]\<rparr>"
  let ?a = "call_at (AUsed 0) 0 1 (CNode 0 CNull) CNull"
  let ?t = "\<lparr>fp_ram = ?d\<lparr>free_fp_list := clist_of [1]\<rparr>, fp_swp = ?e,
     fp_thr = [idle_thr\<lparr>t_call := Some ?a\<rparr>, idle_thr\<lparr>t_call := Some (call_alloc 1)\<rparr>]\<rparr>"
  have "frame_step ?s (?s\<lparr>fp_ram := ?d\<lparr>free_fp_list := clist_of [1]\<rparr>, fp_swp := ?e,
      fp_thr := (fp_thr ?s)[0 := (fp_thr ?s ! 0)\<lparr>t_call := Some ?a\<rparr>]\<rparr>)"
    by (rule frame_step.Advance [where a = "call_alloc 1"])
      (simp_all add: alloc_step.simps call_alloc_def sample_dev_def MEMPHY_get_freefp_def)
  then have r: "frame_step\<^sup>*\<^sup>* (frame_init ?d ?e 2) ?t"
    using both_begin [of ?d ?e 1] by (simp add: rtranclp.rtrancl_into_rtrancl)
  have "frames_ok ?d" "frames_ok ?e" by (simp_all add: sample_dev_ok)
  moreover have "ram_held (fp_thr ?t ! 0) = {#0#}" by (simp add: ram_held_def idle_thr_def)
  ultimately show ?thesis
    using frames_never_shared [OF _ _ r, of 0 1] r by (intro exI [of _ ?t]) auto
qed

text \<open>
  C35: two concurrent requests can defeat each other. With at least \<open>n\<close> free frames a request
  for \<open>n\<close> pages alone is served; but when two requests for \<open>n\<close> pages, which together exceed
  the free frames by two or more, interleave, both can fail, and no frame is left free.
\<close>

theorem allocations_both_fail:
  assumes "frames_ok (c_mram c)" and "frames_ok (c_mswp c)"
    and "n \<le> length (free_of (c_mram c)) + length (free_of (c_mswp c))"
    and "length (free_of (c_mram c)) + length (free_of (c_mswp c)) + 2 \<le> 2 * n"
  shows "(\<exists>frm swp c'. alloc_pages_range c (int n) CNull CNull = Inr (0, frm, swp, c')) \<and>
    (\<exists>s a b. frame_step\<^sup>*\<^sup>* (frame_init (c_mram c) (c_mswp c) 2) s \<and>
       map t_call (fp_thr s) = [Some a, Some b] \<and> a_pc a = ARet (-3000) \<and> a_pc b = ARet (-3000) \<and>
       free_of (fp_ram s) = [] \<and> free_of (fp_swp s) = [])"
proof
  show "\<exists>frm swp c'. alloc_pages_range c (int n) CNull CNull = Inr (0, frm, swp, c')"
    using alloc_pages_loop_ok [OF assms(1,2) _ assms(3), of "int n" 0 "[]" "[]"] by (auto simp: alloc_pages_range_def)
  show "\<exists>s a b. frame_step\<^sup>*\<^sup>* (frame_init (c_mram c) (c_mswp c) 2) s \<and>
       map t_call (fp_thr s) = [Some a, Some b] \<and> a_pc a = ARet (-3000) \<and> a_pc b = ARet (-3000) \<and>
       free_of (fp_ram s) = [] \<and> free_of (fp_swp s) = []"
    by (rule both_fail [OF assms], rule_tac x = "\<lparr>fp_ram = c_mram c', fp_swp = c_mswp c',
        fp_thr = [idle_thr\<lparr>t_call := Some a\<rparr>, idle_thr\<lparr>t_call := Some b\<rparr>]\<rparr>" in exI) auto
qed

theorem allocations_both_fail_witness:
  "\<exists>s. frame_step\<^sup>*\<^sup>* (frame_init (sample_dev 1024 [0, 1, 2, 3]) (sample_dev 4096 [0, 1, 2, 3]) 2) s \<and>
     (\<exists>a b. map t_call (fp_thr s) = [Some a, Some b] \<and> a_pc a = ARet (-3000) \<and> a_pc b = ARet (-3000)) \<and>
     free_of (fp_ram s) = [] \<and> free_of (fp_swp s) = []"
  using allocations_both_fail [of sample_ctx 5] by (force simp: sample_ctx_def sample_dev_ok)

end
