(* ===== verification/OS_RoundRobin.thy ===== *)
theory OS_RoundRobin
  imports OS_Sched
begin

text \<open>
  \<open>src/sched.c\<close> without \<open>MLQ_SCHED\<close>: one ready queue. The variant satisfies the contract of a
  pool of ready processes for \<open>add_proc\<close>, but \<open>put_proc\<close> stores into \<open>run_queue\<close>, from which
  nothing is ever taken.
\<close>

definition rr_get_proc :: "sched \<Rightarrow> (pcb_t option \<times> sched) res" where
  "rr_get_proc s = rbind (dequeue (ready_queue s)) (\<lambda>(p, q). Inr (p, s\<lparr>ready_queue := q\<rparr>))"

definition rr_put_proc :: "sched \<Rightarrow> pcb_t \<Rightarrow> sched res" where
  "rr_put_proc s p = rbind (enqueue (run_queue s) p) (\<lambda>q. Inr (s\<lparr>run_queue := q\<rparr>))"

definition rr_add_proc :: "sched \<Rightarrow> pcb_t \<Rightarrow> sched res" where
  "rr_add_proc s p = rbind (enqueue (ready_queue s) p) (\<lambda>q. Inr (s\<lparr>ready_queue := q\<rparr>))"

definition rr_ok :: "sched \<Rightarrow> bool" where
  "rr_ok s \<longleftrightarrow> queue_ok (ready_queue s) \<and> queue_ok (run_queue s)"

definition rr_ready :: "sched \<Rightarrow> pcb_t multiset" where
  "rr_ready s = mset (qlist (ready_queue s))"

definition rr_kept :: "sched \<Rightarrow> pcb_t multiset" where
  "rr_kept s = mset (qlist (run_queue s))"

lemma enqueue_Inr:
  assumes "queue_ok q" "enqueue q p = Inr q'"
  shows "queue_ok q' \<and> qlist q' = qlist q @ [p]"
  using enqueue_bound [OF assms(1), of p] assms(2) by (auto split: if_splits)

lemma dequeue_total:
  assumes "queue_ok q"
  obtains p q' where "dequeue q = Inr (p, q')" "queue_ok q'" "mset (qlist q) = opt_mset p + mset (qlist q')"
  using assms dequeue_Nil [OF assms] dequeue_Cons [OF assms] that
  by (cases "qlist q") (auto simp: opt_mset_def)

interpretation rr: ready_pool rr_get_proc rr_add_proc rr_ready rr_ok
proof unfold_locales
  fix s assume ok: "rr_ok s"
  then have "queue_ok (ready_queue s)" by (simp add: rr_ok_def)
  then obtain p q' where "dequeue (ready_queue s) = Inr (p, q')" "queue_ok q'"
      "mset (qlist (ready_queue s)) = opt_mset p + mset (qlist q')"
    by (rule dequeue_total)
  then show "\<exists>p s'. rr_get_proc s = Inr (p, s') \<and> rr_ok s' \<and> rr_ready s = opt_mset p + rr_ready s'"
    using ok by (simp add: rr_get_proc_def rr_ready_def rr_ok_def)
next
  fix s assume "rr_ok s" "rr_ready s = {#}"
  then show "rr_get_proc s = Inr (None, s)"
    using dequeue_Nil [of "ready_queue s"] by (simp add: rr_get_proc_def rr_ok_def rr_ready_def)
next
  fix s p s' assume "rr_ok s" "rr_add_proc s p = Inr s'"
  then show "rr_ok s' \<and> rr_ready s' = add_mset p (rr_ready s)"
    by (auto simp: rr_add_proc_def rr_ok_def rr_ready_def rbind_eq_Inr dest: enqueue_Inr)
qed

section \<open>What is put back is lost\<close>

lemma rr_get_run_queue: "rr_get_proc s = Inr (p, s') \<Longrightarrow> run_queue s' = run_queue s"
  by (auto simp: rr_get_proc_def rbind_eq_Inr)

lemma rr_add_run_queue: "rr_add_proc s p = Inr s' \<Longrightarrow> run_queue s' = run_queue s"
  by (auto simp: rr_add_proc_def rbind_eq_Inr)

lemma rr_put_keeps:
  assumes "rr_ok s" "rr_put_proc s p = Inr s'"
  shows "rr_ok s' \<and> ready_queue s' = ready_queue s \<and> rr_kept s' = add_mset p (rr_kept s)"
  using assms by (auto simp: rr_put_proc_def rr_ok_def rr_kept_def rbind_eq_Inr dest: enqueue_Inr)

datatype rr_call = Rr_get | Rr_add pcb_t | Rr_put pcb_t

primrec rr_run :: "rr_call list \<Rightarrow> sched \<Rightarrow> (pcb_t option list \<times> sched) res" where
  "rr_run [] s = Inr ([], s)"
| "rr_run (c # cs) s =
     (case c of
        Rr_get \<Rightarrow> rbind (rr_get_proc s) (\<lambda>(p, s1). rbind (rr_run cs s1) (\<lambda>(ps, s2). Inr (p # ps, s2)))
      | Rr_add p \<Rightarrow> rbind (rr_add_proc s p) (rr_run cs)
      | Rr_put p \<Rightarrow> rbind (rr_put_proc s p) (rr_run cs))"

primrec rr_added :: "rr_call list \<Rightarrow> pcb_t multiset" where
  "rr_added [] = {#}"
| "rr_added (c # cs) = (case c of Rr_add p \<Rightarrow> add_mset p (rr_added cs) | _ \<Rightarrow> rr_added cs)"

primrec rr_putback :: "rr_call list \<Rightarrow> pcb_t multiset" where
  "rr_putback [] = {#}"
| "rr_putback (c # cs) = (case c of Rr_put p \<Rightarrow> add_mset p (rr_putback cs) | _ \<Rightarrow> rr_putback cs)"

text \<open>
  Over any sequence of calls the processes handed out come from those that were ready or have
  been added, and every process put back is still in \<open>run_queue\<close> at the end.
\<close>

lemma rr_run_accounts:
  "rr_ok s \<Longrightarrow> rr_run cs s = Inr (outs, s') \<Longrightarrow>
     rr_ok s' \<and> rr_ready s + rr_added cs = got outs + rr_ready s' \<and> rr_kept s' = rr_kept s + rr_putback cs"
proof (induction cs arbitrary: s outs)
  case (Cons c cs)
  show ?case
  proof (cases c)
    case Rr_get
    with Cons.prems(2) obtain p s1 ps where g: "rr_get_proc s = Inr (p, s1)" "rr_run cs s1 = Inr (ps, s')" "outs = p # ps"
      by (auto simp: rbind_eq_Inr)
    note k = rr.get_keeps [OF Cons.prems(1) g(1)] rr_get_run_queue [OF g(1)]
    then show ?thesis using Cons.IH [of s1 ps] g(2,3) Rr_get by (simp add: rr_kept_def ac_simps)
  next
    case (Rr_add p)
    with Cons.prems(2) obtain s1 where g: "rr_add_proc s p = Inr s1" "rr_run cs s1 = Inr (outs, s')"
      by (auto simp: rbind_eq_Inr)
    note k = rr.put_keeps [OF Cons.prems(1) g(1)] rr_add_run_queue [OF g(1)]
    then show ?thesis using Cons.IH [of s1 outs] g(2) Rr_add by (simp add: rr_kept_def)
  next
    case (Rr_put p)
    with Cons.prems(2) obtain s1 where g: "rr_put_proc s p = Inr s1" "rr_run cs s1 = Inr (outs, s')"
      by (auto simp: rbind_eq_Inr)
    note k = rr_put_keeps [OF Cons.prems(1) g(1)]
    then show ?thesis using Cons.IH [of s1 outs] g(2) Rr_put by (simp add: rr_ready_def)
  qed
qed simp

end
