(* ===== verification/OS_Mem.thy ===== *)
theory OS_Mem
  imports OS_Types
begin

text \<open>
  \<open>src/mem.c\<close>, the memory manager of the build without paging, and the operations of
  \<open>src/cpu.c\<close> that call it. Most of its bodies are unfinished in the source: no table is ever
  searched and no page is ever allocated. Addresses are 32-bit words.
\<close>

unbundle bit_operations_syntax

type_synonym addr_t = "32 word"

definition RAM_SIZE :: int where "RAM_SIZE = 2 ^ ADDRESS_SIZE"

record mem_stat_t =
  ms_proc :: int
  ms_index :: int
  ms_next :: int

record mem_state =
  mem_ram :: "int \<Rightarrow> byte"
  mem_stat :: "mem_stat_t list"

definition init_mem :: "mem_state" where
  "init_mem = \<lparr>mem_ram = (\<lambda>_. 0), mem_stat = replicate NUM_PAGES \<lparr>ms_proc = 0, ms_index = 0, ms_next = 0\<rparr>\<rparr>"

definition get_offset :: "addr_t \<Rightarrow> addr_t" where
  "get_offset addr = addr AND NOT (push_bit OFFSET_LEN (NOT 0))"

definition get_first_lv :: "addr_t \<Rightarrow> addr_t" where
  "get_first_lv addr = drop_bit (OFFSET_LEN + SECOND_LV_LEN) addr"

definition get_second_lv :: "addr_t \<Rightarrow> addr_t" where
  "get_second_lv addr = drop_bit OFFSET_LEN addr - push_bit SECOND_LV_LEN (get_first_lv addr)"

text \<open>The body of the search loop is empty.\<close>

definition get_trans_table :: "addr_t \<Rightarrow> page_table_t \<Rightarrow> trans_table_t option" where
  "get_trans_table index pt = None"

text \<open>\<open>translate\<close> never writes \<open>*physical_addr\<close>.\<close>

fun translate_loop :: "trans_table_t \<Rightarrow> nat \<Rightarrow> nat \<Rightarrow> addr_t \<Rightarrow> int res" where
  "translate_loop tt i 0 second_lv = Inr 0"
| "translate_loop tt i (Suc n) second_lv =
     rbind (arr_get (tt_table tt) i) (\<lambda>row.
       if v_index row = uint second_lv then Inr 1 else translate_loop tt (i + 1) n second_lv)"

definition translate :: "addr_t \<Rightarrow> pcb_t \<Rightarrow> int res" where
  "translate va proc =
     (case get_trans_table (get_first_lv va) (page_table proc) of
        None \<Rightarrow> Inr 0
      | Some tt \<Rightarrow> translate_loop tt 0 (nat (tt_size tt)) (get_second_lv va))"

definition alloc_num_pages :: "int \<Rightarrow> int" where
  "alloc_num_pages sz = (if sz mod PAGE_SIZE \<noteq> 0 then sz div PAGE_SIZE else sz div PAGE_SIZE + 1)"

definition alloc_mem :: "int \<Rightarrow> pcb_t \<Rightarrow> int \<times> pcb_t" where
  "alloc_mem sz proc =
     (let num_pages = alloc_num_pages sz; mem_avail = (0 :: int)
      in if mem_avail \<noteq> 0 then (bp proc, proc\<lparr>bp := u32 (bp proc + u32 (num_pages * PAGE_SIZE))\<rparr>)
         else (0, proc))"

definition free_mem :: "addr_t \<Rightarrow> pcb_t \<Rightarrow> int" where
  "free_mem address proc = 0"

definition read_mem :: "mem_state \<Rightarrow> addr_t \<Rightarrow> pcb_t \<Rightarrow> (int \<times> byte option) res" where
  "read_mem m address proc =
     rbind (translate address proc) (\<lambda>t. if t \<noteq> 0 then Inl UninitRead else Inr (1, None))"

definition write_mem :: "mem_state \<Rightarrow> addr_t \<Rightarrow> pcb_t \<Rightarrow> byte \<Rightarrow> (int \<times> mem_state) res" where
  "write_mem m address proc data =
     rbind (translate address proc) (\<lambda>t. if t \<noteq> 0 then Inl UninitRead else Inr (1, m))"

text \<open>
  \<open>dump\<close>: for every page in use its number, its status and the address and value of its
  nonzero bytes. The inner loop ends one byte before the end of the page.
\<close>

definition dump_page :: "mem_state \<Rightarrow> nat \<Rightarrow> (int \<times> byte) list" where
  "dump_page m i =
     map (\<lambda>j. (j, mem_ram m j))
       (filter (\<lambda>j. mem_ram m j \<noteq> 0) [int i * 2 ^ OFFSET_LEN..(int i + 1) * 2 ^ OFFSET_LEN - 2])"

definition dump :: "mem_state \<Rightarrow> (nat \<times> mem_stat_t \<times> (int \<times> byte) list) list" where
  "dump m =
     map (\<lambda>i. (i, mem_stat m ! i, dump_page m i))
       (filter (\<lambda>i. ms_proc (mem_stat m ! i) \<noteq> 0) [0..<length (mem_stat m)])"

section \<open>cpu.c without paging\<close>

definition alloc :: "pcb_t \<Rightarrow> int \<Rightarrow> nat \<Rightarrow> (int \<times> pcb_t) res" where
  "alloc proc sz reg_index =
     (let (addr, proc) = alloc_mem sz proc
      in if addr = 0 then Inr (1, proc)
         else rbind (arr_set (regs proc) reg_index addr) (\<lambda>r. Inr (0, proc\<lparr>regs := r\<rparr>)))"

definition free_data :: "pcb_t \<Rightarrow> nat \<Rightarrow> int res" where
  "free_data proc reg_index =
     rbind (arr_get (regs proc) reg_index) (\<lambda>a. Inr (free_mem (word_of_int a) proc))"

text \<open>
  \<open>read\<close> stores the byte exactly when \<open>read_mem\<close> reports failure; the byte is then
  indeterminate.
\<close>

definition read :: "mem_state \<Rightarrow> pcb_t \<Rightarrow> nat \<Rightarrow> int \<Rightarrow> nat \<Rightarrow> (int \<times> pcb_t) res" where
  "read m proc source offset destination =
     rbind (arr_get (regs proc) source) (\<lambda>a.
     rbind (read_mem m (word_of_int (a + offset)) proc) (\<lambda>(r, data).
       if r \<noteq> 0 then
         case data of None \<Rightarrow> Inl UninitRead
         | Some d \<Rightarrow> rbind (arr_set (regs proc) destination (u32 (sint d))) (\<lambda>r. Inr (0, proc\<lparr>regs := r\<rparr>))
       else Inr (1, proc)))"

definition write_reg :: "mem_state \<Rightarrow> pcb_t \<Rightarrow> byte \<Rightarrow> nat \<Rightarrow> int \<Rightarrow> (int \<times> mem_state) res" where
  "write_reg m proc data destination offset =
     rbind (arr_get (regs proc) destination) (\<lambda>a. write_mem m (word_of_int (a + offset)) proc data)"

section \<open>Properties\<close>

lemmas lv_defs = get_offset_def get_first_lv_def get_second_lv_def OFFSET_LEN_def SECOND_LV_LEN_def

lemma uint_offset: "uint (get_offset a) = uint a mod 1024"
proof -
  have "get_offset a = take_bit 10 a"
    by (rule bit_eqI) (auto simp: lv_defs bit_simps)
  then show ?thesis by (simp add: take_bit_eq_mod uint_mod_distrib)
qed

lemma uint_first_lv: "uint (get_first_lv a) = uint a div 32768"
  by (simp add: lv_defs drop_bit_eq_div uint_div_distrib)

lemma uint_second_lv: "uint (get_second_lv a) = uint a div 1024 mod 32"
proof -
  have "get_second_lv a = take_bit 5 (drop_bit 10 a)"
  proof -
    have "push_bit 5 (drop_bit 15 a) = push_bit 5 (drop_bit 5 (drop_bit 10 a))" by simp
    also have "\<dots> = drop_bit 10 a - take_bit 5 (drop_bit 10 a)"
      using bits_ident [of 5 "drop_bit 10 a"] by (metis add_diff_cancel_right')
    finally show ?thesis by (simp add: lv_defs)
  qed
  then show ?thesis by (simp add: take_bit_eq_mod drop_bit_eq_div uint_mod_distrib uint_div_distrib)
qed

text \<open>
  The two table indices and the offset of an address determine it, and the second index
  and the offset are below 32 and 1024.
\<close>

lemma legacy_address_split:
  "uint (get_first_lv a) * 2 ^ 15 + uint (get_second_lv a) * 2 ^ 10 + uint (get_offset a) = uint a \<and>
    uint (get_second_lv a) < 2 ^ SECOND_LV_LEN \<and> uint (get_offset a) < PAGE_SIZE"
proof -
  have "uint a div 1024 div 32 * 32 + uint a div 1024 mod 32 = uint a div 1024" by simp
  moreover have "uint a div 1024 div 32 = uint a div 32768" by (simp add: zdiv_zmult2_eq)
  moreover have "uint a div 1024 * 1024 + uint a mod 1024 = uint a" by simp
  ultimately have "uint a div 32768 * 32768 + uint a div 1024 mod 32 * 1024 + uint a mod 1024 = uint a" by linarith
  then show ?thesis
    by (simp add: uint_offset uint_first_lv uint_second_lv PAGE_SIZE_def OFFSET_LEN_def SECOND_LV_LEN_def)
qed

text \<open>
  The memory manager without paging never allocates and never translates: allocation,
  reading and writing return 1 and change nothing, and \<open>read\<close>, which tests the result the
  wrong way round, uses the byte that was not read.
\<close>

lemma legacy_memory_refuses:
  assumes "source < length (regs proc)"
  shows "alloc proc sz reg = Inr (1, proc) \<and> write_reg m proc b source off = Inr (1, m) \<and>
    read m proc source off dst = Inl UninitRead"
  using assms
  by (simp add: alloc_def alloc_mem_def write_reg_def write_mem_def read_def read_mem_def translate_def
      get_trans_table_def arr_get_def)

definition legacy_pcb :: pcb_t where
  "legacy_pcb = \<lparr>pid = 1, priority = 0, code = \<lparr>code_text = [], code_size = 0\<rparr>, regs = replicate 10 0, pc = 0,
     prio = 0, p_mm = None, page_table = \<lparr>pt_table = [], pt_size = 0\<rparr>, bp = PAGE_SIZE\<rparr>"

lemma legacy_memory_refuses_witness:
  "read init_mem legacy_pcb 2 0 3 = Inl UninitRead"
  using legacy_memory_refuses [of 2 legacy_pcb 0 0 init_mem 0 0 3] by (simp add: legacy_pcb_def)

text \<open>
  The pages counted for an allocation hold one page more than a size that is a multiple of
  the page size, and less than any other size: the rest of the last page is dropped.
\<close>

lemma legacy_page_count:
  "alloc_num_pages sz * PAGE_SIZE =
    (if sz mod PAGE_SIZE = 0 then sz + PAGE_SIZE else sz - sz mod PAGE_SIZE)"
  by (auto simp: alloc_num_pages_def distrib_right minus_mod_eq_div_mult)

end
