(* ===== verification/OS_Paging.thy ===== *)
theory OS_Paging
  imports OS_Loader OS_Mem
begin

text \<open>
  \<open>src/paging.c\<close>: the test program of the legacy memory. It loads the same program twice, runs
  the two processes in turn and dumps the memory of \<open>src/mem.c\<close>. It never initialises the
  memory description and the devices of a process: they are what \<open>malloc\<close> left, so that
  they are arguments here.
\<close>

definition paging_path :: string where "paging_path = ''input/p0''"

text \<open>The control block and the devices its pointers lead to.\<close>

type_synonym paging_proc = "pcb_t \<times> memphy_struct \<times> memphy_struct"

definition paging_run :: "paging_proc \<Rightarrow> paging_proc res" where
  "paging_run x = (case x of (p, ram, sw) \<Rightarrow> rbind (run p ram sw) (\<lambda>(_, p, ram, sw). Inr (p, ram, sw)))"

primrec paging_loop :: "nat \<Rightarrow> paging_proc \<Rightarrow> paging_proc \<Rightarrow> (paging_proc \<times> paging_proc) res" where
  "paging_loop 0 proc ld = Inr (proc, ld)"
| "paging_loop (Suc n) proc ld =
     rbind (paging_run proc) (\<lambda>proc. rbind (paging_run ld) (\<lambda>ld. paging_loop n proc ld))"

text \<open>\<open>avail_pid\<close> is 1 at the start of the program; the result is the dump.\<close>

definition paging_main :: "(string \<Rightarrow> string option) \<Rightarrow> (nat \<Rightarrow> pcb_t) \<Rightarrow> (nat \<Rightarrow> nat \<Rightarrow> inst_t) \<Rightarrow>
    (nat \<Rightarrow> memphy_struct \<times> memphy_struct) \<Rightarrow> mem_state \<Rightarrow> (nat \<times> mem_stat_t \<times> (int \<times> byte) list) list res" where
  "paging_main fs proc0 text0 devs m =
     rbind (load fs (proc0 0) (text0 0) 1 paging_path) (\<lambda>(ld, pid1).
     rbind (load fs (proc0 1) (text0 1) pid1 paging_path) (\<lambda>(proc, _).
     rbind (paging_loop (nat (code_size (code proc))) (proc, devs 1) (ld, devs 0)) (\<lambda>_. Inr (dump m))))"

lemma paging_run_calc:
  assumes "code_ok p" "pc p < code_size (code p)" "list_all (\<lambda>i. opcode i = CALC) (code_text (code p))"
  shows "paging_run (p, d) = Inr (p\<lparr>pc := pc p + 1\<rparr>, d)" "code_ok (p\<lparr>pc := pc p + 1\<rparr>)"
proof -
  have "opcode (code_text (code p) ! nat (pc p)) = CALC"
    using assms code_ok_step(2) [OF assms(1,2)] by (simp add: list_all_length)
  then show "paging_run (p, d) = Inr (p\<lparr>pc := pc p + 1\<rparr>, d)"
    using run_calc [OF assms(1,2)] by (cases d) (simp add: paging_run_def)
  show "code_ok (p\<lparr>pc := pc p + 1\<rparr>)" using assms(1,2) by (simp add: code_ok_def)
qed

text \<open>Two processes that only compute run to their ends, whatever their devices are.\<close>

lemma paging_loop_calc:
  assumes "code_ok p" "code_ok q" "int n \<le> code_size (code p) - pc p" "int n \<le> code_size (code q) - pc q"
    and "list_all (\<lambda>i. opcode i = CALC) (code_text (code p))" "list_all (\<lambda>i. opcode i = CALC) (code_text (code q))"
  shows "paging_loop n (p, d) (q, d') = Inr ((p\<lparr>pc := pc p + int n\<rparr>, d), (q\<lparr>pc := pc q + int n\<rparr>, d'))"
  using assms
proof (induction n arbitrary: p q)
  case (Suc n)
  note p = paging_run_calc [OF Suc.prems(1) _ Suc.prems(5)] and q = paging_run_calc [OF Suc.prems(2) _ Suc.prems(6)]
  show ?case
    using p q Suc.IH [of "p\<lparr>pc := pc p + 1\<rparr>" "q\<lparr>pc := pc q + 1\<rparr>"] Suc.prems by (simp add: add.assoc)
qed simp

end
