(* ===== verification/Spec2Isabelle.thy ===== *)
theory Spec2Isabelle
  imports OS_Trace OS_Stale OS_Race OS_FrameRace OS_RoundRobin OS_Paging
begin

text \<open>
  A verification development of an operating system simulator written in C: a multi-level
  queue scheduler, CPUs as threads, paged virtual memory with swapping, a program loader,
  and a timer that keeps the threads in the same time slot. The configuration is the one of
  \<open>include/os-cfg.h\<close>: \<open>MLQ_SCHED\<close> and \<open>MM_PAGING\<close> are defined, \<open>MM_FIXED_MEMSZ\<close> is not.

  \<^bold>\<open>The program and its theories.\<close>
  \<^item> \<open>OS_Prelude\<close>: what C code can do besides returning a value (\<open>c_error\<close>: invalid pointers,
    accesses out of bounds, reads of indeterminate values, signed overflow, \<open>exit\<close>), the
    result type with its bind \<open>rbind\<close>, the conversions between C integers, checked arrays,
    linked lists that own their nodes. \<open>res_simps\<close> and \<open>c_simps\<close> collect the evaluation rules.
  \<^item> \<open>OS_Bitops\<close>: the macros of \<open>include/bitops.h\<close> and \<open>include/mm.h\<close> on 32-bit words and the
    page table entries of \<open>src/mm.c\<close> (\<open>init_pte\<close>, \<open>pte_set_swap\<close>, \<open>pte_set_fpn\<close>).
  \<^item> \<open>OS_Types\<close>: the structs of \<open>include/common.h\<close> and \<open>include/os-mm.h\<close>.
  \<^item> \<open>OS_Queue\<close> and \<open>OS_Sched\<close>: \<open>src/queue.c\<close> and \<open>src/sched.c\<close>. The locale \<open>fifo_queue\<close> is the
    contract of the queue towards the scheduler, \<open>ready_pool\<close> and \<open>bounded_wait\<close> the contract
    of the scheduler towards the CPUs; \<open>mlq_policy\<close> is the abstract scheduler it refines.
  \<^item> \<open>OS_Race\<close>: \<open>get_mlq_proc\<close> as the steps (\<open>get_step\<close>) between which other threads can run:
    its unlocked reads and its critical sections; \<open>par_step\<close> interleaves any number of calls.
    \<open>OS_RoundRobin\<close>: the operations of \<open>src/sched.c\<close> without \<open>MLQ_SCHED\<close>.
  \<^item> \<open>OS_Memphy\<close>: the physical memories of \<open>src/mm-memphy.c\<close>, with the locales \<open>byte_store\<close>,
    \<open>bounded_store\<close> and \<open>frame_pool\<close> for their two roles.
  \<^item> \<open>OS_Regions\<close>: the free region list of \<open>src/mm-vm.c\<close> on an explicit store of nodes; first
    fit and merging release are the abstract operations on lists of intervals.
  \<^item> \<open>OS_MM\<close>: the rest of \<open>src/mm.c\<close>: mapping pages to frames, copying pages, printing.
    \<open>OS_FrameRace\<close>: \<open>alloc_pages_range\<close> as the steps (\<open>alloc_step\<close>) between the critical
    sections of \<open>lock_mem\<close>; \<open>frame_step\<close> interleaves the allocations and the page faults of any
    number of threads on the two devices they share.
  \<^item> \<open>OS_VM\<close>: \<open>__alloc\<close>, \<open>__free\<close> and their helpers of \<open>src/mm-vm.c\<close> (\<open>vm_alloc\<close>, \<open>vm_free\<close>),
    with the invariant \<open>vm_inv\<close> of one process and the locale \<open>region_allocator\<close>.
  \<^item> \<open>OS_Access\<close>: page faults, reads and writes of \<open>src/mm-vm.c\<close>; the invariant \<open>proc_ok\<close>, the
    step relation \<open>mem_step\<close> of a process on the shared devices, isolation of processes.
    \<open>OS_Stale\<close>: how an access that faults leaves the memory of its process.
  \<^item> \<open>OS_CPU\<close>: \<open>run\<close> of \<open>src/cpu.c\<close>. \<open>OS_Mem\<close>: \<open>src/mem.c\<close> and the operations of \<open>src/cpu.c\<close> for
    the build without paging. \<open>OS_Paging\<close>: the test program \<open>src/paging.c\<close>.
  \<^item> \<open>OS_Scan\<close>, \<open>OS_Loader\<close>, \<open>OS_Config\<close>: \<open>fscanf\<close> on characters, \<open>src/loader.c\<close>, and
    \<open>read_config\<close> of \<open>src/os.c\<close>.
  \<^item> \<open>OS_Timer\<close>: \<open>src/timer.c\<close> as the step relation \<open>tstep\<close> over its critical sections; the
    locale \<open>slot_barrier\<close> is what the threads rely on.
  \<^item> \<open>OS_Threads\<close> and \<open>OS_System\<close>: the thread bodies and \<open>main\<close> of \<open>src/os.c\<close>, and the step
    relation \<open>os_step\<close> of the whole simulator.
  \<^item> \<open>OS_Isolation\<close>: the memory of all processes on the shared devices (\<open>mems_ok\<close>), carried from
    \<open>main\<close> through the slots of CPUs and loader. A slot is safe (\<open>slot_safe\<close>) when the instruction
    it executes is (\<open>instr_safe\<close>); \<open>safe_reachable\<close> is execution by such slots.
    \<open>OS_Trace\<close>: the log of what is seen after the slots of a run, and that it is what the programs
    say (\<open>performs\<close>).

  \<^bold>\<open>How the parts interact.\<close> \<open>main\<close> reads the configuration, attaches one device per CPU and
  one for the loader to the timer and creates the threads. The loader turns program files
  into control blocks and adds them to the scheduler at their start times. A CPU takes a
  process from the scheduler, runs one instruction per time slot, and returns the process
  when its time slice is used up. An instruction reaches the paging code through the memory
  description of its process and the two devices all processes share. In the model a
  control block is a value that moves between the loader, a queue and a CPU; devices,
  scheduler and timer are fields of the system state; every function returns either its
  results with the updated state or the error the C code runs into.

  \<^bold>\<open>What is proved.\<close>
  \<^item> Scheduling: \<open>get_proc\<close> refines the policy from every well-formed state, conserves
    processes, and serves the head of every queue within a bound; the branches of \<open>put_proc\<close>
    and exactly when a call returns nothing although processes wait. Calls that interleave deliver
    every process at most once, and the unlocked read of a budget lets it wrap around.
  \<^item> Memory: frames are handed out once, also when allocations and page faults of several
    threads interleave, but two such requests can starve each other; first fit and merging release are exact on the
    bytes; regions stay disjoint under all sequences of allocations and releases, up to a
    release that uses a freed node; mapping with enough frames, served page faults, reads, and
    writes to pages in RAM keep the invariant, the contents of every page, and the memory of
    every other process; the round trip of a byte in RAM, of a page table entry and of
    an address; what happens without frames, with bad offsets and indices, and to another
    process when a write faults.
  \<^item> Execution: one call of \<open>run\<close> performs the instruction at \<open>pc\<close>: \<open>instr_ready\<close> gives the
    conditions and \<open>instr_effect\<close> what the instruction does to the memory of its process.
  \<^item> Loading: programs and configurations that are printed are read back; the behaviour on
    missing, wrong and truncated files.
  \<^item> Timer: barrier, absence of deadlock and of lost wake-ups, a bound on the steps of a slot.
  \<^item> System: no process is lost or doubled in any reachable state, the changes seen after the
    slots of a process are those of its program, in order and each once, whichever CPUs run it, the
    threads run in lockstep, a process whose time slice is used up goes back through the
    scheduler, and an idle simulator never ends. As long as the instructions that are executed are
    safe, the memory of every process stays in order and a slot changes no byte of another process.

  \<^bold>\<open>The conditions of the memory properties.\<close> They are not theorems about every run, because the
  code breaks them on some. Safe instructions exclude allocations that do not get their
  frames (\<open>pgalloc\<close> reports success and the area has pages without frames, see \<open>OS_VM\<close>),
  writes that cause a page fault (they may change another process, see \<open>OS_Stale\<close>),
  and accesses outside the area; reads that cause a page fault are safe. \<open>malloc_zeroed\<close> says
  that \<open>malloc\<close> returns zeroed memory for page table, registers and first area, which \<open>init_mm\<close> does
  not initialise; \<open>boot_ready\<close> that both devices have at least two pages. Each property that needs
  one of these says so in its statement.

  \<^bold>\<open>Bounds and termination.\<close> Every loop is a terminating function, and the loops over time are
  step relations. Only the walks over region nodes take fuel, the number of nodes ever
  allocated: a list without a cycle is shorter, so that the walks over well-formed lists are
  proved to return, and a walk that uses it up is on a cycle (\<open>Diverges\<close>). Machine integers are 32-bit words for page table entries and addresses
  in macros; elsewhere they are integers with the conversions \<open>u32\<close>, \<open>u64\<close>, \<open>s32\<close> written
  out, and signed arithmetic that overflows is an error. What \<open>malloc\<close> leaves in a new block
  is an argument of the operation that allocates it; \<open>malloc\<close> itself does not fail.

  \<^bold>\<open>Not modelled.\<close>
  \<^item> The interleaving of two CPUs inside \<open>run\<close>, apart from the allocation of frames: reads and
    writes of the devices are not interleaved. In \<open>os_step\<close> the slots of the threads are
    executed one after the other. A description and its page table belong to one process, which
    one CPU runs, and the frames of two processes are disjoint, so that only the frame lists are
    shared; the exception is the access that faults and uses a stale frame number
    (\<open>OS_Stale\<close>), where the order within a slot may matter.
  \<^item> The text printed to the terminal, except the data of the dumps; \<open>run\<close>, \<open>pgread\<close> and \<open>pgwrite\<close>
    are modelled for a dump file that can be opened.
  \<^item> The variants of \<open>src/os.c\<close> that the configuration switches off, and the declarations of
    the headers.
\<close>

section \<open>From booting to execution\<close>

text \<open>
  With devices of at least two pages and zeroed memory for its description, the first
  process that the loader admits after \<open>main\<close> has booted the machine is in good order: its
  code segment is intact, its page table is empty, and its description and the two devices
  satisfy the invariant that execution keeps.
\<close>

lemma first_process_ready:
  assumes "os_main b env argv = Inr (Some (cfg, s))"
    and "512 \<le> memramsz cfg" and "memramsz cfg \<le> 2 ^ 21" and "512 \<le> memswpsz cfg ! 0" and "memswpsz cfg ! 0 \<le> 2 ^ 29"
    and "zeroed_mm (env_mm env 0)" and "env_link env 0 = None"
    and "ld_routine env cfg now (sys_ld s) (sys_machine s) = Inr (e, l, m)" and "ld_i l = 1"
  shows "\<exists>p mm. queued (m_sched m) = {#p#} \<and> pid p = 1 \<and> pc p = 0 \<and> code_ok p \<and> p_mm p = Some mm \<and>
    proc_ok (caller_ctx mm (m_ram m) (m_swp m))"
proof -
  obtain p r mm where p: "queued (m_sched m) = {#p#}" "code_ok p" "pc p = 0" "pid p = 1" "p_mm p = Some mm"
      "init_mm (env_mm env 0) None = Inr (r, mm)" "m_ram m = m_ram (sys_machine s)" "m_swp m = m_swp (sys_machine s)"
    using first_admitted [OF assms(1,8,9)] assms(7) by metis
  have "proc_ok (caller_ctx mm (m_ram m) (m_swp m))"
    using boot_device_ok [OF assms(2) os_main_devices(1) [OF assms(1)]] boot_device_ok [OF assms(4) os_main_devices(2) [OF assms(1)]]
      assms(3,5) p(7,8) by (intro fresh_proc_ok(1) [OF assms(6) _ _ _ _ _ _ p(6)]) simp_all
  then show ?thesis using p(1-5) by blast
qed

lemma first_process_ready_witness:
  "\<exists>s e l m p mm. os_main sample_boot sample_env1 [''os'', ''one''] = Inr (Some (sample_cfg1, s)) \<and>
    ld_routine sample_env1 sample_cfg1 0 (sys_ld s) (sys_machine s) = Inr (e, l, m) \<and>
    queued (m_sched m) = {#p#} \<and> p_mm p = Some mm \<and> proc_ok (caller_ctx mm (m_ram m) (m_swp m))"
proof -
  obtain s e l m where s: "os_main sample_boot sample_env1 [''os'', ''one''] = Inr (Some (sample_cfg1, s))"
      "ld_routine sample_env1 sample_cfg1 0 (sys_ld s) (sys_machine s) = Inr (e, l, m)" "ld_i l = 1"
    by (rule sample_first_run)
  have "zeroed_mm (env_mm sample_env1 0)" "env_link sample_env1 0 = None"
    by (simp_all add: sample_env1_def zeroed_mm_def sample_mm_def PAGING_MAX_SYMTBL_SZ_def)
  then show ?thesis using first_process_ready [OF s(1) _ _ _ _ _ _ s(2,3)] s(1,2) by (fastforce simp: sample_cfg1_def)
qed

end
